(* ===== verification/Go_Prelude.thy ===== *)
theory Go_Prelude
  imports Main "HOL-Library.Word" "HOL-Library.AList"
begin

text \<open>
  The Go runtime as far as the other theories need it: machine integers, the outcome of a
  statement that may panic or block, slices, maps, buffered channels and byte strings, with the
  generic lemmas the components share.

  \<^item> Unsigned integers are words (\<open>u64\<close>, \<open>u32\<close>, \<open>u16\<close>, \<open>u8\<close>), so that \<open>+\<close> and \<open>-\<close> wrap as
    Go's do. The code uses \<open>math.MaxUint64\<close> where the Raft paper uses \<open>-1\<close>; it is \<open>MaxUint64\<close>.
  \<^item> \<open>'a go\<close> is the outcome of running code: it returns, it panics, or it blocks.
  \<^item> A Go map is an association list without duplicate keys. The order of the list is one of the
    orders in which Go's \<open>range\<close> may visit the map; Go leaves that order unspecified.
  \<^item> A buffered channel is the list of its pending values, its capacity and a closed flag.
\<close>

unbundle bit_operations_syntax

section \<open>Machine integers\<close>

type_synonym u64 = "64 word"
type_synonym u32 = "32 word"
type_synonym u16 = "16 word"
type_synonym u8 = "8 word"
type_synonym bytes = "u8 list"

abbreviation MaxUint64 :: u64 where
  "MaxUint64 \<equiv> - 1"

text \<open>The sentinel \<open>MaxUint64\<close> read as a length: one more than the index it stands for.\<close>

definition count_of :: "u64 \<Rightarrow> nat" where
  "count_of i = unat (i + 1)"

named_theorems go_simps \<open>unfolding rules for outcomes, slices, maps and channels\<close>

lemma count_of_Max [simp]: "count_of MaxUint64 = 0"
  by (simp add: count_of_def)

lemma count_of_Suc: "i \<noteq> MaxUint64 \<Longrightarrow> count_of i = Suc (unat i)"
  unfolding count_of_def using unatSuc [of i] by (metis add.commute add_eq_0_iff)

lemma count_of_inject: "count_of i = count_of j \<longleftrightarrow> i = j"
  by (metis add_right_cancel count_of_def word_unat_eq_iff)

lemma unat_Suc_less: "i < (j::u64) \<Longrightarrow> unat (i + 1) = Suc (unat i)"
  by (metis count_of_Suc count_of_def word_order.extremum_strict)

lemma unat_of_nat_u64_le: "unat (of_nat n :: u64) \<le> n"
  by (simp add: unat_of_nat)

lemma less_of_nat_lengthD: "i < (of_nat n :: u64) \<Longrightarrow> unat i < n"
  using unat_of_nat_u64_le [of n] by (simp add: word_less_nat_alt)

lemma unat_of_nat_small: "n < 2 ^ 63 \<Longrightarrow> unat (of_nat n :: u64) = n"
  by (simp add: unat_of_nat)

lemma of_nat_less_Max: "n < 2 ^ 63 \<Longrightarrow> (of_nat n :: u64) < MaxUint64"
  by (simp add: word_less_nat_alt unat_of_nat unsigned_minus_1_eq_mask mask_eq_exp_minus_1)

lemma unat_eqD: "unat (w::u64) = n \<Longrightarrow> w = of_nat n"
  by auto

lemma sint_small: "unat (i::u64) < 2 ^ 63 \<Longrightarrow> sint i = int (unat i)"
proof -
  assume "unat i < 2 ^ 63"
  then have "int (unat i) < int (2 ^ 63)" by (simp only: of_nat_less_iff)
  then have "uint i < 2 ^ 63" by simp
  moreover have "- (2 ^ 63) \<le> uint i" by (rule order_trans [OF _ uint_ge_0]) simp
  ultimately have "signed_take_bit 63 (uint i) = uint i" by (intro signed_take_bit_int_eq_self)
  then have "sint i = uint i" unfolding sint_uint by simp
  then show ?thesis by simp
qed

section \<open>Outcomes: return, panic, block\<close>

datatype go_panic =
    IndexOutOfRange
  | SliceOutOfRange
  | NilDereference
  | NilMapAssignment
  | SendOnClosedChannel
  | CloseOfClosedChannel
  | IntegerDivideByZero
  | ExplicitPanic string
  | MultipleRegistrations
  | FatalExit

datatype 'a go = Ret 'a | Panic go_panic | Blocked

definition bind_go :: "'a go \<Rightarrow> ('a \<Rightarrow> 'b go) \<Rightarrow> 'b go" where
  "bind_go m f = (case m of Ret x \<Rightarrow> f x | Panic p \<Rightarrow> Panic p | Blocked \<Rightarrow> Blocked)"

lemma bind_go_simps [simp]:
  "bind_go (Ret x) f = f x"
  "bind_go (Panic p) f = Panic p"
  "bind_go Blocked f = Blocked"
  by (simp_all add: bind_go_def)

lemma bind_go_assoc: "bind_go (bind_go m f) g = bind_go m (\<lambda>x. bind_go (f x) g)"
  by (cases m) simp_all

lemma bind_go_Ret_right: "bind_go m Ret = m"
  by (cases m) simp_all

lemma case_sumE:
  assumes "(case x of Inl a \<Rightarrow> f a | Inr b \<Rightarrow> g b) = Ret y"
  obtains a where "x = Inl a" "f a = Ret y" | b where "x = Inr b" "g b = Ret y"
  using assms by (cases x) auto

lemma bind_go_Ret_iff: "bind_go m f = Ret y \<longleftrightarrow> (\<exists>x. m = Ret x \<and> f x = Ret y)"
  by (cases m) auto

lemma option_eqI: "(\<And>v. a = Some v \<longleftrightarrow> b = Some v) \<Longrightarrow> a = b"
  by (cases a; cases b) auto

text \<open>A loop that passes a state through the elements of a list.\<close>

fun fold_go :: "('a \<Rightarrow> 's \<Rightarrow> 's go) \<Rightarrow> 'a list \<Rightarrow> 's \<Rightarrow> 's go" where
  "fold_go f [] s = Ret s"
| "fold_go f (x # xs) s = bind_go (f x s) (fold_go f xs)"

section \<open>Slices\<close>

text \<open>
  \<open>xs[i]\<close>, \<open>xs[lo:]\<close> and \<open>xs[lo:hi]\<close>. Go checks \<open>hi\<close> against the capacity of the slice and not against its
  length: \<open>cells\<close> are those of the array behind the slice that were written before, and a slice that reaches
  into them shows them. What lies behind those cells is not there or was never written.
\<close>

definition go_index :: "'a list \<Rightarrow> nat \<Rightarrow> 'a go" where
  [go_simps]: "go_index xs i = (if i < length xs then Ret (xs ! i) else Panic IndexOutOfRange)"

definition go_slice_from :: "'a list \<Rightarrow> nat \<Rightarrow> 'a list go" where
  [go_simps]: "go_slice_from xs lo = (if lo \<le> length xs then Ret (drop lo xs) else Panic SliceOutOfRange)"

definition go_slice :: "'a list \<Rightarrow> 'a list \<Rightarrow> nat \<Rightarrow> nat \<Rightarrow> 'a list go" where
  [go_simps]: "go_slice xs cells lo hi =
     (if lo \<le> hi \<and> hi \<le> length (xs @ cells) then Ret (take (hi - lo) (drop lo (xs @ cells))) else Panic SliceOutOfRange)"

lemma upt_append_upt: "a \<le> b \<Longrightarrow> [0..<a] @ [a..<b] = [0..<b]"
  by (metis le_add_diff_inverse upt_add_eq_append zero_le)

lemma map_upt_append: "a \<le> b \<Longrightarrow> map f [0..<a] @ map f [a..<b] = map f [0..<b]"
  by (simp only: upt_append_upt flip: map_append)

lemma map_upt_shift: "map (\<lambda>j. f (a + j)) [0..<b - a] = map f [a..<b]"
  by (rule nth_equalityI) auto

lemma le_last_sorted: "sorted xs \<Longrightarrow> x \<in> set xs \<Longrightarrow> x \<le> last xs"
  by (induction xs) auto

section \<open>Maps\<close>

type_synonym ('k, 'v) gomap = "('k \<times> 'v) list"

definition map_set :: "'k \<Rightarrow> 'v \<Rightarrow> ('k, 'v) gomap \<Rightarrow> ('k, 'v) gomap" where
  "map_set k v m = AList.update k v m"

text \<open>Reading a \<open>map[uint64]uint64\<close> at an absent key yields the zero value.\<close>

definition map_get0 :: "('k, u64) gomap \<Rightarrow> 'k \<Rightarrow> u64" where
  "map_get0 m k = (case map_of m k of None \<Rightarrow> 0 | Some v \<Rightarrow> v)"

definition map_wf :: "('k, 'v) gomap \<Rightarrow> bool" where
  "map_wf m \<longleftrightarrow> distinct (map fst m)"

lemma map_of_map_set [simp]: "map_of (map_set k v m) = (map_of m)(k \<mapsto> v)"
  by (simp add: map_set_def update_conv')

lemma map_set_fresh: "k \<notin> fst ` set m \<Longrightarrow> map_set k v m = m @ [(k, v)]"
  unfolding map_set_def by (induction m) auto

lemma map_wf_Nil [simp]: "map_wf []"
  by (simp add: map_wf_def)

lemma map_wf_map_set [simp]: "map_wf m \<Longrightarrow> map_wf (map_set k v m)"
  by (simp add: map_wf_def map_set_def distinct_update)

lemma map_get0_map_set [simp]:
  "map_get0 (map_set k v m) k' = (if k' = k then v else map_get0 m k')"
  by (simp add: map_get0_def)

lemma map_get0_Nil [simp]: "map_get0 [] k = 0"
  by (simp add: map_get0_def)

lemma length_map_wf: "map_wf m \<Longrightarrow> length m = card (dom (map_of m))"
  by (metis distinct_card dom_map_of_conv_image_fst length_map list.set_map map_wf_def)

text \<open>Copying a map entry by entry with \<open>range\<close> yields a map with the same contents.\<close>

lemma fold_map_set:
  "map_of (fold (\<lambda>(k, v) c. map_set k v c) m c) = map_of c ++ map_of (rev m)"
  by (induction m arbitrary: c) (auto simp: map_add_def fun_eq_iff split: option.splits)

lemma map_of_rev_wf: "map_wf m \<Longrightarrow> map_of (rev m) = map_of m"
  unfolding map_wf_def by (rule map_of_eqI) (auto simp: map_of_eq_Some_iff rev_map [symmetric] intro!: map_of_is_SomeI)

lemma map_wf_fold_map_set: "map_wf c \<Longrightarrow> map_wf (fold (\<lambda>(k, v) c. map_set k v c) m c)"
  by (induction m arbitrary: c) (auto simp: case_prod_beta)

section \<open>Buffered channels\<close>

record 'a gochan =
  chBuf :: "'a list"
  chCap :: nat
  chClosed :: bool

definition make_chan :: "nat \<Rightarrow> 'a gochan" where
  [go_simps]: "make_chan n = \<lparr>chBuf = [], chCap = n, chClosed = False\<rparr>"

definition chan_send :: "'a \<Rightarrow> 'a gochan \<Rightarrow> 'a gochan go" where
  [go_simps]: "chan_send x c =
     (if chClosed c then Panic SendOnClosedChannel
      else if length (chBuf c) < chCap c then Ret (c\<lparr>chBuf := chBuf c @ [x]\<rparr>)
      else Blocked)"

definition chan_close :: "'a gochan \<Rightarrow> 'a gochan go" where
  [go_simps]: "chan_close c =
     (if chClosed c then Panic CloseOfClosedChannel else Ret (c\<lparr>chClosed := True\<rparr>))"

text \<open>A receive returns \<open>None\<close> when the channel is closed and drained.\<close>

definition chan_recv :: "'a gochan \<Rightarrow> ('a option \<times> 'a gochan) go" where
  [go_simps]: "chan_recv c =
     (case chBuf c of
        x # xs \<Rightarrow> Ret (Some x, c\<lparr>chBuf := xs\<rparr>)
      | [] \<Rightarrow> if chClosed c then Ret (None, c) else Blocked)"

text \<open>\<open>for x := range c\<close> collects until the channel is closed; on an open channel it never ends.\<close>

definition chan_range :: "'a gochan \<Rightarrow> 'a list go" where
  [go_simps]: "chan_range c = (if chClosed c then Ret (chBuf c) else Blocked)"

lemma chan_send_recv:
  "chBuf c = [] \<Longrightarrow> chan_send x c = Ret c' \<Longrightarrow> \<exists>c''. chan_recv c' = Ret (Some x, c'') \<and> chBuf c'' = []"
  by (auto simp: go_simps split: if_splits)

section \<open>Byte strings\<close>

text \<open>Go strings are byte strings; \<open>[]byte(s)\<close> and \<open>string(b)\<close> convert without change.\<close>

definition byte_of_char :: "char \<Rightarrow> u8" where
  "byte_of_char c = of_nat (of_char c)"

definition char_of_byte :: "u8 \<Rightarrow> char" where
  "char_of_byte w = char_of (unat w)"

definition bytes_of_string :: "string \<Rightarrow> bytes" where
  "bytes_of_string s = map byte_of_char s"

definition string_of_bytes :: "bytes \<Rightarrow> string" where
  "string_of_bytes b = map char_of_byte b"

lemma char_of_byte_of_char [simp]: "char_of_byte (byte_of_char c) = c"
  by (simp add: char_of_byte_def byte_of_char_def unat_of_nat)

lemma byte_of_char_of_byte [simp]: "byte_of_char (char_of_byte w) = w"
proof -
  have "unat w < 256" using unsigned_less [of w, where ?'a = nat] by simp
  then show ?thesis by (simp add: char_of_byte_def byte_of_char_def)
qed

lemma string_of_bytes_of_string [simp]: "string_of_bytes (bytes_of_string s) = s"
  by (induction s) (simp_all add: string_of_bytes_def bytes_of_string_def)

lemma bytes_of_string_of_bytes [simp]: "bytes_of_string (string_of_bytes b) = b"
  by (induction b) (simp_all add: string_of_bytes_def bytes_of_string_def)

section \<open>Codecs\<close>

text \<open>An encoding with a decoder that undoes it.\<close>

locale codec =
  fixes enc :: "'a \<Rightarrow> 'b" and dec :: "'b \<Rightarrow> 'a option"
  assumes dec_enc: "dec (enc x) = Some x"
begin

lemma enc_inject: "enc x = enc y \<longleftrightarrow> x = y"
  by (metis dec_enc option.inject)

end

interpretation str: codec bytes_of_string "\<lambda>b. Some (string_of_bytes b)"
  by unfold_locales simp

end
