(* ===== verification/Raft.thy ===== *)
theory Raft
  imports Go_Prelude
begin

text \<open>
  The Raft module of \<open>pkg/server/consensus.go\<close> with the message types of \<open>api/protocol.pb.go\<close>, the
  commit types of \<open>commit.go\<close> and \<open>CommitReady.go\<close> and the indices of \<open>volatile.go\<close>.

  One record, \<open>raft\<close>, holds the fields of \<open>RaftProtocol\<close>. A method that runs from lock to unlock is
  one function on that record. A method with several critical sections is the composition of one
  function per section (\<open>RequestVote_decide\<close>, \<open>AppendEntries_locked\<close>, \<open>broadcastMsg_send\<close>,
  \<open>broadcastMsg_locked\<close>, \<open>startElection_begin\<close>, \<open>startElection_reply\<close>), so that the handlers can be
  read as in the source and the sections can be interleaved in the theory of node steps.

  The clock is an argument (\<open>now\<close>, one value for a method call). Goroutines that a method starts are
  appended to the field \<open>spawned\<close>. Logging is left out. \<open>Force\<close> is stored and never read.
\<close>

section \<open>Messages and entries\<close>

record KeyValuePair =
  Key :: string
  Value :: bytes

text \<open>The command of an entry is a pointer: absent in a message, it is nil.\<close>

record LogEntry =
  eTerm :: u64
  eCommand :: "KeyValuePair option"

record RequestVoteMsg =
  rvTerm :: u64
  rvCandidateId :: u64
  rvLastLogIndex :: u64
  rvLastLogTerm :: u64

record RequestVoteReply =
  rvrTerm :: u64
  rvrVoteGranted :: bool

record AppendEntriesMsg =
  aeTerm :: u64
  aeLeaderId :: u64
  aePrevLogIndex :: u64
  aePrevLogTerm :: u64
  aeEntries :: "LogEntry list"
  aeLeaderCommit :: u64

record AppendEntriesReply =
  aerTerm :: u64
  aerSuccess :: bool

record CommitEntry =
  ceCommand :: KeyValuePair
  ceIndex :: u64
  ceTerm :: u64

record CommitReady =
  crTerm :: u64

section \<open>The state\<close>

datatype ProtocolState = Follower | Candidate | Leader | Dead

fun ProtocolState_String :: "ProtocolState \<Rightarrow> string" where
  "ProtocolState_String Follower = ''Follower''"
| "ProtocolState_String Candidate = ''Candidate''"
| "ProtocolState_String Leader = ''Leader''"
| "ProtocolState_String Dead = ''Dead''"

record RaftVolatileState =
  commitIndex :: u64
  lastApplied :: u64

definition setCommitIndex :: "u64 \<Rightarrow> RaftVolatileState \<Rightarrow> RaftVolatileState" where
  "setCommitIndex commit v = v\<lparr>commitIndex := commit\<rparr>"

definition setLastApplied :: "u64 \<Rightarrow> RaftVolatileState \<Rightarrow> RaftVolatileState" where
  "setLastApplied applied v = v\<lparr>lastApplied := applied\<rparr>"

text \<open>Times and durations in milliseconds.\<close>

type_synonym time = int

datatype goroutine = ElectionTimer | LeaderLoop

text \<open>
  \<open>stateLog\<close> is a slice. \<open>logTail\<close> are the entries that lie behind it in its array because the log was longer
  before; behind those the array ends or holds nil pointers.
\<close>

record raft =
  raft_id :: u64
  peers :: "(string, u64) gomap"
  currentTerm :: u64
  votedFor :: u64
  stateLog :: "LogEntry list"
  logTail :: "LogEntry list"
  state :: ProtocolState
  electionResetEvent :: time
  nextIndex :: "(u64, u64) gomap"
  matchIndex :: "(u64, u64) gomap"
  Jitter :: bool
  Force :: bool
  Drop :: bool
  commitReadyChan :: "CommitReady gochan"
  numberPeers :: int
  volatileState :: RaftVolatileState
  spawned :: "goroutine list"

abbreviation log_cells :: "raft \<Rightarrow> LogEntry list" where
  "log_cells r \<equiv> stateLog r @ logTail r"

abbreviation commit_index :: "raft \<Rightarrow> u64" where
  "commit_index r \<equiv> commitIndex (volatileState r)"

abbreviation last_applied :: "raft \<Rightarrow> u64" where
  "last_applied r \<equiv> lastApplied (volatileState r)"

abbreviation log_len :: "raft \<Rightarrow> u64" where
  "log_len r \<equiv> of_nat (length (stateLog r))"

definition set_commit :: "u64 \<Rightarrow> raft \<Rightarrow> raft" where
  "set_commit i r = r\<lparr>volatileState := setCommitIndex i (volatileState r)\<rparr>"

definition set_applied :: "u64 \<Rightarrow> raft \<Rightarrow> raft" where
  "set_applied i r = r\<lparr>volatileState := setLastApplied i (volatileState r)\<rparr>"

text \<open>
  \<open>raft.stateLog = append(kept, es...)\<close> for a slice \<open>kept\<close> of the front of the log. The entries overwrite what
  lies behind \<open>kept\<close> if there is room; otherwise \<open>kept\<close> is copied and nothing lies behind the new log. There is
  room whenever old entries reach further than the new log, so that both cases leave the same tail.
\<close>

definition append_log :: "LogEntry list \<Rightarrow> LogEntry list \<Rightarrow> raft \<Rightarrow> raft" where
  "append_log kept es r =
     r\<lparr>stateLog := kept @ es, logTail := drop (length kept + length es) (log_cells r)\<rparr>"

definition spawn :: "goroutine \<Rightarrow> raft \<Rightarrow> raft" where
  "spawn g r = r\<lparr>spawned := spawned r @ [g]\<rparr>"

lemma append_log_simps [simp]:
  "stateLog (append_log kept es r) = kept @ es"
  "logTail (append_log kept es r) = drop (length kept + length es) (log_cells r)"
  "raft_id (append_log kept es r) = raft_id r" "peers (append_log kept es r) = peers r"
  "currentTerm (append_log kept es r) = currentTerm r" "votedFor (append_log kept es r) = votedFor r"
  "state (append_log kept es r) = state r" "electionResetEvent (append_log kept es r) = electionResetEvent r"
  "nextIndex (append_log kept es r) = nextIndex r" "matchIndex (append_log kept es r) = matchIndex r"
  "commitReadyChan (append_log kept es r) = commitReadyChan r" "numberPeers (append_log kept es r) = numberPeers r"
  "volatileState (append_log kept es r) = volatileState r" "spawned (append_log kept es r) = spawned r"
  by (simp_all add: append_log_def)

lemma append_log_Nil [simp]: "append_log (stateLog r) [] r = r"
  by (cases r) (simp add: append_log_def)

lemma append_log_twice [simp]:
  "append_log (kept @ es) fs (append_log kept es r) = append_log kept (es @ fs) r"
proof -
  let ?n = "length kept + length es" and ?cells = "log_cells r"
  have "drop (?n + length fs) ((kept @ es) @ drop ?n ?cells) = drop (length fs) (drop ?n ?cells)" by simp
  also have "\<dots> = drop (?n + length fs) ?cells" by (simp only: drop_drop add.commute)
  finally show ?thesis by (simp add: append_log_def add.assoc del: drop_append)
qed

section \<open>Construction\<close>

text \<open>
  The goroutine that waits for the ready signal and then starts the election timer is counted as an
  \<open>ElectionTimer\<close>. The clock field keeps its zero value until that signal.
\<close>

definition NewRaftProtocol :: "u64 \<Rightarrow> (string, u64) gomap \<Rightarrow> int \<Rightarrow> string + raft" where
  "NewRaftProtocol i ps numPeer =
     (if length ps = 0 then Inl ''number of peers zero''
      else Inr \<lparr>raft_id = i, peers = ps, currentTerm = 0, votedFor = MaxUint64, stateLog = [], logTail = [],
        state = Follower, electionResetEvent = 0, nextIndex = [], matchIndex = [],
        Jitter = True, Force = False, Drop = False, commitReadyChan = make_chan 32,
        numberPeers = numPeer,
        volatileState = \<lparr>commitIndex = MaxUint64, lastApplied = MaxUint64\<rparr>,
        spawned = [ElectionTimer]\<rparr>)"

section \<open>Readers\<close>

definition isDead :: "raft \<Rightarrow> bool" where
  "isDead r \<longleftrightarrow> state r = Dead"

definition isCandidate :: "raft \<Rightarrow> bool" where
  "isCandidate r \<longleftrightarrow> \<not> state r \<noteq> Candidate"

definition isLeader :: "raft \<Rightarrow> bool" where
  "isLeader r \<longleftrightarrow> \<not> state r \<noteq> Leader"

definition isFollower :: "raft \<Rightarrow> bool" where
  "isFollower r \<longleftrightarrow> state r = Follower"

definition getTerm :: "raft \<Rightarrow> u64" where
  "getTerm r = currentTerm r"

definition readCurrentTerm :: "raft \<Rightarrow> u64" where
  "readCurrentTerm r = currentTerm r"

definition getState :: "raft \<Rightarrow> u64 \<times> ProtocolState \<times> time" where
  "getState r = (currentTerm r, state r, electionResetEvent r)"

definition Status :: "raft \<Rightarrow> u64 \<times> u64 \<times> bool" where
  "Status r = (raft_id r, currentTerm r, state r = Leader)"

definition getLog :: "raft \<Rightarrow> LogEntry list" where
  "getLog r = stateLog r"

definition GetLogCopy :: "raft \<Rightarrow> LogEntry list" where
  "GetLogCopy r = fold (\<lambda>e stateCopy. stateCopy @ [e]) (stateLog r) []"

definition GetVolatileState :: "raft \<Rightarrow> RaftVolatileState" where
  "GetVolatileState r = \<lparr>commitIndex = commit_index r, lastApplied = last_applied r\<rparr>"

text \<open>The loops name the key of the range \<open>v\<close> and its value \<open>k\<close>, and store \<open>v\<close> under \<open>k\<close>.\<close>

definition GetLogIndexCopy :: "raft \<Rightarrow> (u64, u64) gomap \<times> (u64, u64) gomap" where
  "GetLogIndexCopy r =
     (fold (\<lambda>(v, k) copyNextIndex. map_set k v copyNextIndex) (nextIndex r) [],
      fold (\<lambda>(v, k) copyMatchIndex. map_set k v copyMatchIndex) (matchIndex r) [])"

definition lastLogIndexAndTerm :: "raft \<Rightarrow> u64 \<times> u64" where
  "lastLogIndexAndTerm r =
     (if length (stateLog r) = 0 then (MaxUint64, MaxUint64)
      else (let lastIndex = length (stateLog r) - 1
            in (of_nat lastIndex, eTerm (stateLog r ! lastIndex))))"

definition uint64Min :: "u64 \<Rightarrow> u64 \<Rightarrow> u64" where
  "uint64Min a b = (if a < b then a else b)"

section \<open>State changes\<close>

definition makeFollower :: "time \<Rightarrow> u64 \<Rightarrow> raft \<Rightarrow> raft" where
  "makeFollower now term r =
     spawn ElectionTimer
       (r\<lparr>state := Follower, currentTerm := term, votedFor := MaxUint64, electionResetEvent := now\<rparr>)"

definition makeLeader :: "raft \<Rightarrow> raft" where
  "makeLeader r = r\<lparr>state := Leader\<rparr>"

definition startLeader :: "raft \<Rightarrow> raft" where
  "startLeader r = spawn LeaderLoop (makeLeader r)"

definition newTerm :: "raft \<Rightarrow> raft" where
  "newTerm r = r\<lparr>currentTerm := currentTerm r + 1\<rparr>"

definition Submit :: "KeyValuePair option \<Rightarrow> raft \<Rightarrow> (bool \<times> raft) go" where
  "Submit kv r =
     (case kv of
        None \<Rightarrow> Panic NilDereference
      | Some c \<Rightarrow>
          if state r = Leader then
            Ret (True, append_log (stateLog r) [\<lparr>eTerm = currentTerm r, eCommand = Some c\<rparr>] r)
          else Ret (False, r))"

definition Raft_Shutdown :: "raft \<Rightarrow> raft go" where
  "Raft_Shutdown r =
     (if state r = Dead then Ret r
      else bind_go (chan_close (commitReadyChan r))
             (\<lambda>c. Ret (r\<lparr>state := Dead, commitReadyChan := c\<rparr>)))"

section \<open>Votes\<close>

text \<open>The test both RPC handlers make before they adopt the term of a message.\<close>

definition term_outdated :: "u64 \<Rightarrow> u64 \<Rightarrow> bool" where
  "term_outdated t mine \<longleftrightarrow> t > mine \<or> (t \<noteq> MaxUint64 \<and> mine = MaxUint64)"

definition vote_condition :: "RequestVoteMsg \<Rightarrow> u64 \<Rightarrow> u64 \<Rightarrow> raft \<Rightarrow> bool" where
  "vote_condition vote mylastLogIndex mylastLogTerm r \<longleftrightarrow>
     currentTerm r = rvTerm vote \<or>
     (rvLastLogTerm vote > mylastLogTerm \<or>
      (rvLastLogTerm vote = mylastLogTerm \<and> rvLastLogIndex vote \<ge> mylastLogIndex \<and>
       mylastLogIndex \<noteq> MaxUint64))"

definition RequestVote_decide ::
  "time \<Rightarrow> RequestVoteMsg \<Rightarrow> u64 \<Rightarrow> u64 \<Rightarrow> raft \<Rightarrow> raft \<times> RequestVoteReply" where
  "RequestVote_decide now vote mylastLogIndex mylastLogTerm r =
     (if vote_condition vote mylastLogIndex mylastLogTerm r then
        (r\<lparr>votedFor := rvCandidateId vote, electionResetEvent := now\<rparr>,
         \<lparr>rvrTerm = currentTerm r, rvrVoteGranted = True\<rparr>)
      else (r, \<lparr>rvrTerm = currentTerm r, rvrVoteGranted = False\<rparr>))"

definition RequestVote_run :: "time \<Rightarrow> RequestVoteMsg \<Rightarrow> raft \<Rightarrow> raft \<times> (string + RequestVoteReply)" where
  "RequestVote_run now vote r =
     (if isDead r then (r, Inl ''servever state is shutdownGrpc'')
      else
        let myLastTerm = currentTerm r;
            r1 = (if term_outdated (rvTerm vote) myLastTerm then makeFollower now (rvTerm vote) r else r);
            (mylastLogIndex, mylastLogTerm) = lastLogIndexAndTerm r1;
            (r2, reply) = RequestVote_decide now vote mylastLogIndex mylastLogTerm r1
        in (r2, Inr reply))"

definition RequestVote ::
  "time \<Rightarrow> RequestVoteMsg \<Rightarrow> raft option \<Rightarrow> raft option \<times> (string + RequestVoteReply)" where
  "RequestVote now vote ro =
     (case ro of
        None \<Rightarrow> (None, Inr \<lparr>rvrTerm = 0, rvrVoteGranted = True\<rparr>)
      | Some r \<Rightarrow> (let (r', res) = RequestVote_run now vote r in (Some r', res)))"

section \<open>Appending entries\<close>

text \<open>The loop that finds the first index at which the log and the new entries disagree.\<close>

function ae_match :: "LogEntry list \<Rightarrow> LogEntry list \<Rightarrow> u64 \<Rightarrow> nat \<Rightarrow> u64 \<times> nat" where
  "ae_match log entries lowerBound upperBound =
     (if lowerBound \<ge> of_nat (length log) \<or> upperBound \<ge> length entries then (lowerBound, upperBound)
      else if eTerm (log ! unat lowerBound) \<noteq> eTerm (entries ! upperBound) then (lowerBound, upperBound)
      else ae_match log entries (lowerBound + 1) (upperBound + 1))"
  by pat_completeness auto
termination
  by (relation "measure (\<lambda>(log, entries, lowerBound, upperBound). length entries - upperBound)") auto

declare ae_match.simps [simp del]

definition prev_matches :: "AppendEntriesMsg \<Rightarrow> raft \<Rightarrow> bool" where
  "prev_matches req r \<longleftrightarrow>
     aePrevLogIndex req = MaxUint64 \<or>
     (aePrevLogIndex req < log_len r \<and>
      aePrevLogTerm req = eTerm (stateLog r ! unat (aePrevLogIndex req)))"

definition ae_insert :: "AppendEntriesMsg \<Rightarrow> raft \<Rightarrow> raft go" where
  "ae_insert req r =
     (let (lowerBound, upperBound) = ae_match (stateLog r) (aeEntries req) (aePrevLogIndex req + 1) 0
      in if upperBound < length (aeEntries req) then
           bind_go (go_slice (stateLog r) (logTail r) 0 (unat lowerBound))
             (\<lambda>kept. Ret (append_log kept (drop upperBound (aeEntries req)) r))
         else Ret r)"

definition ae_commit :: "u64 \<Rightarrow> AppendEntriesMsg \<Rightarrow> raft \<Rightarrow> raft go" where
  "ae_commit oldTerm req r =
     (if aeLeaderCommit req > commit_index r \<or>
         (aeLeaderCommit req \<noteq> MaxUint64 \<and> commit_index r = MaxUint64) then
        (let r1 = set_commit (uint64Min (aeLeaderCommit req) (log_len r - 1)) r
         in bind_go (chan_send \<lparr>crTerm = oldTerm\<rparr> (commitReadyChan r1))
              (\<lambda>c. Ret (r1\<lparr>commitReadyChan := c\<rparr>)))
      else Ret r)"

definition AppendEntries_locked ::
  "time \<Rightarrow> u64 \<Rightarrow> AppendEntriesMsg \<Rightarrow> raft \<Rightarrow> (raft \<times> bool) go" where
  "AppendEntries_locked now oldTerm req r =
     (let r0 = r\<lparr>electionResetEvent := now\<rparr>
      in if prev_matches req r0 then
           bind_go (ae_insert req r0)
             (\<lambda>r1. bind_go (ae_commit oldTerm req r1) (\<lambda>r2. Ret (r2, True)))
         else Ret (r0, False))"

definition AppendEntries_run ::
  "time \<Rightarrow> AppendEntriesMsg \<Rightarrow> raft \<Rightarrow> (raft \<times> (string + AppendEntriesReply)) go" where
  "AppendEntries_run now req r =
     (if isDead r then Ret (r, Inl ''cm state is dead'')
      else
        let r1 = (if term_outdated (aeTerm req) (currentTerm r) then makeFollower now (aeTerm req) r else r);
            oldTerm = currentTerm r1;
            oldState = state r1
        in if aeTerm req = oldTerm then
             (let r2 = (if oldState \<noteq> Follower then makeFollower now (aeTerm req) r1 else r1)
              in bind_go (AppendEntries_locked now oldTerm req r2)
                   (\<lambda>(r3, ok). Ret (r3, Inr \<lparr>aerTerm = oldTerm, aerSuccess = ok\<rparr>)))
           else Ret (r1, Inr \<lparr>aerTerm = oldTerm, aerSuccess = False\<rparr>))"

definition AppendEntries ::
  "time \<Rightarrow> AppendEntriesMsg \<Rightarrow> raft option \<Rightarrow> (raft option \<times> (string + AppendEntriesReply)) go" where
  "AppendEntries now req ro =
     (case ro of
        None \<Rightarrow> Ret (None, Inl ''cm uninitlized'')
      | Some r \<Rightarrow> bind_go (AppendEntries_run now req r) (\<lambda>(r', res). Ret (Some r', res)))"

section \<open>The election timer\<close>

definition HEARBEAT_INTERVAL :: int where "HEARBEAT_INTERVAL = 50"

text \<open>
  The result is the pause the function itself makes and the timeout it returns; \<open>rnd\<close> is the value of
  \<open>rand.Intn(HEARBEAT_INTERVAL*3)\<close>.
\<close>

definition electionTimeout :: "int \<Rightarrow> raft \<Rightarrow> time \<times> time" where
  "electionTimeout rnd r =
     (if Drop r = False then
        (if Jitter r then (0, HEARBEAT_INTERVAL * 3 + rnd) else (0, HEARBEAT_INTERVAL * 3))
      else (60000, HEARBEAT_INTERVAL * 3))"

definition isExpired :: "u64 \<Rightarrow> raft \<Rightarrow> bool" where
  "isExpired termStarted r \<longleftrightarrow>
     \<not> (state r \<noteq> Candidate \<and> state r \<noteq> Follower) \<and> \<not> termStarted \<noteq> currentTerm r"

definition isElectionReset :: "time \<Rightarrow> time \<Rightarrow> raft \<Rightarrow> bool" where
  "isElectionReset now duration r \<longleftrightarrow> now - electionResetEvent r \<ge> duration"

record timer =
  timeoutDuration :: time
  termStarted :: u64
  oldState :: ProtocolState

definition runElectionTimer_start :: "int \<Rightarrow> raft \<Rightarrow> timer" where
  "runElectionTimer_start rnd r =
     \<lparr>timeoutDuration = snd (electionTimeout rnd r), termStarted = currentTerm r, oldState = state r\<rparr>"

text \<open>One tick of the loop: return, keep waiting, or start an election and return.\<close>

datatype tick = Withdraw | Wait | Elect

definition runElectionTimer_tick :: "time \<Rightarrow> timer \<Rightarrow> raft \<Rightarrow> tick" where
  "runElectionTimer_tick now t r =
     (if oldState t \<noteq> state r then Withdraw
      else if \<not> isExpired (termStarted t) r then Withdraw
      else if isElectionReset now (timeoutDuration t) r then Elect
      else Wait)"

section \<open>Elections\<close>

definition startElection_begin :: "time \<Rightarrow> raft \<Rightarrow> u64 \<times> raft" where
  "startElection_begin now r =
     (readCurrentTerm r,
      r\<lparr>state := Candidate, currentTerm := currentTerm r + 1, electionResetEvent := now,
        votedFor := raft_id r\<rparr>)"

definition vote_request :: "u64 \<Rightarrow> raft \<Rightarrow> RequestVoteMsg" where
  "vote_request electionTerm r =
     (let (savedLastLogIndex, savedLastLogTerm) = lastLogIndexAndTerm r
      in \<lparr>rvTerm = electionTerm, rvCandidateId = raft_id r, rvLastLogIndex = savedLastLogIndex,
          rvLastLogTerm = savedLastLogTerm\<rparr>)"

text \<open>
  The loop over the peers: \<open>disconnected p\<close> is what \<open>IsDisconnected\<close> answers when the loop reaches
  \<open>p\<close>, and ends the whole method. The flag tells whether the loop ran to its end.
\<close>

fun election_loop :: "(u64 \<Rightarrow> bool) \<Rightarrow> RequestVoteMsg \<Rightarrow> u64 list \<Rightarrow> (u64 \<times> RequestVoteMsg) list \<times> bool" where
  "election_loop disconnected m [] = ([], True)"
| "election_loop disconnected m (p # ps) =
     (if disconnected p then ([], False)
      else (let (ms, done) = election_loop disconnected m ps in ((p, m) # ms, done)))"

definition startElection ::
  "time \<Rightarrow> (u64 \<Rightarrow> bool) \<Rightarrow> raft \<Rightarrow> u64 \<times> (u64 \<times> RequestVoteMsg) list \<times> raft" where
  "startElection now disconnected r =
     (let (electionTerm, r1) = startElection_begin now r;
          (ms, done) = election_loop disconnected (vote_request electionTerm r1) (map snd (peers r1))
      in (electionTerm, ms, if done then spawn ElectionTimer r1 else r1))"

definition gotVote :: "u64 \<Rightarrow> u64 \<Rightarrow> RequestVoteReply \<Rightarrow> u64" where
  "gotVote term votes reply =
     (if rvrTerm reply = term \<and> rvrVoteGranted reply then votes + 1 else votes)"

text \<open>The strict majority test of the election and of the commit rule.\<close>

definition majority :: "int \<Rightarrow> raft \<Rightarrow> bool" where
  "majority count r \<longleftrightarrow> count * 2 > numberPeers r + 1"

text \<open>What the goroutine of one peer does with the reply to its vote request.\<close>

definition startElection_reply ::
  "time \<Rightarrow> u64 \<Rightarrow> RequestVoteReply \<Rightarrow> u64 \<Rightarrow> raft \<Rightarrow> u64 \<times> raft" where
  "startElection_reply now electionTerm reply votesReceived r =
     (if isCandidate r = False then (votesReceived, r)
      else if rvrTerm reply = MaxUint64 \<and> electionTerm = MaxUint64 then
        (votesReceived, makeFollower now (rvrTerm reply) r)
      else if rvrTerm reply > electionTerm \<or> electionTerm = MaxUint64 then
        (votesReceived, makeFollower now (rvrTerm reply) r)
      else
        let updateVotes = gotVote electionTerm votesReceived reply
        in if majority (sint updateVotes) r then (updateVotes, startLeader r) else (updateVotes, r))"

section \<open>Replication\<close>

datatype 'a rpc = RpcReply 'a | RpcDisconnected | RpcFailed string | RpcBogus

definition countMatchIndex :: "raft \<Rightarrow> u64 \<Rightarrow> int" where
  "countMatchIndex r i =
     fold (\<lambda>(_, peer) count. if map_get0 (matchIndex r) peer \<ge> i then count + 1 else count) (peers r) 0"

text \<open>The result is the request and the \<open>nextIndex\<close> it was built from.\<close>

definition broadcastMsg_send :: "u64 \<Rightarrow> u64 \<Rightarrow> raft \<Rightarrow> (AppendEntriesMsg \<times> u64) go" where
  "broadcastMsg_send peer myTerm r =
     (let next = map_get0 (nextIndex r) peer;
          prevLogIndex = next - 1
      in bind_go
           (if prevLogIndex \<ge> 0 \<and> prevLogIndex < MaxUint64 \<and> sint prevLogIndex < int (length (stateLog r))
            then bind_go (go_index (stateLog r) (unat prevLogIndex)) (\<lambda>e. Ret (eTerm e))
            else Ret MaxUint64)
           (\<lambda>prevLogTerm.
              bind_go (go_slice_from (stateLog r) (unat next))
                (\<lambda>entries. Ret (\<lparr>aeTerm = myTerm, aeLeaderId = raft_id r,
                   aePrevLogIndex = prevLogIndex, aePrevLogTerm = prevLogTerm, aeEntries = entries,
                   aeLeaderCommit = commit_index r\<rparr>, next))))"

text \<open>The loop that advances the commit index of the leader.\<close>

function commit_loop :: "u64 \<Rightarrow> raft \<Rightarrow> raft" where
  "commit_loop i r =
     (if i < log_len r then
        commit_loop (i + 1)
          (if eTerm (stateLog r ! unat i) \<noteq> currentTerm r then r
           else if majority (countMatchIndex r i + 1) r then set_commit i r
           else r)
      else r)"
  by pat_completeness auto
termination
proof (relation "measure (\<lambda>(i, r). length (stateLog r) - unat i)", goal_cases)
  case (2 i r)
  then have "unat i < length (stateLog r)" and "unat (i + 1) = Suc (unat i)"
    by (auto dest: less_of_nat_lengthD unat_Suc_less)
  then show ?case by (auto simp: set_commit_def)
qed simp

declare commit_loop.simps [simp del]

definition broadcastMsg_success :: "u64 \<Rightarrow> u64 \<Rightarrow> nat \<Rightarrow> u64 \<Rightarrow> raft \<Rightarrow> raft go" where
  "broadcastMsg_success peer next nentries myTerm r =
     (let r1 = r\<lparr>nextIndex := map_set peer (next + of_nat nentries) (nextIndex r)\<rparr>;
          r2 = r1\<lparr>matchIndex := map_set peer (map_get0 (nextIndex r1) peer - 1) (matchIndex r1)\<rparr>;
          savedCommitIndex = commit_index r2;
          r3 = commit_loop (savedCommitIndex + 1) r2
      in if commit_index r3 \<noteq> savedCommitIndex then
           bind_go (chan_send \<lparr>crTerm = myTerm\<rparr> (commitReadyChan r3))
             (\<lambda>c. Ret (r3\<lparr>commitReadyChan := c\<rparr>))
         else Ret r3)"

definition broadcastMsg_locked ::
  "u64 \<Rightarrow> u64 \<Rightarrow> nat \<Rightarrow> u64 \<Rightarrow> AppendEntriesReply \<Rightarrow> raft \<Rightarrow> raft go" where
  "broadcastMsg_locked peer next nentries myTerm reply r =
     (if state r = Leader \<and> myTerm = aerTerm reply then
        (if aerSuccess reply then broadcastMsg_success peer next nentries myTerm r
         else Ret (r\<lparr>nextIndex := map_set peer (next - 1) (nextIndex r)\<rparr>))
      else Ret r)"

definition broadcastMsg_reply ::
  "time \<Rightarrow> u64 \<Rightarrow> u64 \<Rightarrow> nat \<Rightarrow> u64 \<Rightarrow> AppendEntriesReply \<Rightarrow> raft \<Rightarrow> raft go" where
  "broadcastMsg_reply now peer next nentries myTerm reply r =
     (if myTerm < aerTerm reply \<or> myTerm = MaxUint64 then Ret (makeFollower now (aerTerm reply) r)
      else broadcastMsg_locked peer next nentries myTerm reply r)"

text \<open>The whole method, with \<open>RemoteCall\<close> as an argument and no other goroutine running during the call.\<close>

definition broadcastMsg ::
  "time \<Rightarrow> (u64 \<Rightarrow> AppendEntriesMsg \<Rightarrow> AppendEntriesReply rpc) \<Rightarrow> u64 \<Rightarrow> u64 \<Rightarrow> raft
     \<Rightarrow> (raft \<times> string option) go" where
  "broadcastMsg now RemoteCall peer myTerm r =
     bind_go (broadcastMsg_send peer myTerm r)
       (\<lambda>(req, next).
          case RemoteCall peer req of
            RpcDisconnected \<Rightarrow> Ret (r, None)
          | RpcFailed err \<Rightarrow> Ret (r, None)
          | RpcBogus \<Rightarrow> Ret (r, Some ''invalid respond to rpc call'')
          | RpcReply reply \<Rightarrow>
              bind_go (broadcastMsg_reply now peer next (length (aeEntries req)) myTerm reply r)
                (\<lambda>r'. Ret (r', None)))"

text \<open>
  One broadcast round. The goroutines of the peers run one after the other here, in the order of the
  map; the result of each \<open>broadcastMsg\<close> is discarded.
\<close>

fun broadcast_peers ::
  "time \<Rightarrow> (u64 \<Rightarrow> bool) \<Rightarrow> (u64 \<Rightarrow> AppendEntriesMsg \<Rightarrow> AppendEntriesReply rpc) \<Rightarrow> u64 \<Rightarrow> u64 list
     \<Rightarrow> raft \<Rightarrow> raft go" where
  "broadcast_peers now disconnected RemoteCall term [] r = Ret r"
| "broadcast_peers now disconnected RemoteCall term (p # ps) r =
     (if disconnected p then broadcast_peers now disconnected RemoteCall term ps r
      else bind_go (broadcastMsg now RemoteCall p term r)
             (\<lambda>(r', _). broadcast_peers now disconnected RemoteCall term ps r'))"

definition groupBroadcast ::
  "time \<Rightarrow> (u64 \<Rightarrow> bool) \<Rightarrow> (u64 \<Rightarrow> AppendEntriesMsg \<Rightarrow> AppendEntriesReply rpc) \<Rightarrow> raft \<Rightarrow> raft go" where
  "groupBroadcast now disconnected RemoteCall r =
     broadcast_peers now disconnected RemoteCall (readCurrentTerm r) (map snd (peers r)) r"

section \<open>Delivering committed entries\<close>

text \<open>
  One round of the loop over \<open>commitReadyChan\<close>: the critical section, then the entries sent to
  \<open>commitChan\<close>. \<open>commit_entries old term es\<close> numbers the entries after \<open>old\<close>. A slice up to a commit index past
  the end of the log takes the entries that lie behind the log. Behind these it panics: the array ends there, or
  the nil pointers it holds are dereferenced when they are sent.
\<close>

definition commitChannel_section :: "raft \<Rightarrow> (LogEntry list \<times> raft) go" where
  "commitChannel_section r =
     (if commit_index r > last_applied r \<or> last_applied r = MaxUint64 then
        bind_go (go_slice (stateLog r) (logTail r) (unat (last_applied r + 1)) (unat (commit_index r + 1)))
          (\<lambda>es. Ret (es, set_applied (commit_index r) r))
      else Ret ([], r))"

fun commit_entries :: "u64 \<Rightarrow> u64 \<Rightarrow> LogEntry list \<Rightarrow> CommitEntry list go" where
  "commit_entries index term [] = Ret []"
| "commit_entries index term (e # es) =
     (case eCommand e of
        None \<Rightarrow> Panic NilDereference
      | Some c \<Rightarrow>
          bind_go (commit_entries (index + 1) term es)
            (\<lambda>cs. Ret (\<lparr>ceCommand = c, ceIndex = index, ceTerm = term\<rparr> # cs)))"

definition commitChannel_round :: "raft \<Rightarrow> (CommitEntry list \<times> raft) go" where
  "commitChannel_round r =
     bind_go (commitChannel_section r)
       (\<lambda>(es, r'). bind_go (commit_entries (last_applied r + 1) (currentTerm r) es)
          (\<lambda>cs. Ret (cs, r')))"

text \<open>The loop body with its receive; \<open>None\<close> when the channel is closed and the loop ends.\<close>

definition commitChannel_iter :: "raft \<Rightarrow> (CommitEntry list \<times> raft) option go" where
  "commitChannel_iter r =
     bind_go (chan_recv (commitReadyChan r))
       (\<lambda>(msg, c). case msg of
          None \<Rightarrow> Ret None
        | Some _ \<Rightarrow> bind_go (commitChannel_round (r\<lparr>commitReadyChan := c\<rparr>)) (\<lambda>x. Ret (Some x)))"

end
