(* ===== verification/Raft_Log.thy ===== *)
theory Raft_Log
  imports Raft
begin

text \<open>
  What \<open>AppendEntries\<close> does to a log. The loop over machine integers is shown equal to a reference
  merge on lists (\<open>merge_log\<close>), and the properties of replication are proved for the merge: it keeps
  the prefix, installs the terms of the leader, is idempotent and is not undone by a delayed shorter
  message. Go slices have fewer than \<open>2 ^ 63\<close> elements; \<open>log_fits\<close> is that bound.
\<close>

definition log_fits :: "raft \<Rightarrow> bool" where
  "log_fits r \<longleftrightarrow> length (stateLog r) < 2 ^ 63"

section \<open>The reference merge\<close>

text \<open>The number of leading positions at which two entry lists have the same term.\<close>

fun agree :: "LogEntry list \<Rightarrow> LogEntry list \<Rightarrow> nat" where
  "agree (x # xs) (y # ys) = (if eTerm x = eTerm y then Suc (agree xs ys) else 0)"
| "agree _ _ = 0"

definition merge_log :: "LogEntry list \<Rightarrow> nat \<Rightarrow> LogEntry list \<Rightarrow> LogEntry list" where
  "merge_log log n es =
     (let k = agree (drop n log) es
      in if k < length es then take (n + k) log @ drop k es else log)"

lemma agree_le_left: "agree xs ys \<le> length xs"
  by (induction xs ys rule: agree.induct) auto

lemma agree_le_right: "agree xs ys \<le> length ys"
  by (induction xs ys rule: agree.induct) auto

lemma agree_terms: "map eTerm (take (agree xs ys) xs) = map eTerm (take (agree xs ys) ys)"
  by (induction xs ys rule: agree.induct) auto

lemma agree_maximal:
  "agree xs ys < length xs \<Longrightarrow> agree xs ys < length ys \<Longrightarrow>
     eTerm (xs ! agree xs ys) \<noteq> eTerm (ys ! agree xs ys)"
  by (induction xs ys rule: agree.induct) auto

lemma agree_same_terms: "map eTerm (take (length ys) xs) = map eTerm ys \<Longrightarrow> agree xs ys = length ys"
  by (induction xs ys rule: agree.induct) auto

lemma agree_nth: "i < agree xs ys \<Longrightarrow> eTerm (xs ! i) = eTerm (ys ! i)"
  by (induction xs ys arbitrary: i rule: agree.induct)
    (auto simp: nth_Cons less_Suc_eq_0_disj split: if_splits nat.splits)

subsection \<open>Properties of the merge\<close>

lemma merge_log_prefix: "n \<le> length log \<Longrightarrow> take n (merge_log log n es) = take n log"
  using agree_le_left [of "drop n log" es] by (simp add: merge_log_def Let_def min_def)

lemma drop_merge_log:
  assumes "n \<le> length log"
  shows "drop n (merge_log log n es) =
    (let k = agree (drop n log) es
     in if k < length es then take k (drop n log) @ drop k es else drop n log)"
  using assms agree_le_left [of "drop n log" es]
  by (simp add: merge_log_def Let_def take_drop add.commute)

lemma merge_log_terms:
  assumes "n \<le> length log"
  shows "map eTerm (take (length es) (drop n (merge_log log n es))) = map eTerm es"
proof -
  let ?k = "agree (drop n log) es"
  show ?thesis
  proof (cases "?k < length es")
    case True
    then have "take (length es) (drop n (merge_log log n es)) = take ?k (drop n log) @ drop ?k es"
      using assms agree_le_left [of "drop n log" es] by (simp add: drop_merge_log Let_def min_def)
    then have "map eTerm (take (length es) (drop n (merge_log log n es))) =
        map eTerm (take ?k es) @ map eTerm (drop ?k es)"
      by (simp add: agree_terms)
    then show ?thesis by (simp flip: map_append)
  next
    case False
    then have "?k = length es" using agree_le_right [of "drop n log" es] by simp
    then show ?thesis
      using assms agree_terms [of "drop n log" es] by (simp add: drop_merge_log Let_def)
  qed
qed

lemma merge_log_length: "n \<le> length log \<Longrightarrow> n + length es \<le> length (merge_log log n es)"
proof -
  assume n: "n \<le> length log"
  have "length (map eTerm (take (length es) (drop n (merge_log log n es)))) = length es"
    unfolding merge_log_terms [OF n] by simp
  moreover have "n \<le> length (merge_log log n es)"
    using merge_log_prefix [OF n, of es] n by (metis length_take min.absorb2 min.cobounded1)
  ultimately show ?thesis by simp
qed

text \<open>A delayed message that carries only the first entries of a later one changes nothing.\<close>

lemma merge_log_stale:
  assumes "n \<le> length log"
  shows "merge_log (merge_log log n es) n (take j es) = merge_log log n es"
proof -
  let ?l = "merge_log log n es" and ?s = "take j es"
  have "map eTerm (take (length ?s) (take (length es) (drop n ?l))) = map eTerm ?s"
    using arg_cong [OF merge_log_terms [OF assms, of es], of "take (length ?s)"]
    by (simp add: take_map min_def)
  then have "agree (drop n ?l) ?s = length ?s"
    by (intro agree_same_terms) (simp add: min_def split: if_splits)
  then show ?thesis by (auto simp add: merge_log_def [of ?l] Let_def)
qed

lemma merge_log_idem: "n \<le> length log \<Longrightarrow> merge_log (merge_log log n es) n es = merge_log log n es"
  using merge_log_stale [of n log es "length es"] by simp

text \<open>
  Two logs match when entries with the same term at the same position come with the same prefix:
  the Log Matching property of Raft for a pair of logs.
\<close>

definition logs_match :: "LogEntry list \<Rightarrow> LogEntry list \<Rightarrow> bool" where
  "logs_match xs ys \<longleftrightarrow>
     (\<forall>i < min (length xs) (length ys). eTerm (xs ! i) = eTerm (ys ! i) \<longrightarrow> take (Suc i) xs = take (Suc i) ys)"

lemma logs_match_prefix:
  assumes m: "logs_match xs ys" and i: "0 < n" "n \<le> length xs" "n \<le> length ys"
    and t: "eTerm (xs ! (n - 1)) = eTerm (ys ! (n - 1))"
  shows "take n xs = take n ys"
proof -
  have "n - 1 < min (length xs) (length ys)" using i by auto
  then have "take (Suc (n - 1)) xs = take (Suc (n - 1)) ys"
    using m t unfolding logs_match_def by blast
  then show ?thesis using i by simp
qed

text \<open>Merging the rest of a matching log after a common prefix leaves that log as a prefix.\<close>

lemma merge_log_adopts:
  assumes m: "logs_match xs ys" and n: "n \<le> length xs" "n \<le> length ys"
    and pre: "take n xs = take n ys"
  shows "take (length ys) (merge_log xs n (drop n ys)) = ys"
proof -
  let ?k = "agree (drop n xs) (drop n ys)"
  have kx: "?k \<le> length xs - n" and ky: "?k \<le> length ys - n"
    using agree_le_left [of "drop n xs" "drop n ys"] agree_le_right [of "drop n xs" "drop n ys"]
    by simp_all
  have eq: "take (n + ?k) xs = take (n + ?k) ys"
  proof (cases ?k)
    case 0
    then show ?thesis using pre by simp
  next
    case (Suc j)
    have "j < ?k" using Suc by simp
    then have "eTerm (xs ! (n + j)) = eTerm (ys ! (n + j))"
      using agree_nth [of j "drop n xs" "drop n ys"] n by simp
    then have "take (n + Suc j) xs = take (n + Suc j) ys"
      using logs_match_prefix [OF m, of "n + Suc j"] kx ky n Suc by simp
    then show ?thesis using Suc by simp
  qed
  show ?thesis
  proof (cases "?k < length (drop n ys)")
    case True
    then have "merge_log xs n (drop n ys) = take (n + ?k) xs @ drop ?k (drop n ys)"
      by (simp add: merge_log_def Let_def)
    then show ?thesis using eq by (simp add: add.commute)
  next
    case False
    then have "merge_log xs n (drop n ys) = xs" and "n + ?k = length ys"
      using ky n by (simp_all add: merge_log_def Let_def)
    then show ?thesis using eq by simp
  qed
qed

section \<open>The code implements the merge\<close>

lemma ae_match_agree:
  assumes "length log < 2 ^ 63" "unat lo \<le> length log" "up \<le> length es"
  shows "ae_match log es lo up =
    (let k = agree (drop (unat lo) log) (drop up es) in (lo + of_nat k, up + k))"
  using assms
proof (induction log es lo up rule: ae_match.induct)
  case (1 log es lo up)
  have lo_iff: "lo \<ge> of_nat (length log) \<longleftrightarrow> length log \<le> unat lo"
    using 1(2) by (simp add: word_le_nat_alt unat_of_nat)
  show ?case
  proof (cases "lo \<ge> of_nat (length log) \<or> up \<ge> length es")
    case True
    then show ?thesis by (subst ae_match.simps) (auto simp: lo_iff)
  next
    case False
    then have lt: "unat lo < length log" "up < length es" and lo: "lo < of_nat (length log)"
      by (simp_all add: lo_iff [symmetric] not_le [symmetric])
    then have suc: "unat (lo + 1) = Suc (unat lo)" by (auto dest: unat_Suc_less)
    have cons: "drop (unat lo) log = log ! unat lo # drop (Suc (unat lo)) log"
      "drop up es = es ! up # drop (Suc up) es"
      using lt by (simp_all add: Cons_nth_drop_Suc)
    show ?thesis
    proof (cases "eTerm (log ! unat lo) = eTerm (es ! up)")
      case True
      with 1(1) False have "ae_match log es (lo + 1) (up + 1) =
          (let k = agree (drop (Suc (unat lo)) log) (drop (Suc up) es) in (lo + 1 + of_nat k, up + 1 + k))"
        using 1(2) lt suc by simp
      then show ?thesis
        using False True cons by (subst ae_match.simps) (simp add: Let_def add.assoc add.commute)
    next
      case neq: False
      then show ?thesis using False cons by (subst ae_match.simps) simp
    qed
  qed
qed

lemma prev_matches_count: "prev_matches req r \<Longrightarrow> count_of (aePrevLogIndex req) \<le> length (stateLog r)"
  by (cases "aePrevLogIndex req = MaxUint64")
    (auto simp: prev_matches_def count_of_Suc Suc_le_eq dest: less_of_nat_lengthD)

text \<open>What lies behind the log after the merge.\<close>

definition merge_tail :: "LogEntry list \<Rightarrow> LogEntry list \<Rightarrow> nat \<Rightarrow> LogEntry list \<Rightarrow> LogEntry list" where
  "merge_tail log cells n es =
     (if agree (drop n log) es < length es then drop (n + length es) (log @ cells) else cells)"

definition merged :: "AppendEntriesMsg \<Rightarrow> raft \<Rightarrow> raft" where
  "merged req r = r\<lparr>stateLog := merge_log (stateLog r) (count_of (aePrevLogIndex req)) (aeEntries req),
     logTail := merge_tail (stateLog r) (logTail r) (count_of (aePrevLogIndex req)) (aeEntries req)\<rparr>"

lemma merged_simps [simp]:
  "stateLog (merged req r) = merge_log (stateLog r) (count_of (aePrevLogIndex req)) (aeEntries req)"
  "logTail (merged req r) = merge_tail (stateLog r) (logTail r) (count_of (aePrevLogIndex req)) (aeEntries req)"
  "raft_id (merged req r) = raft_id r" "peers (merged req r) = peers r"
  "currentTerm (merged req r) = currentTerm r" "votedFor (merged req r) = votedFor r"
  "state (merged req r) = state r" "electionResetEvent (merged req r) = electionResetEvent r"
  "nextIndex (merged req r) = nextIndex r" "matchIndex (merged req r) = matchIndex r"
  "commitReadyChan (merged req r) = commitReadyChan r" "numberPeers (merged req r) = numberPeers r"
  "volatileState (merged req r) = volatileState r" "spawned (merged req r) = spawned r"
  by (simp_all add: merged_def)

lemma ae_insert_merge:
  assumes "log_fits r" and pm: "prev_matches req r"
  shows "ae_insert req r = Ret (merged req r)"
proof -
  let ?n = "count_of (aePrevLogIndex req)"
  let ?k = "agree (drop ?n (stateLog r)) (aeEntries req)"
  have n: "?n \<le> length (stateLog r)" using pm by (rule prev_matches_count)
  then have nk: "?n + ?k \<le> length (stateLog r)"
    using agree_le_left [of "drop ?n (stateLog r)" "aeEntries req"] by simp
  have "unat (aePrevLogIndex req + 1 + of_nat ?k) = ?n + ?k"
    using nk assms(1) by (simp add: log_fits_def count_of_def unat_word_ariths unat_of_nat)
  moreover have "ae_match (stateLog r) (aeEntries req) (aePrevLogIndex req + 1) 0 =
      (aePrevLogIndex req + 1 + of_nat ?k, ?k)"
    using ae_match_agree [of "stateLog r" "aePrevLogIndex req + 1" 0 "aeEntries req"] n assms(1)
    by (simp add: log_fits_def count_of_def Let_def)
  ultimately show ?thesis
    using nk agree_le_right [of "drop ?n (stateLog r)" "aeEntries req"]
    by (auto simp: ae_insert_def go_simps merge_log_def merge_tail_def merged_def append_log_def Let_def)
qed

end
