(* ===== verification/Raft_Handlers.thy ===== *)
theory Raft_Handlers
  imports Raft_Log
begin

text \<open>
  The behaviour of each method of the Raft module, branch by branch: what it answers, which fields
  it changes and which it leaves alone. The frame rules are in the collection \<open>raft_frame\<close>.
\<close>

named_theorems raft_frame \<open>fields an operation does not change\<close>

lemma set_commit_simps [simp]:
  "stateLog (set_commit i r) = stateLog r" "logTail (set_commit i r) = logTail r"
  "currentTerm (set_commit i r) = currentTerm r"
  "state (set_commit i r) = state r" "commit_index (set_commit i r) = i"
  "last_applied (set_commit i r) = last_applied r" "nextIndex (set_commit i r) = nextIndex r"
  "matchIndex (set_commit i r) = matchIndex r" "peers (set_commit i r) = peers r"
  "numberPeers (set_commit i r) = numberPeers r" "raft_id (set_commit i r) = raft_id r"
  "commitReadyChan (set_commit i r) = commitReadyChan r" "votedFor (set_commit i r) = votedFor r"
  by (simp_all add: set_commit_def setCommitIndex_def)

lemma set_applied_simps [simp]:
  "stateLog (set_applied i r) = stateLog r" "logTail (set_applied i r) = logTail r"
  "currentTerm (set_applied i r) = currentTerm r"
  "state (set_applied i r) = state r" "commit_index (set_applied i r) = commit_index r"
  "last_applied (set_applied i r) = i" "nextIndex (set_applied i r) = nextIndex r"
  "matchIndex (set_applied i r) = matchIndex r" "peers (set_applied i r) = peers r"
  "numberPeers (set_applied i r) = numberPeers r" "raft_id (set_applied i r) = raft_id r"
  "commitReadyChan (set_applied i r) = commitReadyChan r"
  by (simp_all add: set_applied_def setLastApplied_def)

lemma spawn_simps [simp]:
  "stateLog (spawn g r) = stateLog r" "logTail (spawn g r) = logTail r"
  "currentTerm (spawn g r) = currentTerm r"
  "state (spawn g r) = state r" "volatileState (spawn g r) = volatileState r"
  "nextIndex (spawn g r) = nextIndex r" "matchIndex (spawn g r) = matchIndex r"
  "peers (spawn g r) = peers r" "numberPeers (spawn g r) = numberPeers r"
  "raft_id (spawn g r) = raft_id r" "commitReadyChan (spawn g r) = commitReadyChan r"
  "votedFor (spawn g r) = votedFor r" "electionResetEvent (spawn g r) = electionResetEvent r"
  by (simp_all add: spawn_def)

lemma makeFollower_simps [simp]:
  "stateLog (makeFollower now t r) = stateLog r" "logTail (makeFollower now t r) = logTail r"
  "currentTerm (makeFollower now t r) = t"
  "state (makeFollower now t r) = Follower" "volatileState (makeFollower now t r) = volatileState r"
  "nextIndex (makeFollower now t r) = nextIndex r" "matchIndex (makeFollower now t r) = matchIndex r"
  "peers (makeFollower now t r) = peers r" "numberPeers (makeFollower now t r) = numberPeers r"
  "raft_id (makeFollower now t r) = raft_id r" "votedFor (makeFollower now t r) = MaxUint64"
  "commitReadyChan (makeFollower now t r) = commitReadyChan r"
  by (simp_all add: makeFollower_def)

lemma startLeader_simps [simp]:
  "stateLog (startLeader r) = stateLog r" "logTail (startLeader r) = logTail r"
  "currentTerm (startLeader r) = currentTerm r"
  "state (startLeader r) = Leader" "volatileState (startLeader r) = volatileState r"
  "nextIndex (startLeader r) = nextIndex r" "matchIndex (startLeader r) = matchIndex r"
  "peers (startLeader r) = peers r" "numberPeers (startLeader r) = numberPeers r"
  "raft_id (startLeader r) = raft_id r" "commitReadyChan (startLeader r) = commitReadyChan r"
  by (simp_all add: startLeader_def makeLeader_def)

lemma lastLogIndexAndTerm_cong: "stateLog r = stateLog r' \<Longrightarrow> lastLogIndexAndTerm r = lastLogIndexAndTerm r'"
  by (simp add: lastLogIndexAndTerm_def)

section \<open>RequestVote\<close>

lemma RequestVote_decide_frame [raft_frame]:
  "RequestVote_decide now vote i t r = (r', reply) \<Longrightarrow>
     stateLog r' = stateLog r \<and> logTail r' = logTail r \<and> volatileState r' = volatileState r \<and> state r' = state r \<and>
     currentTerm r' = currentTerm r \<and> commitReadyChan r' = commitReadyChan r \<and>
     nextIndex r' = nextIndex r \<and> matchIndex r' = matchIndex r"
  by (auto simp: RequestVote_decide_def split: if_splits)

lemma RequestVote_run_dead: "state r = Dead \<Longrightarrow>
    RequestVote_run now vote r = (r, Inl ''servever state is shutdownGrpc'')"
  by (simp add: RequestVote_run_def isDead_def)

lemma RequestVote_run_frame [raft_frame]:
  "RequestVote_run now vote r = (r', res) \<Longrightarrow>
     stateLog r' = stateLog r \<and> logTail r' = logTail r \<and> volatileState r' = volatileState r \<and>
     commitReadyChan r' = commitReadyChan r \<and> nextIndex r' = nextIndex r \<and> matchIndex r' = matchIndex r"
  by (auto simp: RequestVote_run_def RequestVote_decide_def Let_def split: if_splits prod.splits)

text \<open>The term the voter ends in, and its answer, in terms of the state before the call.\<close>

definition term_after :: "u64 \<Rightarrow> raft \<Rightarrow> u64" where
  "term_after t r = (if term_outdated t (currentTerm r) then t else currentTerm r)"

definition log_up_to_date :: "RequestVoteMsg \<Rightarrow> raft \<Rightarrow> bool" where
  "log_up_to_date vote r \<longleftrightarrow>
     (let (i, t) = lastLogIndexAndTerm r
      in rvLastLogTerm vote > t \<or> (rvLastLogTerm vote = t \<and> rvLastLogIndex vote \<ge> i \<and> i \<noteq> MaxUint64))"

lemma RequestVote_run_reply:
  assumes "state r \<noteq> Dead"
  shows "snd (RequestVote_run now vote r) =
    Inr \<lparr>rvrTerm = term_after (rvTerm vote) r,
         rvrVoteGranted = (term_after (rvTerm vote) r = rvTerm vote \<or> log_up_to_date vote r)\<rparr>"
proof -
  have "lastLogIndexAndTerm (makeFollower now (rvTerm vote) r) = lastLogIndexAndTerm r"
    by (rule lastLogIndexAndTerm_cong) simp
  with assms show ?thesis
    by (auto simp: RequestVote_run_def isDead_def RequestVote_decide_def vote_condition_def
        term_after_def log_up_to_date_def Let_def case_prod_beta)
qed

lemma RequestVote_run_term:
  "state r \<noteq> Dead \<Longrightarrow> currentTerm (fst (RequestVote_run now vote r)) = term_after (rvTerm vote) r"
  by (simp add: RequestVote_run_def isDead_def RequestVote_decide_def term_after_def Let_def case_prod_beta)

section \<open>AppendEntries\<close>

text \<open>The commit index after a successful call: \<open>commit_value leaderCommit own len\<close>.\<close>

definition commit_value :: "u64 \<Rightarrow> u64 \<Rightarrow> nat \<Rightarrow> u64" where
  "commit_value lc c n =
     (if lc > c \<or> (lc \<noteq> MaxUint64 \<and> c = MaxUint64) then uint64Min lc (of_nat n - 1) else c)"

definition can_send :: "raft \<Rightarrow> bool" where
  "can_send r \<longleftrightarrow> \<not> chClosed (commitReadyChan r) \<and> length (chBuf (commitReadyChan r)) < chCap (commitReadyChan r)"

lemma ae_commit_Ret:
  "ae_commit t req r = Ret r' \<Longrightarrow>
     stateLog r' = stateLog r \<and> last_applied r' = last_applied r \<and> state r' = state r \<and>
     currentTerm r' = currentTerm r \<and> nextIndex r' = nextIndex r \<and> matchIndex r' = matchIndex r \<and>
     raft_id r' = raft_id r \<and> peers r' = peers r \<and> numberPeers r' = numberPeers r \<and> logTail r' = logTail r \<and>
     commit_index r' = commit_value (aeLeaderCommit req) (commit_index r) (length (stateLog r))"
  by (auto simp: ae_commit_def commit_value_def go_simps Let_def split: if_splits)

lemma ae_commit_returns: "can_send r \<Longrightarrow> \<exists>r'. ae_commit t req r = Ret r'"
  by (auto simp: ae_commit_def can_send_def go_simps Let_def)

lemma AppendEntries_locked_accept:
  assumes fits: "log_fits r" and pm: "prev_matches req r"
  shows "AppendEntries_locked now t req r =
    bind_go (ae_commit t req (merged req (r\<lparr>electionResetEvent := now\<rparr>)))
      (\<lambda>r'. Ret (r', True))"
proof -
  let ?r0 = "r\<lparr>electionResetEvent := now\<rparr>"
  have "log_fits ?r0" "prev_matches req ?r0"
    using fits pm by (simp_all add: log_fits_def prev_matches_def)
  then have "ae_insert req ?r0 = Ret (merged req ?r0)"
    by (simp add: ae_insert_merge)
  then show ?thesis
    using \<open>prev_matches req ?r0\<close> by (simp add: AppendEntries_locked_def Let_def)
qed

lemma AppendEntries_locked_reject:
  "\<not> prev_matches req r \<Longrightarrow>
     AppendEntries_locked now t req r = Ret (r\<lparr>electionResetEvent := now\<rparr>, False)"
  by (auto simp: AppendEntries_locked_def prev_matches_def Let_def)

lemma AppendEntries_locked_Ret:
  assumes "log_fits r" and "AppendEntries_locked now t req r = Ret (r', ok)"
  shows "ok = prev_matches req r \<and> state r' = state r \<and> currentTerm r' = currentTerm r \<and>
    last_applied r' = last_applied r \<and> nextIndex r' = nextIndex r \<and> matchIndex r' = matchIndex r \<and>
    raft_id r' = raft_id r \<and> peers r' = peers r \<and> numberPeers r' = numberPeers r \<and>
    stateLog r' = (if ok then merge_log (stateLog r) (count_of (aePrevLogIndex req)) (aeEntries req)
                   else stateLog r) \<and>
    commit_index r' = (if ok then commit_value (aeLeaderCommit req) (commit_index r) (length (stateLog r'))
                       else commit_index r)"
proof (cases "prev_matches req r")
  case True
  with assms AppendEntries_locked_accept [OF assms(1) True, of now t]
  show ?thesis by (auto simp: bind_go_Ret_iff dest!: ae_commit_Ret)
next
  case False
  with assms show ?thesis by (auto simp: AppendEntries_locked_reject)
qed

lemma AppendEntries_run_dead:
  "state r = Dead \<Longrightarrow> AppendEntries_run now req r = Ret (r, Inl ''cm state is dead'')"
  by (simp add: AppendEntries_run_def isDead_def)

lemma AppendEntries_run_stale:
  "state r \<noteq> Dead \<Longrightarrow> \<not> term_outdated (aeTerm req) (currentTerm r) \<Longrightarrow> aeTerm req \<noteq> currentTerm r \<Longrightarrow>
     AppendEntries_run now req r = Ret (r, Inr \<lparr>aerTerm = currentTerm r, aerSuccess = False\<rparr>)"
  by (simp add: AppendEntries_run_def isDead_def)

text \<open>
  In the remaining case the node becomes a follower in the term of the message, or stays one, and
  the locked section runs.
\<close>

definition adopt :: "time \<Rightarrow> u64 \<Rightarrow> raft \<Rightarrow> raft" where
  "adopt now t r =
     (if term_outdated t (currentTerm r) \<or> state r \<noteq> Follower then makeFollower now t r else r)"

lemma adopt_simps [simp]:
  "stateLog (adopt now t r) = stateLog r" "logTail (adopt now t r) = logTail r" "volatileState (adopt now t r) = volatileState r"
  "state (adopt now t r) = Follower" "commitReadyChan (adopt now t r) = commitReadyChan r"
  "nextIndex (adopt now t r) = nextIndex r" "matchIndex (adopt now t r) = matchIndex r"
  "raft_id (adopt now t r) = raft_id r" "peers (adopt now t r) = peers r"
  "numberPeers (adopt now t r) = numberPeers r"
  by (simp_all add: adopt_def)

lemma currentTerm_adopt:
  "term_outdated t (currentTerm r) \<or> t = currentTerm r \<Longrightarrow> currentTerm (adopt now t r) = t"
  by (auto simp: adopt_def)

lemma AppendEntries_run_current:
  assumes "state r \<noteq> Dead" "term_outdated (aeTerm req) (currentTerm r) \<or> aeTerm req = currentTerm r"
  shows "AppendEntries_run now req r =
    bind_go (AppendEntries_locked now (aeTerm req) req (adopt now (aeTerm req) r))
      (\<lambda>(r', ok). Ret (r', Inr \<lparr>aerTerm = aeTerm req, aerSuccess = ok\<rparr>))"
proof (cases "term_outdated (aeTerm req) (currentTerm r)")
  case True
  then show ?thesis using assms by (auto simp: AppendEntries_run_def isDead_def adopt_def Let_def)
next
  case False
  then have "aeTerm req = currentTerm r" using assms by simp
  then show ?thesis using assms False by (auto simp: AppendEntries_run_def isDead_def adopt_def Let_def)
qed

lemma log_fits_adopt [simp]: "log_fits (adopt now t r) = log_fits r"
  by (simp add: log_fits_def)

lemma prev_matches_adopt [simp]: "prev_matches req (adopt now t r) = prev_matches req r"
  by (simp add: prev_matches_def)

text \<open>Everything a returning call can do, in one rule.\<close>

lemma AppendEntries_run_Ret:
  assumes fits: "log_fits r" and ret: "AppendEntries_run now req r = Ret (r', res)"
  shows "(r' = r \<and> res \<noteq> Inr \<lparr>aerTerm = aeTerm req, aerSuccess = True\<rparr>) \<or>
    (\<exists>ok. res = Inr \<lparr>aerTerm = aeTerm req, aerSuccess = ok\<rparr> \<and> ok = prev_matches req r \<and>
       state r' = Follower \<and> currentTerm r' = aeTerm req \<and> last_applied r' = last_applied r \<and>
       nextIndex r' = nextIndex r \<and> matchIndex r' = matchIndex r \<and>
       raft_id r' = raft_id r \<and> peers r' = peers r \<and> numberPeers r' = numberPeers r \<and>
       stateLog r' = (if ok then merge_log (stateLog r) (count_of (aePrevLogIndex req)) (aeEntries req)
                      else stateLog r) \<and>
       commit_index r' = (if ok then commit_value (aeLeaderCommit req) (commit_index r) (length (stateLog r'))
                          else commit_index r))"
proof (cases "state r = Dead")
  case True
  then show ?thesis using ret by (auto simp: AppendEntries_run_dead)
next
  case alive: False
  show ?thesis
  proof (cases "term_outdated (aeTerm req) (currentTerm r) \<or> aeTerm req = currentTerm r")
    case True
    from ret obtain ok where
      lock: "AppendEntries_locked now (aeTerm req) req (adopt now (aeTerm req) r) = Ret (r', ok)"
      and res: "res = Inr \<lparr>aerTerm = aeTerm req, aerSuccess = ok\<rparr>"
      by (auto simp: AppendEntries_run_current [OF alive True] bind_go_Ret_iff)
    have "log_fits (adopt now (aeTerm req) r)" using fits by simp
    from AppendEntries_locked_Ret [OF this lock] res currentTerm_adopt [OF True, of now]
    show ?thesis by simp
  next
    case False
    then show ?thesis using ret alive by (auto simp: AppendEntries_run_stale)
  qed
qed

text \<open>A second call with the same commit index of the leader changes nothing.\<close>

lemma commit_value_idem: "commit_value lc (commit_value lc c n) n = commit_value lc c n"
  by (auto simp: commit_value_def uint64Min_def)

end
