(* ===== verification/Raft_Replication.thy ===== *)
theory Raft_Replication
  imports Raft_Handlers
begin

text \<open>
  The leader's side of replication: the request \<open>broadcastMsg\<close> builds, the loop that advances the
  commit index (shown equal to choosing the last eligible index), and the catch-up of a follower:
  repeated rounds between a leader and a follower end with the leader's log as a prefix of the
  follower's.
\<close>

section \<open>The commit rule\<close>

lemma fold_count:
  "fold (\<lambda>x count. if P x then count + 1 else count) xs (c::int) = c + int (length (filter P xs))"
  by (induction xs arbitrary: c) auto

lemma countMatchIndex_eq:
  "countMatchIndex r i = int (length (filter (\<lambda>(_, p). map_get0 (matchIndex r) p \<ge> i) (peers r)))"
proof -
  have eq: "(\<lambda>(_, peer) count. if map_get0 (matchIndex r) peer \<ge> i then count + 1 else count) =
      (\<lambda>x count. if (case x of (_, p) \<Rightarrow> map_get0 (matchIndex r) p \<ge> i) then count + 1 else (count::int))"
    by (auto simp: fun_eq_iff)
  show ?thesis unfolding countMatchIndex_def eq fold_count by simp
qed

text \<open>An index the leader may commit: an entry of its own term that it counts on a majority.\<close>

definition eligible :: "raft \<Rightarrow> nat \<Rightarrow> bool" where
  "eligible r j \<longleftrightarrow>
     eTerm (stateLog r ! j) = currentTerm r \<and> majority (countMatchIndex r (of_nat j) + 1) r"

lemma eligible_set_commit [simp]: "eligible (set_commit i r) = eligible r"
  by (simp add: fun_eq_iff eligible_def countMatchIndex_def majority_def)

lemma set_commit_set_commit [simp]: "set_commit i (set_commit j r) = set_commit i r"
  by (simp add: set_commit_def setCommitIndex_def)

definition commit_choice :: "nat \<Rightarrow> raft \<Rightarrow> raft" where
  "commit_choice i r =
     (let js = filter (eligible r) [i..<length (stateLog r)]
      in if js = [] then r else set_commit (of_nat (last js)) r)"

lemma commit_choice_step:
  assumes "i < length (stateLog r)"
  shows "commit_choice i r =
    commit_choice (Suc i) (if eligible r i then set_commit (of_nat i) r else r)"
  using assms by (auto simp: commit_choice_def Let_def upt_conv_Cons)

lemma commit_loop_choice:
  assumes "log_fits r"
  shows "commit_loop i r = commit_choice (unat i) r"
  using assms
proof (induction i r rule: commit_loop.induct)
  case (1 i r)
  have lt: "i < log_len r \<longleftrightarrow> unat i < length (stateLog r)"
    using 1(2) by (simp add: log_fits_def word_less_nat_alt unat_of_nat)
  show ?case
  proof (cases "i < log_len r")
    case True
    then have suc: "unat (i + 1) = Suc (unat i)" by (rule unat_Suc_less)
    have el: "(if eTerm (stateLog r ! unat i) \<noteq> currentTerm r then r
           else if majority (countMatchIndex r i + 1) r then set_commit i r else r) =
        (if eligible r (unat i) then set_commit (of_nat (unat i)) r else r)"
      by (simp add: eligible_def)
    have "commit_loop (i + 1) (if eligible r (unat i) then set_commit (of_nat (unat i)) r else r) =
        commit_choice (unat (i + 1)) (if eligible r (unat i) then set_commit (of_nat (unat i)) r else r)"
      using 1(1) [OF True] 1(2) unfolding el by (simp add: log_fits_def)
    then show ?thesis
      using True lt commit_choice_step [of "unat i" r] suc
      by (subst commit_loop.simps) (simp add: el)
  next
    case False
    then show ?thesis
      using lt by (subst commit_loop.simps) (simp add: commit_choice_def)
  qed
qed

lemma commit_choice_cases:
  obtains (none) "commit_choice i r = r" "\<forall>j. i \<le> j \<and> j < length (stateLog r) \<longrightarrow> \<not> eligible r j"
  | (some) j where "commit_choice i r = set_commit (of_nat j) r" "i \<le> j" "j < length (stateLog r)"
      "eligible r j" "\<forall>k. j < k \<and> k < length (stateLog r) \<longrightarrow> \<not> eligible r k"
proof -
  define js where "js = filter (eligible r) [i..<length (stateLog r)]"
  have choice: "commit_choice i r = (if js = [] then r else set_commit (of_nat (last js)) r)"
    by (simp add: commit_choice_def js_def Let_def)
  have mem: "j \<in> set js \<longleftrightarrow> i \<le> j \<and> j < length (stateLog r) \<and> eligible r j" for j
    by (auto simp: js_def)
  have sorted: "sorted js" by (simp add: js_def sorted_wrt_filter)
  show thesis
  proof (cases "js = []")
    case True
    then show thesis using mem choice by (intro none) auto
  next
    case False
    then have last: "last js \<in> set js" by (rule last_in_set)
    have "\<not> eligible r k" if "last js < k" "k < length (stateLog r)" for k
    proof
      assume "eligible r k"
      then have "k \<in> set js" using last that unfolding mem by simp
      then have "k \<le> last js" by (rule le_last_sorted [OF sorted])
      then show False using that by simp
    qed
    then show thesis
      using last choice False unfolding mem by (intro some [of "last js"]) simp_all
  qed
qed

lemma commit_choice_frame [simp]:
  "stateLog (commit_choice i r) = stateLog r" "logTail (commit_choice i r) = logTail r"
  "currentTerm (commit_choice i r) = currentTerm r"
  "state (commit_choice i r) = state r" "last_applied (commit_choice i r) = last_applied r"
  "nextIndex (commit_choice i r) = nextIndex r" "matchIndex (commit_choice i r) = matchIndex r"
  "peers (commit_choice i r) = peers r" "numberPeers (commit_choice i r) = numberPeers r"
  "raft_id (commit_choice i r) = raft_id r" "commitReadyChan (commit_choice i r) = commitReadyChan r"
  by (simp_all add: commit_choice_def Let_def)

section \<open>The request and the reply\<close>

lemma broadcastMsg_send_Ret:
  assumes "log_fits r" and n: "unat (map_get0 (nextIndex r) p) \<le> length (stateLog r)"
  shows "broadcastMsg_send p t r =
    Ret (\<lparr>aeTerm = t, aeLeaderId = raft_id r, aePrevLogIndex = map_get0 (nextIndex r) p - 1,
          aePrevLogTerm = (if map_get0 (nextIndex r) p = 0 then MaxUint64
                           else eTerm (stateLog r ! (unat (map_get0 (nextIndex r) p) - 1))),
          aeEntries = drop (unat (map_get0 (nextIndex r) p)) (stateLog r),
          aeLeaderCommit = commit_index r\<rparr>, map_get0 (nextIndex r) p)"
proof -
  let ?next = "map_get0 (nextIndex r) p"
  show ?thesis
  proof (cases "?next = 0")
    case True
    then show ?thesis by (simp add: broadcastMsg_send_def go_simps Let_def)
  next
    case False
    then have u: "unat (?next - 1) = unat ?next - 1"
      by (simp add: unat_minus_one)
    have "0 < unat ?next" using False by (simp add: unat_gt_0)
    then have lt: "unat ?next - 1 < length (stateLog r)" "unat (?next - 1) < 2 ^ 63"
      using n assms(1) by (auto simp: u log_fits_def)
    have "sint (?next - 1) = int (unat ?next - 1)"
      using lt(2) u by (simp add: sint_small)
    moreover have "?next - 1 < MaxUint64"
      using lt(2) by (simp add: word_less_nat_alt unsigned_minus_1_eq_mask mask_eq_exp_minus_1)
    ultimately show ?thesis
      using n lt False by (simp add: broadcastMsg_send_def go_simps Let_def u)
  qed
qed

lemma broadcastMsg_send_panics:
  assumes "log_fits r" "length (stateLog r) < unat (map_get0 (nextIndex r) p)"
  shows "\<exists>e. broadcastMsg_send p t r = Panic e"
  using assms by (auto simp: broadcastMsg_send_def go_simps Let_def)

lemma broadcastMsg_success_Ret:
  assumes "log_fits r" "broadcastMsg_success p next n t r = Ret r'"
  shows "stateLog r' = stateLog r \<and> state r' = state r \<and> currentTerm r' = currentTerm r \<and>
    last_applied r' = last_applied r \<and> raft_id r' = raft_id r \<and> peers r' = peers r \<and>
    numberPeers r' = numberPeers r \<and> logTail r' = logTail r \<and>
    nextIndex r' = map_set p (next + of_nat n) (nextIndex r) \<and>
    matchIndex r' = map_set p (next + of_nat n - 1) (matchIndex r) \<and>
    commit_index r' = commit_index (commit_choice (count_of (commit_index r))
      (r\<lparr>nextIndex := nextIndex r', matchIndex := matchIndex r'\<rparr>))"
  using assms
  by (auto simp: broadcastMsg_success_def Let_def commit_loop_choice log_fits_def count_of_def bind_go_Ret_iff
      split: if_splits)

lemma broadcastMsg_success_returns:
  assumes "log_fits r" "can_send r"
  shows "\<exists>r'. broadcastMsg_success p next n t r = Ret r'"
  using assms
  by (auto simp: broadcastMsg_success_def Let_def can_send_def go_simps commit_loop_choice log_fits_def)

lemma eligible_cong:
  "stateLog r = stateLog r' \<Longrightarrow> currentTerm r = currentTerm r' \<Longrightarrow> peers r = peers r' \<Longrightarrow>
     numberPeers r = numberPeers r' \<Longrightarrow> matchIndex r = matchIndex r' \<Longrightarrow> eligible r = eligible r'"
  by (simp add: fun_eq_iff eligible_def countMatchIndex_def majority_def)

lemma broadcastMsg_success_commit:
  assumes "log_fits r" "can_send r"
  shows "\<exists>r'. broadcastMsg_success p nx k t r = Ret r' \<and>
    ((commit_index r' = commit_index r \<and>
      (\<forall>j. count_of (commit_index r) \<le> j \<and> j < length (stateLog r') \<longrightarrow> \<not> eligible r' j)) \<or>
     (\<exists>j. commit_index r' = of_nat j \<and> count_of (commit_index r) \<le> j \<and> j < length (stateLog r') \<and>
       eligible r' j \<and> (\<forall>i. j < i \<and> i < length (stateLog r') \<longrightarrow> \<not> eligible r' i)))"
proof -
  from broadcastMsg_success_returns [OF assms] obtain r' where ret: "broadcastMsg_success p nx k t r = Ret r'"
    by blast
  let ?r1 = "r\<lparr>nextIndex := nextIndex r', matchIndex := matchIndex r'\<rparr>"
  note frame = broadcastMsg_success_Ret [OF assms(1) ret]
  have el: "eligible r' = eligible ?r1" using frame by (intro eligible_cong) simp_all
  have log: "stateLog r' = stateLog ?r1" using frame by simp
  have com: "commit_index r' = commit_index (commit_choice (count_of (commit_index r)) ?r1)" using frame by simp
  show ?thesis
  proof (cases rule: commit_choice_cases [of "count_of (commit_index r)" ?r1])
    case none
    then show ?thesis using ret com el log by auto
  next
    case (some j)
    then show ?thesis using ret com el log by auto
  qed
qed

lemma broadcastMsg_locked_frame [raft_frame]:
  assumes "log_fits r" "broadcastMsg_locked p next n t reply r = Ret r'"
  shows "stateLog r' = stateLog r \<and> state r' = state r \<and> currentTerm r' = currentTerm r \<and>
    last_applied r' = last_applied r"
  using assms by (auto simp: broadcastMsg_locked_def dest: broadcastMsg_success_Ret split: if_splits)

lemma broadcastMsg_cases:
  assumes "broadcastMsg now remote p t r = Ret (r', err)"
  shows "r' = r \<or> (\<exists>t'. r' = makeFollower now t' r) \<or>
    (\<exists>nx k reply. broadcastMsg_locked p nx k t reply r = Ret r')"
proof -
  from assms obtain req nx where send: "broadcastMsg_send p t r = Ret (req, nx)"
    by (auto simp: broadcastMsg_def bind_go_Ret_iff)
  show ?thesis
    using assms send
    by (cases "remote p req")
      (auto simp: broadcastMsg_def broadcastMsg_reply_def bind_go_Ret_iff split: if_splits)
qed

end
