(* ===== verification/Raft_Steps.thy ===== *)
theory Raft_Steps
  imports Raft_Replication
begin

text \<open>
  Two step relations for one node.

  \<open>section_step\<close> has one rule for each critical section of \<open>consensus.go\<close>, in any order and with
  arbitrary values for the local variables a goroutine carries from one section to the next; it also lets a node
  become leader or follower at any time, so that it has more runs than the program. Every
  interleaving of the goroutines of a node is a sequence of such steps, so an invariant of this
  relation holds whatever the scheduler does. \<open>delivered\<close> records what \<open>commitChannel\<close> has sent to
  \<open>commitChan\<close>.

  \<open>handler_step\<close> has one rule for each method run without interference.
\<close>

record node =
  nraft :: raft
  delivered :: "CommitEntry list"

inductive section_step :: "node \<Rightarrow> node \<Rightarrow> bool" where
  makeFollower: "section_step n (n\<lparr>nraft := makeFollower now t (nraft n)\<rparr>)"
| decide: "RequestVote_decide now vote i t (nraft n) = (r', reply) \<Longrightarrow> section_step n (n\<lparr>nraft := r'\<rparr>)"
| append: "AppendEntries_locked now t req (nraft n) = Ret (r', ok) \<Longrightarrow> section_step n (n\<lparr>nraft := r'\<rparr>)"
| candidate: "startElection_begin now (nraft n) = (t, r') \<Longrightarrow> section_step n (n\<lparr>nraft := r'\<rparr>)"
| leader: "section_step n (n\<lparr>nraft := makeLeader (nraft n)\<rparr>)"
| start: "section_step n (n\<lparr>nraft := spawn g (nraft n)\<rparr>)"
| acknowledge: "broadcastMsg_locked p nx k t reply (nraft n) = Ret r' \<Longrightarrow> section_step n (n\<lparr>nraft := r'\<rparr>)"
| submit: "Submit kv (nraft n) = Ret (ok, r') \<Longrightarrow> section_step n (n\<lparr>nraft := r'\<rparr>)"
| deliver: "commitChannel_iter (nraft n) = Ret (Some (cs, r')) \<Longrightarrow>
     section_step n \<lparr>nraft = r', delivered = delivered n @ cs\<rparr>"
| shutdown: "Raft_Shutdown (nraft n) = Ret r' \<Longrightarrow> section_step n (n\<lparr>nraft := r'\<rparr>)"

inductive reachable_node :: "node \<Rightarrow> bool" where
  init: "NewRaftProtocol i ps k = Inr r \<Longrightarrow> reachable_node \<lparr>nraft = r, delivered = []\<rparr>"
| step: "reachable_node n \<Longrightarrow> section_step n n' \<Longrightarrow> reachable_node n'"

section \<open>What a round of the commit loop delivers\<close>

lemma commit_entries_Ret:
  "commit_entries i t es = Ret cs \<Longrightarrow>
     map ceIndex cs = map (\<lambda>j. i + of_nat j) [0..<length es] \<and>
     map (\<lambda>c. Some (ceCommand c)) cs = map eCommand es \<and> (\<forall>c \<in> set cs. ceTerm c = t)"
proof (induction i t es arbitrary: cs rule: commit_entries.induct)
  case (2 i t e es)
  from "2.prems" obtain c ds where c: "eCommand e = Some c" "commit_entries (i + 1) t es = Ret ds"
    and cs: "cs = \<lparr>ceCommand = c, ceIndex = i, ceTerm = t\<rparr> # ds"
    by (auto simp: bind_go_Ret_iff split: option.splits)
  have "map (\<lambda>j. i + of_nat j) [0..<Suc (length es)] = i # map (\<lambda>j. i + 1 + of_nat j) [0..<length es]"
    by (simp add: upt_conv_Cons map_Suc_upt [symmetric] comp_def add.assoc del: upt_Suc)
  with "2.IH" [OF c] c cs show ?case by simp
qed simp

lemma commitChannel_round_Ret:
  assumes "commitChannel_round r = Ret (cs, r')"
  shows "stateLog r' = stateLog r \<and> logTail r' = logTail r \<and> currentTerm r' = currentTerm r \<and> state r' = state r \<and>
    commit_index r' = commit_index r \<and> count_of (last_applied r) \<le> count_of (last_applied r') \<and>
    (cs = [] \<or> count_of (last_applied r') \<le> length (log_cells r) \<and> last_applied r' = commit_index r) \<and>
    map ceIndex cs = map of_nat [count_of (last_applied r)..<count_of (last_applied r')] \<and>
    map (\<lambda>c. Some (ceCommand c)) cs =
      map eCommand (take (count_of (last_applied r') - count_of (last_applied r))
        (drop (count_of (last_applied r)) (log_cells r)))"
proof (cases "commit_index r > last_applied r \<or> last_applied r = MaxUint64")
  case True
  let ?a = "count_of (last_applied r)" and ?b = "count_of (commit_index r)"
  from assms True have bounds: "?a \<le> ?b" "?b \<le> length (log_cells r)"
    and ce: "commit_entries (last_applied r + 1) (currentTerm r) (take (?b - ?a) (drop ?a (log_cells r))) = Ret cs"
    and r': "r' = set_applied (commit_index r) r"
    by (auto simp: commitChannel_round_def commitChannel_section_def go_simps bind_go_Ret_iff count_of_def
        simp del: drop_append take_append length_append split: if_splits)
  have "map (\<lambda>j. last_applied r + 1 + of_nat j) [0..<?b - ?a] = map (\<lambda>j. of_nat (?a + j)) [0..<?b - ?a]"
    by (simp add: count_of_def)
  also have "\<dots> = map of_nat [?a..<?b]"
    by (rule map_upt_shift)
  finally show ?thesis
    using commit_entries_Ret [OF ce] bounds r' by (simp del: drop_append take_append)
next
  case False
  then show ?thesis
    using assms by (auto simp: commitChannel_round_def commitChannel_section_def)
qed

lemma commitChannel_iter_Ret:
  assumes "commitChannel_iter r = Ret (Some (cs, r'))"
  obtains c where "commitChannel_round (r\<lparr>commitReadyChan := c\<rparr>) = Ret (cs, r')"
  using assms by (auto simp: commitChannel_iter_def bind_go_Ret_iff split: option.splits)

section \<open>Every critical section but the delivery leaves \<open>lastApplied\<close> alone\<close>

lemma ae_insert_applied: "ae_insert req r = Ret r' \<Longrightarrow> last_applied r' = last_applied r"
  by (auto simp: ae_insert_def bind_go_Ret_iff split: if_splits prod.splits)

lemma AppendEntries_locked_applied:
  "AppendEntries_locked now t req r = Ret (r', ok) \<Longrightarrow> last_applied r' = last_applied r"
  by (auto simp: AppendEntries_locked_def Let_def bind_go_Ret_iff split: if_splits
      dest!: ae_insert_applied ae_commit_Ret)

lemma commit_loop_applied: "last_applied (commit_loop i r) = last_applied r"
  by (induction i r rule: commit_loop.induct) (subst commit_loop.simps, simp)

lemma broadcastMsg_locked_applied:
  "broadcastMsg_locked p nx k t reply r = Ret r' \<Longrightarrow> last_applied r' = last_applied r"
  by (auto simp: broadcastMsg_locked_def broadcastMsg_success_def Let_def bind_go_Ret_iff
      commit_loop_applied split: if_splits)

lemma Submit_applied: "Submit kv r = Ret (ok, r') \<Longrightarrow> last_applied r' = last_applied r"
  by (auto simp: Submit_def split: option.splits if_splits)

lemma Raft_Shutdown_applied: "Raft_Shutdown r = Ret r' \<Longrightarrow> last_applied r' = last_applied r"
  by (auto simp: Raft_Shutdown_def bind_go_Ret_iff split: if_splits)

lemma RequestVote_decide_applied:
  "RequestVote_decide now vote i t r = (r', reply) \<Longrightarrow> last_applied r' = last_applied r"
  by (drule RequestVote_decide_frame) simp

lemma startElection_begin_applied:
  "startElection_begin now r = (t, r') \<Longrightarrow> last_applied r' = last_applied r"
  by (auto simp: startElection_begin_def)

lemmas section_applied =
  AppendEntries_locked_applied broadcastMsg_locked_applied Submit_applied Raft_Shutdown_applied
  RequestVote_decide_applied startElection_begin_applied

section \<open>The stream of committed entries has no gap and no repetition\<close>

definition stream_ok :: "node \<Rightarrow> bool" where
  "stream_ok n \<longleftrightarrow> map ceIndex (delivered n) = map of_nat [0..<count_of (last_applied (nraft n))]"

lemma section_step_stream: "section_step n n' \<Longrightarrow> stream_ok n \<Longrightarrow> stream_ok n'"
proof (induction rule: section_step.induct)
  case (deliver n cs r')
  from deliver(1) obtain c where "commitChannel_round (nraft n\<lparr>commitReadyChan := c\<rparr>) = Ret (cs, r')"
    by (rule commitChannel_iter_Ret)
  from commitChannel_round_Ret [OF this] deliver(2) show ?case
    by (simp add: stream_ok_def map_upt_append)
qed (auto simp: stream_ok_def makeLeader_def dest: section_applied)

lemma NewRaftProtocol_stream: "NewRaftProtocol i ps k = Inr r \<Longrightarrow> stream_ok \<lparr>nraft = r, delivered = []\<rparr>"
  by (auto simp: NewRaftProtocol_def stream_ok_def split: if_splits)

lemma reachable_stream: "reachable_node n \<Longrightarrow> stream_ok n"
  by (induction rule: reachable_node.induct) (auto intro: section_step_stream NewRaftProtocol_stream)

section \<open>What is delivered is the applied prefix of the log\<close>

text \<open>
  Runs in which no step rewrites the part of the log that has already been applied or leaves a log shorter
  than the commit index says. Raft promises both of every server (Leader Completeness and State Machine
  Safety); the module itself does not enforce them.
\<close>

inductive stable_run :: "node \<Rightarrow> bool" where
  init: "NewRaftProtocol i ps k = Inr r \<Longrightarrow> stable_run \<lparr>nraft = r, delivered = []\<rparr>"
| step: "stable_run n \<Longrightarrow> section_step n n' \<Longrightarrow>
     take (count_of (last_applied (nraft n))) (stateLog (nraft n')) =
       take (count_of (last_applied (nraft n))) (stateLog (nraft n)) \<Longrightarrow>
     count_of (commit_index (nraft n')) \<le> length (stateLog (nraft n')) \<Longrightarrow> stable_run n'"

definition content_ok :: "node \<Rightarrow> bool" where
  "content_ok n \<longleftrightarrow>
     map (\<lambda>c. Some (ceCommand c)) (delivered n) =
       map eCommand (take (count_of (last_applied (nraft n))) (stateLog (nraft n)))"

lemma section_step_content:
  "section_step n n' \<Longrightarrow> content_ok n \<Longrightarrow>
     take (count_of (last_applied (nraft n))) (stateLog (nraft n')) =
       take (count_of (last_applied (nraft n))) (stateLog (nraft n)) \<Longrightarrow>
     count_of (commit_index (nraft n')) \<le> length (stateLog (nraft n')) \<Longrightarrow> content_ok n'"
proof (induction rule: section_step.induct)
  case (deliver n cs r')
  from deliver(1) obtain c where "commitChannel_round (nraft n\<lparr>commitReadyChan := c\<rparr>) = Ret (cs, r')"
    by (rule commitChannel_iter_Ret)
  note round = commitChannel_round_Ret [OF this]
  let ?a = "count_of (last_applied (nraft n))" and ?b = "count_of (last_applied r')"
  have split: "take ?b (stateLog r') = take ?a (stateLog r') @ take (?b - ?a) (drop ?a (stateLog r'))"
    using round by (simp flip: take_add)
  show ?case
  proof (cases "cs = []")
    case True
    then have "map (of_nat :: nat \<Rightarrow> u64) [?a..<?b] = []" using round by simp
    then have "?b \<le> ?a" by auto
    then show ?thesis using True round deliver(2) by (simp add: content_ok_def)
  next
    case False
    then have "?b \<le> length (stateLog r')" using round deliver(4) by simp
    then have "take (?b - ?a) (drop ?a (log_cells (nraft n))) = take (?b - ?a) (drop ?a (stateLog r'))"
      using round by simp
    then show ?thesis using round split deliver(2) by (simp add: content_ok_def del: drop_append take_append)
  qed
qed (auto simp: content_ok_def makeLeader_def dest: section_applied)

lemma stable_run_content: "stable_run n \<Longrightarrow> content_ok n"
proof (induction rule: stable_run.induct)
  case (init i ps k r)
  then show ?case by (auto simp: NewRaftProtocol_def content_ok_def split: if_splits)
next
  case (step n n')
  then show ?case by (blast intro: section_step_content)
qed

section \<open>Whole methods\<close>

inductive handler_step :: "node \<Rightarrow> node \<Rightarrow> bool" where
  vote: "RequestVote_run now v (nraft n) = (r', res) \<Longrightarrow> handler_step n (n\<lparr>nraft := r'\<rparr>)"
| entries: "AppendEntries_run now req (nraft n) = Ret (r', res) \<Longrightarrow> handler_step n (n\<lparr>nraft := r'\<rparr>)"
| elect: "runElectionTimer_tick now t (nraft n) = Elect \<Longrightarrow>
     startElection now dis (nraft n) = (et, ms, r') \<Longrightarrow> handler_step n (n\<lparr>nraft := r'\<rparr>)"
| vote_reply: "startElection_reply now et reply votes (nraft n) = (votes', r') \<Longrightarrow>
     handler_step n (n\<lparr>nraft := r'\<rparr>)"
| broadcast: "broadcastMsg now remote p t (nraft n) = Ret (r', err) \<Longrightarrow> handler_step n (n\<lparr>nraft := r'\<rparr>)"
| submit: "Submit kv (nraft n) = Ret (ok, r') \<Longrightarrow> handler_step n (n\<lparr>nraft := r'\<rparr>)"
| deliver: "commitChannel_iter (nraft n) = Ret (Some (cs, r')) \<Longrightarrow>
     handler_step n \<lparr>nraft = r', delivered = delivered n @ cs\<rparr>"
| shutdown: "Raft_Shutdown (nraft n) = Ret r' \<Longrightarrow> handler_step n (n\<lparr>nraft := r'\<rparr>)"

text \<open>A method run without interference is a sequence of critical sections.\<close>

lemma step_twice:
  "section_step n n1 \<Longrightarrow> section_step n1 n2 \<Longrightarrow> rtranclp section_step n n2"
  by (meson converse_rtranclp_into_rtranclp r_into_rtranclp)

lemma adopt_sections: "rtranclp section_step n (n\<lparr>nraft := adopt now t (nraft n)\<rparr>)"
  by (auto simp: adopt_def intro: section_step.makeFollower)

lemma RequestVote_run_sections:
  assumes "RequestVote_run now v (nraft n) = (r', res)"
  shows "rtranclp section_step n (n\<lparr>nraft := r'\<rparr>)"
proof (cases "state (nraft n) = Dead")
  case True
  then show ?thesis using assms by (cases n) (auto simp: RequestVote_run_dead)
next
  case False
  define r1 where "r1 = (if term_outdated (rvTerm v) (currentTerm (nraft n))
    then makeFollower now (rvTerm v) (nraft n) else nraft n)"
  obtain i t reply where "RequestVote_decide now v i t r1 = (r', reply)"
    using assms False by (auto simp: RequestVote_run_def isDead_def r1_def Let_def split: prod.splits)
  then have "section_step (n\<lparr>nraft := r1\<rparr>) (n\<lparr>nraft := r'\<rparr>)"
    using section_step.decide [of now v i t "n\<lparr>nraft := r1\<rparr>" r' reply] by simp
  moreover have "rtranclp section_step n (n\<lparr>nraft := r1\<rparr>)"
    by (auto simp: r1_def intro: section_step.makeFollower)
  ultimately show ?thesis by (rule rtranclp.rtrancl_into_rtrancl [rotated])
qed

lemma AppendEntries_run_sections:
  assumes "AppendEntries_run now req (nraft n) = Ret (r', res)"
  shows "rtranclp section_step n (n\<lparr>nraft := r'\<rparr>)"
proof (cases "state (nraft n) \<noteq> Dead \<and>
    (term_outdated (aeTerm req) (currentTerm (nraft n)) \<or> aeTerm req = currentTerm (nraft n))")
  case True
  let ?r1 = "adopt now (aeTerm req) (nraft n)"
  from True assms obtain ok where "AppendEntries_locked now (aeTerm req) req ?r1 = Ret (r', ok)"
    by (auto simp: AppendEntries_run_current bind_go_Ret_iff)
  then have "section_step (n\<lparr>nraft := ?r1\<rparr>) (n\<lparr>nraft := r'\<rparr>)"
    using section_step.append [of now "aeTerm req" req "n\<lparr>nraft := ?r1\<rparr>" r' ok] by simp
  then show ?thesis
    by (rule rtranclp.rtrancl_into_rtrancl [OF adopt_sections])
next
  case False
  then show ?thesis
    using assms
    by (cases n; cases "state (nraft n) = Dead") (auto simp: AppendEntries_run_dead AppendEntries_run_stale)
qed

lemma startElection_sections:
  assumes "startElection now dis (nraft n) = (et, ms, r')"
  shows "rtranclp section_step n (n\<lparr>nraft := r'\<rparr>)"
proof -
  obtain t r1 where b: "startElection_begin now (nraft n) = (t, r1)" by (cases "startElection_begin now (nraft n)")
  have s1: "section_step n (n\<lparr>nraft := r1\<rparr>)" using b by (rule section_step.candidate)
  have "r' = r1 \<or> r' = spawn ElectionTimer r1"
    using assms b by (auto simp: startElection_def split: prod.splits)
  then show ?thesis
    using s1 section_step.start [of "n\<lparr>nraft := r1\<rparr>" ElectionTimer] by (auto intro: step_twice)
qed

lemma startElection_reply_sections:
  assumes "startElection_reply now et reply votes (nraft n) = (votes', r')"
  shows "rtranclp section_step n (n\<lparr>nraft := r'\<rparr>)"
proof -
  have "rtranclp section_step n (n\<lparr>nraft := startLeader (nraft n)\<rparr>)"
    using step_twice [OF section_step.leader section_step.start, of n LeaderLoop]
    by (simp add: startLeader_def)
  moreover have "r' = nraft n \<or> (\<exists>t. r' = makeFollower now t (nraft n)) \<or> r' = startLeader (nraft n)"
    using assms by (auto simp: startElection_reply_def Let_def split: if_splits)
  ultimately show ?thesis by (auto intro: section_step.makeFollower)
qed

lemma broadcastMsg_sections:
  assumes "broadcastMsg now remote p t (nraft n) = Ret (r', err)"
  shows "rtranclp section_step n (n\<lparr>nraft := r'\<rparr>)"
proof -
  have "r' = nraft n \<or> (\<exists>t. r' = makeFollower now t (nraft n)) \<or>
      (\<exists>nx k t reply. broadcastMsg_locked p nx k t reply (nraft n) = Ret r')"
    using broadcastMsg_cases [OF assms] by blast
  then show ?thesis by (auto intro: section_step.makeFollower section_step.acknowledge)
qed

lemma handler_step_sections: "handler_step n n' \<Longrightarrow> rtranclp section_step n n'"
  by (induction rule: handler_step.induct)
    (blast intro: RequestVote_run_sections AppendEntries_run_sections startElection_sections
      startElection_reply_sections broadcastMsg_sections section_step.intros r_into_rtranclp)+

lemma reachable_sections: "rtranclp section_step n n' \<Longrightarrow> reachable_node n \<Longrightarrow> reachable_node n'"
  by (induction rule: rtranclp_induct) (auto intro: reachable_node.step)

section \<open>A leader only appends to its log\<close>

lemma runElectionTimer_tick_Elect:
  "runElectionTimer_tick now t r = Elect \<Longrightarrow>
     (state r = Candidate \<or> state r = Follower) \<and> oldState t = state r \<and> termStarted t = currentTerm r \<and>
     timeoutDuration t \<le> now - electionResetEvent r"
  by (auto simp: runElectionTimer_tick_def isExpired_def isElectionReset_def split: if_splits)

lemma broadcastMsg_log:
  "log_fits r \<Longrightarrow> broadcastMsg now remote p t r = Ret (r', err) \<Longrightarrow> stateLog r' = stateLog r"
  by (auto dest!: broadcastMsg_cases dest: broadcastMsg_locked_frame)

lemma commitChannel_iter_log:
  "commitChannel_iter r = Ret (Some (cs, r')) \<Longrightarrow> stateLog r' = stateLog r \<and> logTail r' = logTail r"
  by (elim commitChannel_iter_Ret) (auto dest: commitChannel_round_Ret)

lemma Submit_log: "Submit kv r = Ret (ok, r') \<Longrightarrow> \<exists>es. stateLog r' = stateLog r @ es"
  by (auto simp: Submit_def split: option.splits if_splits)

lemma startElection_log:
  "startElection now dis r = (et, ms, r') \<Longrightarrow> stateLog r' = stateLog r \<and> logTail r' = logTail r"
  by (auto simp: startElection_def startElection_begin_def split: prod.splits if_splits)

lemma startElection_reply_log:
  "startElection_reply now et reply votes r = (votes', r') \<Longrightarrow> stateLog r' = stateLog r \<and> logTail r' = logTail r"
  by (auto simp: startElection_reply_def Let_def split: if_splits)

lemma Raft_Shutdown_log: "Raft_Shutdown r = Ret r' \<Longrightarrow> stateLog r' = stateLog r \<and> logTail r' = logTail r"
  by (auto simp: Raft_Shutdown_def bind_go_Ret_iff split: if_splits)

lemma leader_append_only:
  "handler_step n n' \<Longrightarrow> state (nraft n) = Leader \<Longrightarrow> state (nraft n') = Leader \<Longrightarrow>
     log_fits (nraft n) \<Longrightarrow> \<exists>es. stateLog (nraft n') = stateLog (nraft n) @ es"
proof (induction rule: handler_step.induct)
  case (entries now req n r' res)
  then show ?case using AppendEntries_run_Ret [OF entries.prems(3) entries.hyps] by auto
qed (auto dest: RequestVote_run_frame startElection_log startElection_reply_log broadcastMsg_log
    commitChannel_iter_log Submit_log Raft_Shutdown_log)

section \<open>The configuration of a node never changes\<close>

definition config_of :: "raft \<Rightarrow> u64 \<times> (string, u64) gomap \<times> int" where
  "config_of r = (raft_id r, peers r, numberPeers r)"

lemma ae_insert_config: "ae_insert req r = Ret r' \<Longrightarrow> config_of r' = config_of r"
  by (auto simp: ae_insert_def config_of_def bind_go_Ret_iff split: if_splits prod.splits)

lemma AppendEntries_locked_config:
  "AppendEntries_locked now t req r = Ret (r', ok) \<Longrightarrow> config_of r' = config_of r"
  by (auto simp: AppendEntries_locked_def Let_def bind_go_Ret_iff config_of_def split: if_splits
      dest!: ae_insert_config ae_commit_Ret)

lemma commit_loop_config: "config_of (commit_loop i r) = config_of r"
  by (induction i r rule: commit_loop.induct) (subst commit_loop.simps, simp add: config_of_def)

lemma broadcastMsg_locked_config:
  "broadcastMsg_locked p nx k t reply r = Ret r' \<Longrightarrow> config_of r' = config_of r"
  by (auto simp: broadcastMsg_locked_def broadcastMsg_success_def Let_def bind_go_Ret_iff config_of_def
      commit_loop_config [unfolded config_of_def, simplified] split: if_splits)

lemma commitChannel_iter_config: "commitChannel_iter r = Ret (Some (cs, r')) \<Longrightarrow> config_of r' = config_of r"
  by (auto simp: commitChannel_iter_def commitChannel_round_def commitChannel_section_def bind_go_Ret_iff
      config_of_def split: option.splits if_splits)

lemma section_step_config: "section_step n n' \<Longrightarrow> config_of (nraft n') = config_of (nraft n)"
proof (induction rule: section_step.induct)
  case (append now t req n r' ok)
  then show ?case by (simp add: AppendEntries_locked_config)
next
  case (acknowledge p nx k t reply n r')
  then show ?case by (simp add: broadcastMsg_locked_config)
next
  case (deliver n cs r')
  then show ?case by (simp add: commitChannel_iter_config)
qed (auto simp: config_of_def RequestVote_decide_def startElection_begin_def makeLeader_def Submit_def
    Raft_Shutdown_def bind_go_Ret_iff split: if_splits option.splits)

lemma sections_config: "rtranclp section_step n n' \<Longrightarrow> config_of (nraft n') = config_of (nraft n)"
  by (induction rule: rtranclp_induct) (simp_all add: section_step_config)

end
