(* ===== verification/Raft_Election.thy ===== *)
theory Raft_Election
  imports Raft_Handlers
begin

text \<open>
  The vote count of one election. \<open>startElection\<close> starts a goroutine for each peer; the goroutines
  share the variable \<open>votesReceived\<close>, which each reads when it calls \<open>gotVote\<close> and writes later, in
  a critical section of its own. \<open>ballot_step\<close> interleaves these reads and writes freely: updates can
  be lost. The locale \<open>majority_quorum\<close> states what a strict majority is good for, and is interpreted
  with the test the code makes.
\<close>

section \<open>Majorities\<close>

locale majority_quorum =
  fixes members :: "'c \<Rightarrow> 'a set" and sound :: "'c \<Rightarrow> bool" and wins :: "'c \<Rightarrow> nat \<Rightarrow> bool"
  assumes finite_members: "finite (members c)"
    and wins_strict: "sound c \<Longrightarrow> wins c k \<Longrightarrow> card (members c) < 2 * k"
begin

lemma quorums_intersect:
  assumes "sound c" "A \<subseteq> members c" "B \<subseteq> members c" "wins c (card A)" "wins c (card B)"
  shows "A \<inter> B \<noteq> {}"
proof
  assume "A \<inter> B = {}"
  moreover have "finite A" "finite B" using assms finite_members by (auto intro: finite_subset)
  ultimately have "card (A \<union> B) = card A + card B" by (simp add: card_Un_disjoint)
  moreover have "card (A \<union> B) \<le> card (members c)"
    using assms finite_members by (intro card_mono) auto
  ultimately show False
    using wins_strict [OF assms(1,4)] wins_strict [OF assms(1,5)] by simp
qed

lemma quorum_nonempty: "sound c \<Longrightarrow> A \<subseteq> members c \<Longrightarrow> wins c (card A) \<Longrightarrow> A \<noteq> {}"
  using quorums_intersect [of c A A] by simp

end

text \<open>
  A configuration is sound when the peer map holds distinct identifiers, none of them the node's own,
  and \<open>numberPeers\<close> is their number, as \<open>NewServer\<close> sets it up.
\<close>

definition config_ok :: "raft \<Rightarrow> bool" where
  "config_ok r \<longleftrightarrow> distinct (map snd (peers r)) \<and> raft_id r \<notin> set (map snd (peers r)) \<and>
     numberPeers r = int (length (peers r))"

definition cluster_ids :: "raft \<Rightarrow> u64 set" where
  "cluster_ids r = insert (raft_id r) (set (map snd (peers r)))"

lemma card_cluster_ids: "config_ok r \<Longrightarrow> int (card (cluster_ids r)) = numberPeers r + 1"
  unfolding config_ok_def cluster_ids_def by (simp add: distinct_card flip: set_map)

interpretation raftq: majority_quorum cluster_ids config_ok "\<lambda>r k. majority (int k) r"
proof
  fix r k assume "config_ok r" "majority (int k) r"
  then show "card (cluster_ids r) < 2 * k"
    using card_cluster_ids [of r] by (simp add: majority_def)
qed (simp add: cluster_ids_def)

section \<open>One election, goroutine by goroutine\<close>

record ballot =
  bRaft :: raft
  bTerm :: u64
  votesReceived :: u64
  updates :: "(u64, u64) gomap"
  written :: "u64 list"
  granted :: "u64 list"

text \<open>
  \<open>updates\<close> holds the local \<open>updateVotes\<close> of the goroutines that have called \<open>gotVote\<close>, \<open>written\<close>
  those that have stored it, and \<open>granted\<close> the peers whose granting reply was counted.
\<close>

definition ballot_init :: "time \<Rightarrow> raft \<Rightarrow> ballot" where
  "ballot_init now r =
     (let (electionTerm, r1) = startElection_begin now r
      in \<lparr>bRaft = r1, bTerm = electionTerm, votesReceived = 1, updates = [], written = [], granted = []\<rparr>)"

definition ballot_read :: "u64 \<Rightarrow> RequestVoteReply \<Rightarrow> ballot \<Rightarrow> ballot" where
  "ballot_read p reply b =
     b\<lparr>updates := map_set p (gotVote (bTerm b) (votesReceived b) reply) (updates b),
       granted := (if rvrTerm reply = bTerm b \<and> rvrVoteGranted reply then p # granted b else granted b)\<rparr>"

definition ballot_write :: "u64 \<Rightarrow> u64 \<Rightarrow> ballot \<Rightarrow> ballot" where
  "ballot_write p u b =
     b\<lparr>votesReceived := u, written := p # written b,
       bRaft := (if majority (sint u) (bRaft b) then startLeader (bRaft b) else bRaft b)\<rparr>"

text \<open>
  A goroutine reads the counter after it has found the node a candidate, but by then another may have
  won: the read is possible in any state of the node.
\<close>

inductive ballot_step :: "ballot \<Rightarrow> ballot \<Rightarrow> bool" where
  fetch: "p \<in> set (map snd (peers (bRaft b))) \<Longrightarrow> map_of (updates b) p = None \<Longrightarrow>
     \<not> rvrTerm reply > bTerm b \<Longrightarrow> bTerm b \<noteq> MaxUint64 \<Longrightarrow> ballot_step b (ballot_read p reply b)"
| store: "map_of (updates b) p = Some u \<Longrightarrow> p \<notin> set (written b) \<Longrightarrow> ballot_step b (ballot_write p u b)"

inductive ballot_run :: "time \<Rightarrow> raft \<Rightarrow> ballot \<Rightarrow> bool" for now r where
  init: "ballot_run now r (ballot_init now r)"
| step: "ballot_run now r b \<Longrightarrow> ballot_step b b' \<Longrightarrow> ballot_run now r b'"

inductive_cases ballot_stepE: "ballot_step b b'"

text \<open>Without interference a read followed by its write is \<open>startElection_reply\<close>.\<close>

lemma ballot_read_write:
  assumes "isCandidate (bRaft b)" "\<not> rvrTerm reply > bTerm b" "bTerm b \<noteq> MaxUint64"
    and "b' = ballot_write p (gotVote (bTerm b) (votesReceived b) reply) (ballot_read p reply b)"
  shows "startElection_reply now (bTerm b) reply (votesReceived b) (bRaft b) = (votesReceived b', bRaft b')"
  using assms by (simp add: ballot_write_def ballot_read_def startElection_reply_def Let_def)

section \<open>The counter never exceeds the votes granted\<close>

definition ballot_inv :: "raft \<Rightarrow> ballot \<Rightarrow> bool" where
  "ballot_inv r b \<longleftrightarrow>
     peers (bRaft b) = peers r \<and> numberPeers (bRaft b) = numberPeers r \<and>
     distinct (granted b) \<and> set (granted b) \<subseteq> dom (map_of (updates b)) \<and>
     dom (map_of (updates b)) \<subseteq> set (map snd (peers r)) \<and>
     unat (votesReceived b) \<le> Suc (length (granted b)) \<and>
     (\<forall>p u. map_of (updates b) p = Some u \<longrightarrow> unat u \<le> Suc (length (granted b))) \<and>
     (state (bRaft b) = Leader \<longrightarrow> majority (int (Suc (length (granted b)))) r)"

lemma granted_length:
  "ballot_inv r b \<Longrightarrow> length (peers r) < 2 ^ 62 \<Longrightarrow> length (granted b) < 2 ^ 62"
proof -
  assume inv: "ballot_inv r b" and small: "length (peers r) < 2 ^ 62"
  have "set (granted b) \<subseteq> set (map snd (peers r))" using inv by (auto simp: ballot_inv_def)
  then have "card (set (granted b)) \<le> card (set (map snd (peers r)))" by (intro card_mono) auto
  also have "\<dots> \<le> length (peers r)" by (metis card_length length_map)
  finally show ?thesis using inv small by (simp add: ballot_inv_def distinct_card)
qed

lemma gotVote_le: "unat (gotVote t v reply) \<le> Suc (unat v)"
  by (auto simp: gotVote_def unat_word_ariths intro: order_trans [OF mod_less_eq_dividend])

lemma ballot_inv_read:
  assumes "ballot_inv r b" "p \<in> set (map snd (peers (bRaft b)))" "map_of (updates b) p = None"
  shows "ballot_inv r (ballot_read p reply b)"
proof -
  have "p \<notin> set (granted b)" using assms by (auto simp: ballot_inv_def)
  moreover have "majority (int (Suc (length (granted b)))) r \<Longrightarrow>
      majority (int (Suc (Suc (length (granted b))))) r" by (simp add: majority_def)
  ultimately show ?thesis
    using assms gotVote_le [of "bTerm b" "votesReceived b" reply]
    by (auto simp: ballot_inv_def ballot_read_def gotVote_def le_Suc_eq intro: order_trans)
qed

lemma majority_mono: "majority k r \<Longrightarrow> k \<le> m \<Longrightarrow> majority m r"
  by (simp add: majority_def)

lemma ballot_inv_write:
  assumes inv: "ballot_inv r b" and u: "map_of (updates b) p = Some u" and "length (peers r) < 2 ^ 62"
  shows "ballot_inv r (ballot_write p u b)"
proof -
  have le: "unat u \<le> Suc (length (granted b))" using inv u by (auto simp: ballot_inv_def)
  moreover have "length (granted b) < 2 ^ 62" by (rule granted_length [OF inv assms(3)])
  ultimately have "sint u = int (unat u)" by (intro sint_small) simp
  moreover have "int (unat u) \<le> int (Suc (length (granted b)))"
    using le by (simp only: of_nat_le_iff)
  moreover have "majority k (bRaft b) = majority k r" for k
    using inv by (simp add: ballot_inv_def majority_def)
  ultimately have "majority (sint u) (bRaft b) \<Longrightarrow> majority (int (Suc (length (granted b)))) r"
    using majority_mono by metis
  with inv u le show ?thesis
    by (simp add: ballot_inv_def ballot_write_def)
qed

lemma ballot_run_inv:
  assumes "ballot_run now r b" "length (peers r) < 2 ^ 62"
  shows "ballot_inv r b"
  using assms(1)
proof (induction rule: ballot_run.induct)
  case init
  show ?case by (simp add: ballot_init_def startElection_begin_def ballot_inv_def)
next
  case (step b b')
  from step(2) show ?case
    by (rule ballot_stepE)
      (use step(3) ballot_inv_read ballot_inv_write [OF step(3) _ assms(2)] in auto)
qed

text \<open>
  A node that wins has the granting replies of peers that, with itself, are a strict majority of the
  cluster, however the goroutines are scheduled.
\<close>

lemma ballot_winner:
  assumes "ballot_run now r b" "config_ok r" "length (peers r) < 2 ^ 62" "state (bRaft b) = Leader"
  shows "\<exists>V. V \<subseteq> cluster_ids r \<and> raft_id r \<in> V \<and> V = insert (raft_id r) (set (granted b)) \<and>
    majority (int (card V)) r"
proof -
  have inv: "ballot_inv r b" using assms(1,3) by (rule ballot_run_inv)
  let ?V = "insert (raft_id r) (set (granted b))"
  have sub: "set (granted b) \<subseteq> set (map snd (peers r))" using inv by (auto simp: ballot_inv_def)
  then have "raft_id r \<notin> set (granted b)" using assms(2) by (auto simp: config_ok_def)
  then have "card ?V = Suc (length (granted b))" using inv by (simp add: ballot_inv_def distinct_card)
  then show ?thesis
    using inv sub assms(4) by (intro exI [of _ ?V]) (auto simp: ballot_inv_def cluster_ids_def)
qed

end
