(* ===== verification/Cluster.thy ===== *)
theory Cluster
  imports Raft_Steps Raft_Election
begin

text \<open>
  Several Raft modules and the messages between them. A cluster is a set of nodes, the elections that
  have been started with their vote counters, the messages in flight, and, as history, what the
  clients submitted and what each node sent to its commit channel. An event runs one method of one
  node to its end; messages are lost, delayed and reordered freely but not duplicated, as with the
  unary calls of gRPC. \<open>cluster_run\<close> executes a list of events. All servers are in the state
  \<open>Running\<close>; a node whose Raft module is dead answers with an error and sends no reply. A request in flight
  also stands for one that its sender has built but not yet encoded, and can then change (\<open>Reread\<close>).
\<close>

record election =
  elNode :: u64
  elTerm :: u64
  elVotes :: u64

datatype packet =
    VoteReq nat u64 RequestVoteMsg
  | VoteRep nat u64 RequestVoteReply
  | AppReq u64 u64 u64 AppendEntriesMsg
  | AppRep u64 u64 u64 nat u64 AppendEntriesReply

text \<open>
  \<open>VoteReq e to m\<close> and \<open>VoteRep e from m\<close> belong to election number \<open>e\<close>;
  \<open>AppReq leader to next m\<close> and \<open>AppRep leader from next k term m\<close> carry the local variables of the
  \<open>broadcastMsg\<close> call they belong to.
\<close>

record cluster =
  nodes :: "(u64, raft) gomap"
  elections :: "election list"
  net :: "packet list"
  submitted :: "KeyValuePair list"
  applied :: "(u64 \<times> CommitEntry list) list"

datatype event =
    Timeout time timer u64
  | Arrive time nat
  | Lose nat
  | Heartbeat u64 u64
  | ClientSubmit u64 KeyValuePair
  | Apply u64
  | Stop u64
  | Reread nat nat

text \<open>
  \<open>Reread k j\<close>: a request reaches the network when it is encoded, after its sender has released the lock, and its
  entries are a slice of the array of the log (\<open>Log_Alias\<close> models the arrays). Until then an entry of the request
  can turn into what the array of its sender now holds at its index. The event may happen to any request at any
  time, also when the log of the sender has moved to another array, which is more than the program does.
\<close>

fun reread :: "nat \<Rightarrow> raft \<Rightarrow> packet \<Rightarrow> packet" where
  "reread j r (AppReq leader to nx m) =
     (if j < length (aeEntries m) \<and> unat nx + j < length (log_cells r)
      then AppReq leader to nx (m\<lparr>aeEntries := (aeEntries m)[j := log_cells r ! (unat nx + j)]\<rparr>)
      else AppReq leader to nx m)"
| "reread j r p = p"

fun sender :: "packet \<Rightarrow> u64 option" where
  "sender (AppReq leader to nx m) = Some leader"
| "sender p = None"

definition remove_nth :: "nat \<Rightarrow> 'a list \<Rightarrow> 'a list" where
  "remove_nth k xs = take k xs @ drop (Suc k) xs"

definition set_node :: "u64 \<Rightarrow> raft \<Rightarrow> cluster \<Rightarrow> cluster" where
  "set_node i r c = c\<lparr>nodes := map_set i r (nodes c)\<rparr>"

definition send :: "packet list \<Rightarrow> cluster \<Rightarrow> cluster" where
  "send ps c = c\<lparr>net := net c @ ps\<rparr>"

definition with_node :: "u64 \<Rightarrow> cluster \<Rightarrow> (raft \<Rightarrow> cluster go) \<Rightarrow> cluster go" where
  "with_node i c f = (case map_of (nodes c) i of None \<Rightarrow> Ret c | Some r \<Rightarrow> f r)"

fun arrive :: "time \<Rightarrow> packet \<Rightarrow> cluster \<Rightarrow> cluster go" where
  "arrive now (VoteReq e to m) c =
     with_node to c (\<lambda>r. case RequestVote_run now m r of
         (r', Inl err) \<Rightarrow> Ret (set_node to r' c)
       | (r', Inr reply) \<Rightarrow> Ret (send [VoteRep e to reply] (set_node to r' c)))"
| "arrive now (VoteRep e from reply) c =
     (if e < length (elections c) then
        (let el = elections c ! e
         in with_node (elNode el) c (\<lambda>r.
              case startElection_reply now (elTerm el) reply (elVotes el) r of
                (votes', r') \<Rightarrow>
                  Ret (set_node (elNode el) r' (c\<lparr>elections := (elections c)[e := el\<lparr>elVotes := votes'\<rparr>]\<rparr>))))
      else Ret c)"
| "arrive now (AppReq leader to nx m) c =
     with_node to c (\<lambda>r. bind_go (AppendEntries_run now m r) (\<lambda>(r', res). case res of
         Inl err \<Rightarrow> Ret (set_node to r' c)
       | Inr reply \<Rightarrow>
           Ret (send [AppRep leader to nx (length (aeEntries m)) (aeTerm m) reply] (set_node to r' c))))"
| "arrive now (AppRep leader from nx k t reply) c =
     with_node leader c (\<lambda>r. bind_go (broadcastMsg_reply now from nx k t reply r)
       (\<lambda>r'. Ret (set_node leader r' c)))"

fun cluster_event :: "event \<Rightarrow> cluster \<Rightarrow> cluster go" where
  "cluster_event (Timeout now t i) c =
     with_node i c (\<lambda>r. if runElectionTimer_tick now t r = Elect then
        (case startElection now (\<lambda>_. False) r of (et, ms, r') \<Rightarrow>
           Ret (send (map (\<lambda>(p, m). VoteReq (length (elections c)) p m) ms)
             (set_node i r'
               (c\<lparr>elections := elections c @ [\<lparr>elNode = i, elTerm = et, elVotes = 1\<rparr>]\<rparr>))))
        else Ret c)"
| "cluster_event (Arrive now k) c =
     (if k < length (net c) then arrive now (net c ! k) (c\<lparr>net := remove_nth k (net c)\<rparr>) else Ret c)"
| "cluster_event (Lose k) c = Ret (c\<lparr>net := remove_nth k (net c)\<rparr>)"
| "cluster_event (Heartbeat i p) c =
     with_node i c (\<lambda>r. if isLeader r then
        bind_go (broadcastMsg_send p (currentTerm r) r)
          (\<lambda>(m, nx). Ret (send [AppReq i p nx m] c))
        else Ret c)"
| "cluster_event (ClientSubmit i kv) c =
     with_node i c (\<lambda>r. bind_go (Submit (Some kv) r)
       (\<lambda>(ok, r'). Ret ((set_node i r' c)\<lparr>submitted := kv # submitted c\<rparr>)))"
| "cluster_event (Apply i) c =
     with_node i c (\<lambda>r. case commitChannel_iter r of
         Ret (Some (cs, r')) \<Rightarrow> Ret ((set_node i r' c)\<lparr>applied := applied c @ [(i, cs)]\<rparr>)
       | Panic e \<Rightarrow> Panic e
       | _ \<Rightarrow> Ret c)"
| "cluster_event (Stop i) c =
     with_node i c (\<lambda>r. bind_go (Raft_Shutdown r) (\<lambda>r'. Ret (set_node i r' c)))"
| "cluster_event (Reread k j) c =
     (if k < length (net c) then
        (case sender (net c ! k) of
           None \<Rightarrow> Ret c
         | Some i \<Rightarrow> with_node i c (\<lambda>r. Ret (c\<lparr>net := (net c)[k := reread j r (net c ! k)]\<rparr>)))
      else Ret c)"

fun cluster_run :: "event list \<Rightarrow> cluster \<Rightarrow> cluster go" where
  "cluster_run [] c = Ret c"
| "cluster_run (e # es) c = bind_go (cluster_event e c) (cluster_run es)"

text \<open>A fresh cluster: every node just constructed, nothing in flight.\<close>

definition fresh :: "cluster \<Rightarrow> bool" where
  "fresh c \<longleftrightarrow> (\<forall>(i, r) \<in> set (nodes c). \<exists>ps k. NewRaftProtocol i ps k = Inr r) \<and>
     elections c = [] \<and> net c = [] \<and> submitted c = [] \<and> applied c = []"

section \<open>Only submitted commands are applied\<close>

definition from_clients :: "KeyValuePair set \<Rightarrow> LogEntry list \<Rightarrow> bool" where
  "from_clients S es \<longleftrightarrow> (\<forall>e \<in> set es. eCommand e \<in> Some ` S)"

fun packet_valid :: "KeyValuePair set \<Rightarrow> packet \<Rightarrow> bool" where
  "packet_valid S (AppReq leader to nx m) = from_clients S (aeEntries m)"
| "packet_valid S _ = True"

definition cluster_valid :: "cluster \<Rightarrow> bool" where
  "cluster_valid c \<longleftrightarrow>
     (\<forall>i r. map_of (nodes c) i = Some r \<longrightarrow> from_clients (set (submitted c)) (log_cells r)) \<and>
     (\<forall>p \<in> set (net c). packet_valid (set (submitted c)) p) \<and>
     (\<forall>(i, cs) \<in> set (applied c). \<forall>ce \<in> set cs. ceCommand ce \<in> set (submitted c))"

lemma from_clients_mono: "from_clients S es \<Longrightarrow> S \<subseteq> T \<Longrightarrow> from_clients T es"
  by (auto simp: from_clients_def)

lemma from_clients_subset: "from_clients S es \<Longrightarrow> set es' \<subseteq> set es \<Longrightarrow> from_clients S es'"
  by (auto simp: from_clients_def)

lemma packet_valid_mono: "packet_valid S p \<Longrightarrow> S \<subseteq> T \<Longrightarrow> packet_valid T p"
  by (cases p) (auto intro: from_clients_mono)

lemma set_remove_nth: "set (remove_nth k xs) \<subseteq> set xs"
  by (auto simp: remove_nth_def dest: in_set_takeD in_set_dropD)

text \<open>Where the entries of a log come from, method by method.\<close>

lemma append_log_entries:
  "set kept \<subseteq> set (log_cells r) \<Longrightarrow> set (log_cells (append_log kept es r)) \<subseteq> set (log_cells r) \<union> set es"
  using set_drop_subset [of "length kept + length es" "log_cells r"] by (auto simp del: drop_append)

lemma ae_insert_entries: "ae_insert req r = Ret r' \<Longrightarrow> set (log_cells r') \<subseteq> set (log_cells r) \<union> set (aeEntries req)"
proof -
  assume "ae_insert req r = Ret r'"
  then have "r' = r \<or> (\<exists>n k. r' = append_log (take n (log_cells r)) (drop k (aeEntries req)) r)"
    by (auto simp: ae_insert_def go_simps bind_go_Ret_iff simp del: take_append split: if_splits prod.splits)
  then show ?thesis
    using append_log_entries [OF set_take_subset] set_drop_subset [of _ "aeEntries req"] by blast
qed

lemma AppendEntries_locked_entries:
  "AppendEntries_locked now t req r = Ret (r', ok) \<Longrightarrow>
     set (log_cells r') \<subseteq> set (log_cells r) \<union> set (aeEntries req)"
  by (force simp: AppendEntries_locked_def Let_def bind_go_Ret_iff split: if_splits
      dest!: ae_insert_entries ae_commit_Ret)

lemma AppendEntries_run_entries:
  assumes "AppendEntries_run now req r = Ret (r', res)"
  shows "set (log_cells r') \<subseteq> set (log_cells r) \<union> set (aeEntries req)"
proof (cases "state r \<noteq> Dead \<and> (term_outdated (aeTerm req) (currentTerm r) \<or> aeTerm req = currentTerm r)")
  case True
  then obtain ok where
    "AppendEntries_locked now (aeTerm req) req (adopt now (aeTerm req) r) = Ret (r', ok)"
    using assms by (auto simp: AppendEntries_run_current bind_go_Ret_iff)
  from AppendEntries_locked_entries [OF this] show ?thesis by simp
next
  case False
  then show ?thesis
    using assms by (cases "state r = Dead") (auto simp: AppendEntries_run_dead AppendEntries_run_stale)
qed

lemma commit_loop_log: "stateLog (commit_loop i r) = stateLog r"
  by (induction i r rule: commit_loop.induct) (subst commit_loop.simps, simp)

lemma commit_loop_tail: "logTail (commit_loop i r) = logTail r"
  by (induction i r rule: commit_loop.induct) (subst commit_loop.simps, simp)

lemma broadcastMsg_reply_log:
  "broadcastMsg_reply now p nx k t reply r = Ret r' \<Longrightarrow> stateLog r' = stateLog r \<and> logTail r' = logTail r"
  by (auto simp: broadcastMsg_reply_def broadcastMsg_locked_def broadcastMsg_success_def Let_def
      bind_go_Ret_iff commit_loop_log commit_loop_tail split: if_splits)

lemma broadcastMsg_send_entries:
  "broadcastMsg_send p t r = Ret (m, nx) \<Longrightarrow> set (aeEntries m) \<subseteq> set (stateLog r)"
  by (auto simp: broadcastMsg_send_def Let_def bind_go_Ret_iff go_slice_from_def split: if_splits
      dest: in_set_dropD)

lemma broadcastMsg_send_cells: "broadcastMsg_send p t r = Ret (m, nx) \<Longrightarrow> set (aeEntries m) \<subseteq> set (log_cells r)"
  by (auto dest: broadcastMsg_send_entries)

lemma Submit_entries:
  "Submit (Some kv) r = Ret (ok, r') \<Longrightarrow>
     r' = r \<or> r' = append_log (stateLog r) [\<lparr>eTerm = currentTerm r, eCommand = Some kv\<rparr>] r"
  by (auto simp: Submit_def split: if_splits)

lemma Submit_cells:
  "Submit (Some kv) r = Ret (ok, r') \<Longrightarrow>
     set (log_cells r') \<subseteq> set (log_cells r) \<union> {\<lparr>eTerm = currentTerm r, eCommand = Some kv\<rparr>}"
  using append_log_entries [of "stateLog r" r "[\<lparr>eTerm = currentTerm r, eCommand = Some kv\<rparr>]"] Submit_entries [of kv r ok r']
  by (auto simp del: append_log_simps)

lemma commitChannel_iter_commands:
  assumes "commitChannel_iter r = Ret (Some (cs, r'))" "from_clients S (log_cells r)" "ce \<in> set cs"
  shows "ceCommand ce \<in> S"
proof -
  from assms(1) obtain c where "commitChannel_round (r\<lparr>commitReadyChan := c\<rparr>) = Ret (cs, r')"
    by (rule commitChannel_iter_Ret)
  from commitChannel_round_Ret [OF this] obtain a b where
    "map (\<lambda>c. Some (ceCommand c)) cs = map eCommand (take b (drop a (log_cells r)))"
    by (auto simp del: drop_append take_append)
  then have "Some (ceCommand ce) \<in> set (map eCommand (take b (drop a (log_cells r))))"
    using assms(3) by (metis (no_types, lifting) imageI list.set_map)
  then show ?thesis
    using assms(2) by (auto simp: from_clients_def simp del: drop_append take_append set_append dest!: in_set_takeD in_set_dropD)
qed

text \<open>Preservation: a new log for one node, new messages, and the rest as before.\<close>

lemma cluster_valid_set_node:
  "cluster_valid c \<Longrightarrow> from_clients (set (submitted c)) (log_cells r) \<Longrightarrow> cluster_valid (set_node i r c)"
  by (auto simp: cluster_valid_def set_node_def)

lemma cluster_valid_send:
  "cluster_valid c \<Longrightarrow> \<forall>p \<in> set ps. packet_valid (set (submitted c)) p \<Longrightarrow> cluster_valid (send ps c)"
  by (auto simp: cluster_valid_def send_def)

lemma cluster_valid_net:
  "cluster_valid c \<Longrightarrow> set ps \<subseteq> set (net c) \<Longrightarrow> cluster_valid (c\<lparr>net := ps\<rparr>)"
  by (auto simp: cluster_valid_def)

lemma cluster_valid_elections: "cluster_valid (c\<lparr>elections := es\<rparr>) = cluster_valid c"
  by (simp add: cluster_valid_def)

lemma node_valid:
  "cluster_valid c \<Longrightarrow> map_of (nodes c) i = Some r \<Longrightarrow> from_clients (set (submitted c)) (log_cells r)"
  by (simp add: cluster_valid_def)

lemma submitted_simps [simp]:
  "submitted (set_node i r c) = submitted c" "submitted (send ps c) = submitted c"
  by (simp_all add: set_node_def send_def)

lemma set_node_submitted: "(set_node i r c)\<lparr>submitted := xs\<rparr> = set_node i r (c\<lparr>submitted := xs\<rparr>)"
  by (cases c) (simp add: set_node_def)

text \<open>The packets, one kind after the other.\<close>

lemma VoteReq_valid:
  assumes "cluster_valid c" "arrive now (VoteReq e to m) c = Ret c'"
  shows "cluster_valid c'"
proof (cases "map_of (nodes c) to")
  case (Some r)
  obtain r' res where run: "RequestVote_run now m r = (r', res)" by (cases "RequestVote_run now m r")
  have "cluster_valid (set_node to r' c)"
    using node_valid [OF assms(1) Some] RequestVote_run_frame [OF run] assms(1)
    by (intro cluster_valid_set_node) auto
  then show ?thesis
    using assms(2) Some run by (cases res) (auto simp: with_node_def intro!: cluster_valid_send)
qed (use assms in \<open>simp add: with_node_def\<close>)

lemma VoteRep_valid:
  assumes "cluster_valid c" "arrive now (VoteRep e src reply) c = Ret c'"
  shows "cluster_valid c'"
proof (cases "e < length (elections c) \<and> map_of (nodes c) (elNode (elections c ! e)) \<noteq> None")
  case True
  then obtain r where r: "map_of (nodes c) (elNode (elections c ! e)) = Some r" by auto
  obtain v' r' where rep: "startElection_reply now (elTerm (elections c ! e)) reply
      (elVotes (elections c ! e)) r = (v', r')" by fastforce
  have "from_clients (set (submitted c)) (log_cells r')"
    using node_valid [OF assms(1) r] startElection_reply_log [OF rep] by simp
  moreover have "c' = set_node (elNode (elections c ! e)) r'
      (c\<lparr>elections := (elections c)[e := (elections c ! e)\<lparr>elVotes := v'\<rparr>]\<rparr>)"
    using assms(2) True r rep by (simp add: with_node_def Let_def)
  ultimately show ?thesis
    using assms(1) by (auto intro!: cluster_valid_set_node simp: cluster_valid_elections)
next
  case False
  then show ?thesis
    using assms by (cases "e < length (elections c)") (auto simp: with_node_def Let_def)
qed

lemma AppReq_valid:
  assumes "cluster_valid c" "packet_valid (set (submitted c)) (AppReq leader to nx m)"
    and "arrive now (AppReq leader to nx m) c = Ret c'"
  shows "cluster_valid c'"
proof (cases "map_of (nodes c) to")
  case (Some r)
  from assms(3) Some obtain r' res where run: "AppendEntries_run now m r = Ret (r', res)"
    by (cases "AppendEntries_run now m r") (auto simp: with_node_def)
  have "from_clients (set (submitted c)) (log_cells r')"
    using AppendEntries_run_entries [OF run] node_valid [OF assms(1) Some] assms(2)
    by (auto simp: from_clients_def)
  then have "cluster_valid (set_node to r' c)" using assms(1) by (intro cluster_valid_set_node)
  then show ?thesis
    using assms(3) Some run by (cases res) (auto simp: with_node_def intro!: cluster_valid_send)
qed (use assms in \<open>simp add: with_node_def\<close>)

lemma arrive_valid:
  assumes "cluster_valid c" "packet_valid (set (submitted c)) p" "arrive now p c = Ret c'"
  shows "cluster_valid c'"
  using assms
proof (cases p)
  case (AppRep leader src nx k t reply)
  then show ?thesis
    using assms
    by (auto simp: with_node_def bind_go_Ret_iff node_valid split: option.splits
        dest!: broadcastMsg_reply_log intro!: cluster_valid_set_node)
qed (use assms VoteReq_valid VoteRep_valid AppReq_valid in blast)+

text \<open>The events that submit and apply commands.\<close>

lemma ClientSubmit_valid:
  assumes "cluster_valid c" "cluster_event (ClientSubmit i kv) c = Ret c'"
  shows "cluster_valid c'"
proof (cases "map_of (nodes c) i")
  case (Some r)
  from assms(2) Some obtain ok r' where
    sub: "Submit (Some kv) r = Ret (ok, r')" and c': "c' = (set_node i r' c)\<lparr>submitted := kv # submitted c\<rparr>"
    by (auto simp: with_node_def bind_go_Ret_iff)
  have "from_clients (set (kv # submitted c)) (log_cells r')"
    using Submit_cells [OF sub] node_valid [OF assms(1) Some] by (auto simp: from_clients_def)
  moreover have "cluster_valid (c\<lparr>submitted := kv # submitted c\<rparr>)"
    using assms(1) by (auto simp: cluster_valid_def intro: from_clients_mono packet_valid_mono)
  ultimately have "cluster_valid (set_node i r' (c\<lparr>submitted := kv # submitted c\<rparr>))"
    by (intro cluster_valid_set_node) simp_all
  then show ?thesis by (simp add: c' set_node_submitted)
qed (use assms in \<open>simp add: with_node_def\<close>)

lemma Apply_valid:
  assumes "cluster_valid c" "cluster_event (Apply i) c = Ret c'"
  shows "cluster_valid c'"
proof (cases "\<exists>r cs r'. map_of (nodes c) i = Some r \<and> commitChannel_iter r = Ret (Some (cs, r'))")
  case True
  then obtain r cs r' where r: "map_of (nodes c) i = Some r" "commitChannel_iter r = Ret (Some (cs, r'))"
    by blast
  have "\<forall>ce \<in> set cs. ceCommand ce \<in> set (submitted c)"
    using commitChannel_iter_commands [OF r(2) node_valid [OF assms(1) r(1)]] by blast
  moreover have "cluster_valid (set_node i r' c)"
    using node_valid [OF assms(1) r(1)] commitChannel_iter_log [OF r(2)] assms(1)
    by (intro cluster_valid_set_node) simp_all
  ultimately have "cluster_valid ((set_node i r' c)\<lparr>applied := applied c @ [(i, cs)]\<rparr>)"
    by (auto simp: cluster_valid_def set_node_def)
  then show ?thesis using assms(2) r by (simp add: with_node_def)
next
  case False
  then have "c' = c"
    using assms(2) by (auto simp: with_node_def split: option.splits go.splits prod.splits)
  then show ?thesis using assms(1) by simp
qed

lemma reread_valid:
  "packet_valid S p \<Longrightarrow> from_clients S (log_cells r) \<Longrightarrow> packet_valid S (reread j r p)"
  using set_update_subset_insert nth_mem [of _ "log_cells r"]
  by (cases p) (fastforce simp: from_clients_def simp del: set_append)+

lemma Reread_valid:
  assumes "cluster_valid c" "cluster_event (Reread k j) c = Ret c'"
  shows "cluster_valid c'"
proof -
  have "c' = c \<or> (\<exists>i r. map_of (nodes c) i = Some r \<and> k < length (net c) \<and>
      c' = c\<lparr>net := (net c)[k := reread j r (net c ! k)]\<rparr>)"
    using assms(2) by (auto simp: with_node_def split: if_splits option.splits)
  then show ?thesis
  proof
    assume "\<exists>i r. map_of (nodes c) i = Some r \<and> k < length (net c) \<and>
      c' = c\<lparr>net := (net c)[k := reread j r (net c ! k)]\<rparr>"
    then obtain i r where r: "map_of (nodes c) i = Some r" "k < length (net c)"
      and c': "c' = c\<lparr>net := (net c)[k := reread j r (net c ! k)]\<rparr>" by blast
    have "packet_valid (set (submitted c)) (reread j r (net c ! k))"
      using assms(1) r by (intro reread_valid node_valid) (auto simp: cluster_valid_def)
    then show ?thesis
      using assms(1) c' by (auto simp: cluster_valid_def dest!: subsetD [OF set_update_subset_insert])
  qed (use assms(1) in simp)
qed

lemma cluster_event_valid:
  assumes "cluster_valid c" "cluster_event e c = Ret c'"
  shows "cluster_valid c'"
proof (cases e)
  case (Timeout now t i)
  then show ?thesis
    using assms
    by (auto simp: with_node_def node_valid cluster_valid_elections split: option.splits if_splits prod.splits
        dest!: startElection_log intro!: cluster_valid_send cluster_valid_set_node)
next
  case (Arrive now k)
  let ?c = "c\<lparr>net := remove_nth k (net c)\<rparr>"
  have "cluster_valid ?c" using assms(1) set_remove_nth by (rule cluster_valid_net)
  moreover have "packet_valid (set (submitted ?c)) (net c ! k)" if "k < length (net c)"
    using assms(1) that by (simp add: cluster_valid_def)
  ultimately show ?thesis
    using assms Arrive arrive_valid [of ?c "net c ! k" now c'] by (simp split: if_splits)
next
  case (Lose k)
  then show ?thesis using assms(2) cluster_valid_net [OF assms(1) set_remove_nth] by auto
next
  case (Heartbeat i p)
  then show ?thesis
    using assms
    by (auto simp: with_node_def bind_go_Ret_iff split: option.splits if_splits simp del: set_append
        dest!: broadcastMsg_send_cells intro!: cluster_valid_send intro: from_clients_subset [OF node_valid])
next
  case (Stop i)
  then show ?thesis
    using assms
    by (auto simp: with_node_def bind_go_Ret_iff node_valid split: option.splits
        dest!: Raft_Shutdown_log intro!: cluster_valid_set_node)
qed (use assms ClientSubmit_valid Apply_valid Reread_valid in blast)+

lemma cluster_run_valid: "cluster_run es c = Ret c' \<Longrightarrow> cluster_valid c \<Longrightarrow> cluster_valid c'"
  by (induction es arbitrary: c) (auto simp: bind_go_Ret_iff dest: cluster_event_valid)

lemma fresh_valid: "fresh c \<Longrightarrow> cluster_valid c"
  unfolding fresh_def cluster_valid_def
  by (auto simp: from_clients_def NewRaftProtocol_def split: if_splits dest!: map_of_SomeD)

section \<open>Three nodes\<close>

definition node3 :: "u64 \<Rightarrow> (string, u64) gomap \<Rightarrow> raft" where
  "node3 i ps = \<lparr>raft_id = i, peers = ps, currentTerm = 0, votedFor = MaxUint64, stateLog = [], logTail = [],
     state = Follower, electionResetEvent = 0, nextIndex = [], matchIndex = [], Jitter = True,
     Force = False, Drop = False, commitReadyChan = make_chan 32, numberPeers = 2,
     volatileState = \<lparr>commitIndex = MaxUint64, lastApplied = MaxUint64\<rparr>, spawned = [ElectionTimer]\<rparr>"

definition cluster3 :: cluster where
  "cluster3 = \<lparr>nodes = [(1, node3 1 [(''b'', 2), (''c'', 3)]), (2, node3 2 [(''a'', 1), (''c'', 3)]),
       (3, node3 3 [(''a'', 1), (''b'', 2)])],
     elections = [], net = [], submitted = [], applied = []\<rparr>"

lemma fresh_cluster3: "fresh cluster3"
  by (auto simp: fresh_def cluster3_def node3_def NewRaftProtocol_def)

definition first_timer :: timer where
  "first_timer = \<lparr>timeoutDuration = 150, termStarted = 0, oldState = Follower\<rparr>"

text \<open>Nodes 1 and 3 time out together; node 2 grants its vote to both.\<close>

definition split_vote :: "event list" where
  "split_vote = [Timeout 200 first_timer 1, Timeout 200 first_timer 3,
     Arrive 201 0, Arrive 202 2, Arrive 203 2, Arrive 204 2]"

end
