(* ===== verification/Raft_CatchUp.thy ===== *)
theory Raft_CatchUp
  imports Raft_Replication
begin

text \<open>
  The promise of the README that a server that is behind "will eventually catch up", for one leader
  and one follower that can talk to each other: a replication round is one \<open>broadcastMsg\<close> of the
  leader whose remote call is answered by the \<open>AppendEntries\<close> handler of the follower. After at most
  \<open>nextIndex + 1\<close> rounds the log of the leader is a prefix of the log of the follower.
\<close>

definition replicate_round :: "time \<Rightarrow> u64 \<Rightarrow> raft \<Rightarrow> raft \<Rightarrow> (raft \<times> raft) go" where
  "replicate_round now p l f =
     bind_go (broadcastMsg_send p (currentTerm l) l)
       (\<lambda>(req, next). bind_go (AppendEntries_run now req f)
          (\<lambda>(f', res). case res of
             Inl e \<Rightarrow> Ret (l, f')
           | Inr reply \<Rightarrow>
               bind_go (broadcastMsg_reply now p next (length (aeEntries req)) (currentTerm l) reply l)
                 (\<lambda>l'. Ret (l', f'))))"

fun replicate_rounds :: "nat \<Rightarrow> time \<Rightarrow> u64 \<Rightarrow> raft \<Rightarrow> raft \<Rightarrow> (raft \<times> raft) go" where
  "replicate_rounds 0 now p l f = Ret (l, f)"
| "replicate_rounds (Suc k) now p l f =
     bind_go (replicate_round now p l f) (\<lambda>(l', f'). replicate_rounds k now p l' f')"

text \<open>A round is \<open>broadcastMsg\<close> with the handler of the follower behind the remote call.\<close>

definition handler_of :: "time \<Rightarrow> raft \<Rightarrow> u64 \<Rightarrow> AppendEntriesMsg \<Rightarrow> AppendEntriesReply rpc" where
  "handler_of now f p req =
     (case AppendEntries_run now req f of
        Ret (_, Inr reply) \<Rightarrow> RpcReply reply
      | Ret (_, Inl e) \<Rightarrow> RpcFailed e
      | _ \<Rightarrow> RpcFailed ''unavailable'')"

lemma replicate_round_broadcast:
  assumes "replicate_round now p l f = Ret (l', f')"
  shows "broadcastMsg now (handler_of now f) p (currentTerm l) l = Ret (l', None)"
proof (cases "broadcastMsg_send p (currentTerm l) l")
  case send: (Ret x)
  obtain req nx where x: "x = (req, nx)" by (cases x)
  show ?thesis
  proof (cases "AppendEntries_run now req f")
    case run: (Ret y)
    obtain f1 res where y: "y = (f1, res)" by (cases y)
    show ?thesis
      using assms send run unfolding x y
      by (cases res) (auto simp: replicate_round_def broadcastMsg_def handler_of_def bind_go_Ret_iff)
  qed (use assms send x in \<open>simp_all add: replicate_round_def\<close>)
qed (use assms in \<open>simp_all add: replicate_round_def\<close>)

section \<open>One round\<close>

text \<open>What holds between a leader and a reachable follower before each round.\<close>

definition replicating :: "u64 \<Rightarrow> raft \<Rightarrow> raft \<Rightarrow> bool" where
  "replicating p l f \<longleftrightarrow>
     state l = Leader \<and> currentTerm l \<noteq> MaxUint64 \<and> log_fits l \<and> can_send l \<and>
     unat (map_get0 (nextIndex l) p) \<le> length (stateLog l) \<and>
     state f \<noteq> Dead \<and> log_fits f \<and> can_send f \<and>
     (term_outdated (currentTerm l) (currentTerm f) \<or> currentTerm l = currentTerm f) \<and>
     logs_match (stateLog f) (stateLog l)"

abbreviation request_to :: "u64 \<Rightarrow> raft \<Rightarrow> AppendEntriesMsg" where
  "request_to p l \<equiv>
     \<lparr>aeTerm = currentTerm l, aeLeaderId = raft_id l, aePrevLogIndex = map_get0 (nextIndex l) p - 1,
      aePrevLogTerm = (if map_get0 (nextIndex l) p = 0 then MaxUint64
                       else eTerm (stateLog l ! (unat (map_get0 (nextIndex l) p) - 1))),
      aeEntries = drop (unat (map_get0 (nextIndex l) p)) (stateLog l),
      aeLeaderCommit = commit_index l\<rparr>"

lemma AppendEntries_locked_returns:
  assumes "log_fits r" "can_send r"
  shows "\<exists>r' ok. AppendEntries_locked now t req r = Ret (r', ok)"
proof (cases "prev_matches req r")
  case True
  let ?r1 = "merged req (r\<lparr>electionResetEvent := now\<rparr>)"
  have "can_send ?r1" using assms(2) by (simp add: can_send_def merged_def)
  then show ?thesis
    using AppendEntries_locked_accept [OF assms(1) True, of now t] ae_commit_returns [of ?r1 t req]
    by auto
next
  case False
  then show ?thesis by (auto simp: AppendEntries_locked_reject)
qed

lemma AppendEntries_run_returns:
  assumes "log_fits r" "can_send r"
  shows "\<exists>r' res. AppendEntries_run now req r = Ret (r', res)"
proof (cases "state r \<noteq> Dead \<and> (term_outdated (aeTerm req) (currentTerm r) \<or> aeTerm req = currentTerm r)")
  case True
  have "can_send (adopt now (aeTerm req) r)" using assms(2) by (simp add: can_send_def)
  then obtain r' ok where
    "AppendEntries_locked now (aeTerm req) req (adopt now (aeTerm req) r) = Ret (r', ok)"
    using AppendEntries_locked_returns [of "adopt now (aeTerm req) r"] assms(1) by force
  then show ?thesis using True by (simp add: AppendEntries_run_current)
next
  case False
  then show ?thesis by (cases "state r = Dead") (auto simp: AppendEntries_run_dead AppendEntries_run_stale)
qed

text \<open>The answer to a message of the current or a newer term.\<close>

lemma AppendEntries_run_accepted:
  assumes "state r \<noteq> Dead" "term_outdated (aeTerm req) (currentTerm r) \<or> aeTerm req = currentTerm r"
    and "log_fits r" "AppendEntries_run now req r = Ret (r', res)"
  shows "res = Inr \<lparr>aerTerm = aeTerm req, aerSuccess = prev_matches req r\<rparr> \<and>
    state r' = Follower \<and> currentTerm r' = aeTerm req \<and> last_applied r' = last_applied r \<and>
    stateLog r' = (if prev_matches req r
      then merge_log (stateLog r) (count_of (aePrevLogIndex req)) (aeEntries req) else stateLog r) \<and>
    commit_index r' = (if prev_matches req r
      then commit_value (aeLeaderCommit req) (commit_index r) (length (stateLog r')) else commit_index r)"
proof -
  from assms(4) obtain ok where
    lock: "AppendEntries_locked now (aeTerm req) req (adopt now (aeTerm req) r) = Ret (r', ok)"
    and res: "res = Inr \<lparr>aerTerm = aeTerm req, aerSuccess = ok\<rparr>"
    by (auto simp: AppendEntries_run_current [OF assms(1,2)] bind_go_Ret_iff)
  have "log_fits (adopt now (aeTerm req) r)" using assms(3) by simp
  from AppendEntries_locked_Ret [OF this lock] res currentTerm_adopt [OF assms(2), of now]
  show ?thesis by simp
qed

lemma prev_matches_merged:
  assumes "prev_matches req r" "log_fits r'"
    and pre: "take (count_of (aePrevLogIndex req)) (stateLog r') = take (count_of (aePrevLogIndex req)) (stateLog r)"
  shows "prev_matches (req\<lparr>aeEntries := es\<rparr>) r'"
proof (cases "aePrevLogIndex req = MaxUint64")
  case False
  let ?i = "unat (aePrevLogIndex req)"
  have c: "count_of (aePrevLogIndex req) = Suc ?i" using False by (rule count_of_Suc)
  have lt: "?i < length (stateLog r)" using prev_matches_count [OF assms(1)] by (simp add: c)
  then have lt': "?i < length (stateLog r')" using arg_cong [OF pre, of length] by (simp add: c)
  have "stateLog r' ! ?i = stateLog r ! ?i"
    using arg_cong [OF pre, of "\<lambda>xs. xs ! ?i"] by (simp add: c)
  moreover have "aePrevLogIndex req < log_len r'"
    using lt' assms(2) by (simp add: word_less_nat_alt unat_of_nat_small log_fits_def)
  ultimately show ?thesis using assms(1) False by (simp add: prev_matches_def)
qed (simp add: prev_matches_def)

lemma AppendEntries_run_again:
  assumes fits: "log_fits r"
    and run: "AppendEntries_run now req r = Ret (r1, Inr \<lparr>aerTerm = aeTerm req, aerSuccess = True\<rparr>)"
    and r1: "log_fits r1" "can_send r1"
  shows "\<exists>r2. AppendEntries_run now' (req\<lparr>aeEntries := take j (aeEntries req)\<rparr>) r1 =
      Ret (r2, Inr \<lparr>aerTerm = aeTerm req, aerSuccess = True\<rparr>) \<and>
    stateLog r2 = stateLog r1 \<and> commit_index r2 = commit_index r1"
proof -
  let ?n = "count_of (aePrevLogIndex req)" and ?req = "req\<lparr>aeEntries := take j (aeEntries req)\<rparr>"
  from AppendEntries_run_Ret [OF fits run] have pm: "prev_matches req r"
    and st: "state r1 = Follower" "currentTerm r1 = aeTerm req"
    and log: "stateLog r1 = merge_log (stateLog r) ?n (aeEntries req)"
    and com: "commit_index r1 = commit_value (aeLeaderCommit req) (commit_index r) (length (stateLog r1))"
    by auto
  have n: "?n \<le> length (stateLog r)" by (rule prev_matches_count [OF pm])
  have again: "prev_matches ?req r1"
    using pm r1(1) by (rule prev_matches_merged) (simp add: log merge_log_prefix n)
  from AppendEntries_run_returns [OF r1] obtain r2 res where
    ret: "AppendEntries_run now' ?req r1 = Ret (r2, res)" by blast
  have "state r1 \<noteq> Dead" "term_outdated (aeTerm ?req) (currentTerm r1) \<or> aeTerm ?req = currentTerm r1"
    using st by simp_all
  from AppendEntries_run_accepted [OF this r1(1) ret] again
  have "res = Inr \<lparr>aerTerm = aeTerm req, aerSuccess = True\<rparr>"
    and log2: "stateLog r2 = merge_log (stateLog r1) ?n (take j (aeEntries req))"
    and com2: "commit_index r2 = commit_value (aeLeaderCommit req) (commit_index r1) (length (stateLog r2))"
    by simp_all
  moreover have "stateLog r2 = stateLog r1" unfolding log2 log by (rule merge_log_stale [OF n])
  moreover have "commit_index r2 = commit_index r1"
    using com com2 calculation(4) by (simp add: commit_value_idem)
  ultimately show ?thesis using ret by blast
qed

lemma prev_matches_request:
  assumes "replicating p l f" "prev_matches (request_to p l) f"
  defines "n \<equiv> unat (map_get0 (nextIndex l) p)"
  shows "n \<le> length (stateLog f)" "take n (stateLog f) = take n (stateLog l)"
proof -
  have count: "count_of (map_get0 (nextIndex l) p - 1) = n" by (simp add: count_of_def n_def)
  show le: "n \<le> length (stateLog f)"
    using prev_matches_count [OF assms(2)] count by simp
  show "take n (stateLog f) = take n (stateLog l)"
  proof (cases "n = 0")
    case True
    then show ?thesis by simp
  next
    case False
    then have nz: "map_get0 (nextIndex l) p \<noteq> 0" by (auto simp: n_def)
    then have "unat (map_get0 (nextIndex l) p - 1) = n - 1" by (simp add: n_def unat_minus_one)
    moreover have "map_get0 (nextIndex l) p - 1 \<noteq> MaxUint64" using nz by simp
    ultimately have "eTerm (stateLog f ! (n - 1)) = eTerm (stateLog l ! (n - 1))"
      using assms(2) nz by (simp add: prev_matches_def n_def)
    then show ?thesis
      using logs_match_prefix [of "stateLog f" "stateLog l" n] assms(1) False le
      by (simp add: replicating_def n_def)
  qed
qed

lemma round_success:
  assumes rep: "replicating p l f" and pm: "prev_matches (request_to p l) f"
  shows "\<exists>l' f'. replicate_round now p l f = Ret (l', f') \<and>
    take (length (stateLog l)) (stateLog f') = stateLog l \<and> stateLog l' = stateLog l \<and>
    state l' = Leader \<and> currentTerm f' = currentTerm l \<and>
    map_get0 (nextIndex l') p = log_len l \<and>
    (\<exists>nx n. broadcastMsg_success p nx n (currentTerm l) l = Ret l' \<and> nx + of_nat n = log_len l)"
proof -
  let ?next = "map_get0 (nextIndex l) p" and ?req = "request_to p l"
  from rep have fits: "log_fits l" "log_fits f" and send: "can_send l" "can_send f"
    and n: "unat ?next \<le> length (stateLog l)"
    by (simp_all add: replicating_def)
  obtain f' res where run: "AppendEntries_run now ?req f = Ret (f', res)"
    using AppendEntries_run_returns [OF fits(2) send(2)] by blast
  have alive: "state f \<noteq> Dead"
    and cur: "term_outdated (aeTerm ?req) (currentTerm f) \<or> aeTerm ?req = currentTerm f"
    using rep by (auto simp: replicating_def)
  obtain ok where
    lock: "AppendEntries_locked now (currentTerm l) ?req (adopt now (currentTerm l) f) = Ret (f', ok)"
    and ok: "res = Inr \<lparr>aerTerm = currentTerm l, aerSuccess = ok\<rparr>"
    using run unfolding AppendEntries_run_current [OF alive cur] by (auto simp: bind_go_Ret_iff)
  have "log_fits (adopt now (currentTerm l) f)" using fits(2) by simp
  note locked = AppendEntries_locked_Ret [OF this lock]
  then have res: "res = Inr \<lparr>aerTerm = currentTerm l, aerSuccess = True\<rparr>"
    and log: "stateLog f' = merge_log (stateLog f) (unat ?next) (drop (unat ?next) (stateLog l))"
    using pm ok by (simp_all add: count_of_def)
  have trm: "currentTerm f' = currentTerm l"
    using locked currentTerm_adopt [OF cur, of now] by simp
  have "take (length (stateLog l)) (stateLog f') = stateLog l"
    using merge_log_adopts [of "stateLog f" "stateLog l" "unat ?next"] rep n
      prev_matches_request [OF rep pm] log by (simp add: replicating_def)
  moreover obtain l' where suc:
    "broadcastMsg_success p ?next (length (stateLog l) - unat ?next) (currentTerm l) l = Ret l'"
    using broadcastMsg_success_returns [OF fits(1) send(1)] by blast
  moreover have "?next + of_nat (length (stateLog l) - unat ?next) = log_len l"
    using n by (simp add: of_nat_diff)
  ultimately show ?thesis
    using rep run res trm broadcastMsg_success_Ret [OF fits(1) suc] broadcastMsg_send_Ret [OF fits(1) n]
    by (fastforce simp: replicate_round_def broadcastMsg_reply_def broadcastMsg_locked_def replicating_def)
qed

lemma round_failure:
  assumes rep: "replicating p l f" and pm: "\<not> prev_matches (request_to p l) f"
  shows "\<exists>l' f'. replicate_round now p l f = Ret (l', f') \<and> replicating p l' f' \<and>
    l' = l\<lparr>nextIndex := nextIndex l'\<rparr> \<and>
    Suc (unat (map_get0 (nextIndex l') p)) = unat (map_get0 (nextIndex l) p)"
proof -
  let ?next = "map_get0 (nextIndex l) p" and ?req = "request_to p l"
  from rep have fits: "log_fits l" "log_fits f" and n: "unat ?next \<le> length (stateLog l)"
    by (simp_all add: replicating_def)
  have alive: "state f \<noteq> Dead"
    and cur: "term_outdated (aeTerm ?req) (currentTerm f) \<or> aeTerm ?req = currentTerm f"
    using rep by (auto simp: replicating_def)
  let ?f' = "(adopt now (currentTerm l) f)\<lparr>electionResetEvent := now\<rparr>"
  let ?l' = "l\<lparr>nextIndex := map_set p (?next - 1) (nextIndex l)\<rparr>"
  have nz: "?next \<noteq> 0" using pm by (auto simp: prev_matches_def)
  have run: "AppendEntries_run now ?req f =
      Ret (?f', Inr \<lparr>aerTerm = currentTerm l, aerSuccess = False\<rparr>)"
    using AppendEntries_run_current [OF alive cur, of now]
      AppendEntries_locked_reject [of ?req "adopt now (currentTerm l) f" now "currentTerm l"] pm
    by simp
  have "replicate_round now p l f = Ret (?l', ?f')"
    using rep run broadcastMsg_send_Ret [OF fits(1) n]
    by (simp add: replicate_round_def broadcastMsg_reply_def broadcastMsg_locked_def replicating_def)
  moreover have "Suc (unat (?next - 1)) = unat ?next"
    using nz by (simp add: unat_minus_one unat_gt_0)
  moreover have "replicating p ?l' ?f'"
    using rep currentTerm_adopt [OF cur, of now] n nz
    by (auto simp: replicating_def log_fits_def can_send_def unat_minus_one)
  ultimately show ?thesis by auto
qed

section \<open>Enough rounds\<close>

text \<open>The last round is a success reply, handled by a leader that has only changed its \<open>nextIndex\<close> since.\<close>

definition caught_up :: "u64 \<Rightarrow> raft \<Rightarrow> raft \<Rightarrow> raft \<Rightarrow> bool" where
  "caught_up p l l' f' \<longleftrightarrow>
     take (length (stateLog l)) (stateLog f') = stateLog l \<and> stateLog l' = stateLog l \<and>
     state l' = Leader \<and> currentTerm f' = currentTerm l \<and> map_get0 (nextIndex l') p = log_len l \<and>
     (\<exists>m nx n. broadcastMsg_success p nx n (currentTerm l) (l\<lparr>nextIndex := m\<rparr>) = Ret l' \<and> nx + of_nat n = log_len l)"

lemma caught_up_next: "caught_up p (l\<lparr>nextIndex := m\<rparr>) l' f' = caught_up p l l' f'"
  by (simp add: caught_up_def)

lemma catch_up:
  assumes "replicating p l f"
  shows "\<exists>k \<le> Suc (unat (map_get0 (nextIndex l) p)). \<exists>l' f'.
    replicate_rounds k now p l f = Ret (l', f') \<and> caught_up p l l' f'"
  using assms
proof (induction "unat (map_get0 (nextIndex l) p)" arbitrary: l f rule: less_induct)
  case less
  show ?case
  proof (cases "prev_matches (request_to p l) f")
    case True
    from round_success [OF less.prems True, of now] obtain l' f' nx n where
      "replicate_round now p l f = Ret (l', f')"
      "broadcastMsg_success p nx n (currentTerm l) (l\<lparr>nextIndex := nextIndex l\<rparr>) = Ret l'" "nx + of_nat n = log_len l"
      "take (length (stateLog l)) (stateLog f') = stateLog l" "stateLog l' = stateLog l" "state l' = Leader"
      "currentTerm f' = currentTerm l" "map_get0 (nextIndex l') p = log_len l" by auto
    moreover from this have "caught_up p l l' f'"
      unfolding caught_up_def by (intro conjI exI [of _ "nextIndex l"] exI [of _ nx] exI [of _ n]) simp_all
    ultimately show ?thesis by (intro exI [of _ 1]) auto
  next
    case False
    from round_failure [OF less.prems False, of now] obtain l1 f1 where
      r1: "replicate_round now p l f = Ret (l1, f1)" and rep1: "replicating p l1 f1"
      and eq: "l1 = l\<lparr>nextIndex := nextIndex l1\<rparr>"
      and dec: "Suc (unat (map_get0 (nextIndex l1) p)) = unat (map_get0 (nextIndex l) p)"
      by blast
    from dec have "unat (map_get0 (nextIndex l1) p) < unat (map_get0 (nextIndex l) p)" by simp
    from less.hyps [OF this rep1] obtain k l' f' where
      k: "k \<le> Suc (unat (map_get0 (nextIndex l1) p))" "replicate_rounds k now p l1 f1 = Ret (l', f')"
      and "caught_up p l1 l' f'" by blast
    then have "caught_up p l l' f'" by (metis eq caught_up_next)
    then show ?thesis using k r1 dec by (intro exI [of _ "Suc k"]) auto
  qed
qed

end
