(* ===== verification/Storage.thy ===== *)
theory Storage
  imports Go_Prelude
begin

text \<open>
  The key-value stores of \<open>pkg/server/storage.go\<close>: the interface \<open>Storage\<close> as the locale
  \<open>kv_storage\<close>, its in-memory implementation \<open>VolatileStorage\<close> (whose methods accept a nil receiver)
  and \<open>FileStorage\<close>, which has the reading and writing methods but not the whole interface.
  Both types hold one Go map from keys to byte slices under a mutex, so each method is one atomic
  function on that map.
\<close>

section \<open>VolatileStorage\<close>

record ValueRespond =
  Val :: bytes
  Success :: bool

record VolatileStorage =
  storage :: "(string, bytes) gomap"

definition NewVolatileStorage :: VolatileStorage where
  "NewVolatileStorage = \<lparr>storage = []\<rparr>"

text \<open>A method value on a nil pointer is \<open>None\<close>; a missing key yields the nil slice and \<open>false\<close>.\<close>

definition lookup_or_nil :: "(string, bytes) gomap \<Rightarrow> string \<Rightarrow> bytes \<times> bool" where
  "lookup_or_nil m key = (case map_of m key of None \<Rightarrow> ([], False) | Some v \<Rightarrow> (v, True))"

definition VolatileStorage_Get :: "VolatileStorage option \<Rightarrow> string \<Rightarrow> bytes \<times> bool" where
  "VolatileStorage_Get vs key =
     (case vs of None \<Rightarrow> ([], False) | Some s \<Rightarrow> lookup_or_nil (storage s) key)"

text \<open>\<open>GetAsync\<close> has no nil check: it locks the mutex of the receiver first.\<close>

definition VolatileStorage_GetAsync :: "VolatileStorage option \<Rightarrow> string \<Rightarrow> ValueRespond gochan go" where
  "VolatileStorage_GetAsync vs key =
     (case vs of
        None \<Rightarrow> Panic NilDereference
      | Some s \<Rightarrow>
          let (v, found) = lookup_or_nil (storage s) key in
          bind_go (chan_send \<lparr>Val = v, Success = found\<rparr> (make_chan 1)) chan_close)"

definition VolatileStorage_Set :: "string \<Rightarrow> bytes \<Rightarrow> VolatileStorage option \<Rightarrow> VolatileStorage option" where
  "VolatileStorage_Set key value vs =
     map_option (\<lambda>s. s\<lparr>storage := map_set key value (storage s)\<rparr>) vs"

definition VolatileStorage_HasKey :: "VolatileStorage option \<Rightarrow> string \<Rightarrow> bool" where
  "VolatileStorage_HasKey vs key =
     (case vs of None \<Rightarrow> False | Some s \<Rightarrow> map_of (storage s) key \<noteq> None)"

definition VolatileStorage_HasData :: "VolatileStorage option \<Rightarrow> bool" where
  "VolatileStorage_HasData vs = (case vs of None \<Rightarrow> False | Some s \<Rightarrow> 0 < length (storage s))"

definition VolatileStorage_GetCopy :: "VolatileStorage option \<Rightarrow> (string, bytes) gomap go" where
  "VolatileStorage_GetCopy vs =
     (case vs of
        None \<Rightarrow> Panic NilDereference
      | Some s \<Rightarrow> Ret (fold (\<lambda>(key, value) vsCopy. map_set key value vsCopy) (storage s) []))"

definition VolatileStorage_Size :: "VolatileStorage option \<Rightarrow> int go" where
  "VolatileStorage_Size vs =
     (case vs of None \<Rightarrow> Panic NilDereference | Some s \<Rightarrow> Ret (int (length (storage s))))"

section \<open>FileStorage\<close>

text \<open>
  The type has no constructor, so its map may be nil: reading a nil map finds nothing, writing to it
  panics.
\<close>

record FileStorage =
  fs_storage :: "(string, bytes) gomap option"
  fileName :: string

definition fs_contents :: "FileStorage \<Rightarrow> (string, bytes) gomap" where
  "fs_contents vs = (case fs_storage vs of None \<Rightarrow> [] | Some m \<Rightarrow> m)"

definition FileStorage_Get :: "FileStorage \<Rightarrow> string \<Rightarrow> bytes \<times> bool" where
  "FileStorage_Get vs key = lookup_or_nil (fs_contents vs) key"

definition FileStorage_Set :: "string \<Rightarrow> bytes \<Rightarrow> FileStorage \<Rightarrow> FileStorage go" where
  "FileStorage_Set key value vs =
     (case fs_storage vs of
        None \<Rightarrow> Panic NilMapAssignment
      | Some m \<Rightarrow> Ret (vs\<lparr>fs_storage := Some (map_set key value m)\<rparr>))"

definition FileStorage_HasKey :: "FileStorage \<Rightarrow> string \<Rightarrow> bool" where
  "FileStorage_HasKey vs key \<longleftrightarrow> map_of (fs_contents vs) key \<noteq> None"

definition FileStorage_HasData :: "FileStorage \<Rightarrow> bool" where
  "FileStorage_HasData vs \<longleftrightarrow> 0 < length (fs_contents vs)"

text \<open>
  \<open>Serialize\<close> writes the map through the \<open>gob\<close> encoder into a file. \<open>create\<close> tells whether the file can be
  opened, whose error the code drops: the encoder then writes to a nil file and its error is the result.
  The third component is what the file holds, when it is written.
\<close>

definition FileStorage_Serialize ::
  "(string \<Rightarrow> bool) \<Rightarrow> ((string, bytes) gomap \<Rightarrow> 'e + bytes) \<Rightarrow> 'e \<Rightarrow> FileStorage \<Rightarrow> bool \<times> 'e option \<times> bytes option" where
  "FileStorage_Serialize create gob invalid vs =
     (case gob (fs_contents vs) of
        Inl e \<Rightarrow> (False, Some e, None)
      | Inr b \<Rightarrow> if create (fileName vs) then (True, None, Some b) else (False, Some invalid, None))"

text \<open>A file that was written successfully restores the store, with any decoder that inverts the encoder.\<close>

lemma Serialize_restores:
  assumes "\<And>m b. gob m = Inr b \<Longrightarrow> \<exists>m'. ungob b = Some m' \<and> map_of m' = map_of m"
    and "FileStorage_Serialize create gob invalid vs = (True, err, file)"
  shows "\<exists>b m. file = Some b \<and> err = None \<and> ungob b = Some m \<and>
    (\<forall>name key. FileStorage_Get \<lparr>fs_storage = Some m, fileName = name\<rparr> key = FileStorage_Get vs key)"
  using assms(2) assms(1) [of "fs_contents vs"]
  by (auto simp: FileStorage_Serialize_def FileStorage_Get_def fs_contents_def lookup_or_nil_def
      split: sum.splits if_splits)

section \<open>The storage contract\<close>

text \<open>
  What a client of a store relies on: an invariant kept by \<open>Set\<close>, and the effect of \<open>Set\<close> on the
  three reading methods. \<open>abs\<close> is the finite map the store holds.
\<close>

locale kv_storage =
  fixes sget :: "'s \<Rightarrow> string \<Rightarrow> bytes \<times> bool"
    and sset :: "string \<Rightarrow> bytes \<Rightarrow> 's \<Rightarrow> 's"
    and shas :: "'s \<Rightarrow> string \<Rightarrow> bool"
    and sdata :: "'s \<Rightarrow> bool"
    and abs :: "'s \<Rightarrow> string \<rightharpoonup> bytes"
    and inv :: "'s \<Rightarrow> bool"
  assumes get_abs: "inv s \<Longrightarrow> sget s k = (case abs s k of None \<Rightarrow> ([], False) | Some v \<Rightarrow> (v, True))"
    and set_abs: "inv s \<Longrightarrow> abs (sset k v s) = (abs s)(k \<mapsto> v)"
    and set_inv: "inv s \<Longrightarrow> inv (sset k v s)"
    and has_abs: "inv s \<Longrightarrow> shas s k \<longleftrightarrow> abs s k \<noteq> None"
    and data_abs: "inv s \<Longrightarrow> sdata s \<longleftrightarrow> abs s \<noteq> Map.empty"
begin

lemma get_set: "inv s \<Longrightarrow> sget (sset k v s) k' = (if k' = k then (v, True) else sget s k')"
  by (simp add: get_abs set_abs set_inv)

lemma has_set: "inv s \<Longrightarrow> shas (sset k v s) k' \<longleftrightarrow> k' = k \<or> shas s k'"
  by (simp add: has_abs set_abs set_inv)

lemma data_set: "inv s \<Longrightarrow> sdata (sset k v s)"
  by (simp add: data_abs set_abs set_inv)

text \<open>A sequence of writes: a client that replays a log of key-value pairs.\<close>

definition set_all :: "(string \<times> bytes) list \<Rightarrow> 's \<Rightarrow> 's" where
  "set_all kvs s = fold (\<lambda>(k, v). sset k v) kvs s"

lemma set_all_Nil [simp]: "set_all [] s = s"
  by (simp add: set_all_def)

lemma set_all_Cons [simp]: "set_all ((k, v) # kvs) s = set_all kvs (sset k v s)"
  by (simp add: set_all_def)

lemma set_all_inv: "inv s \<Longrightarrow> inv (set_all kvs s)"
  by (induction kvs arbitrary: s) (auto simp: set_inv)

lemma set_all_abs: "inv s \<Longrightarrow> abs (set_all kvs s) = abs s ++ map_of (rev kvs)"
  by (induction kvs arbitrary: s) (auto simp: set_inv set_abs map_add_def fun_eq_iff split: option.splits)

text \<open>The last write of a key wins.\<close>

lemma get_set_all_last:
  "inv s \<Longrightarrow> \<forall>w. (k, w) \<notin> set post \<Longrightarrow> sget (set_all (pre @ (k, v) # post) s) k = (v, True)"
  by (auto simp: get_abs set_all_inv set_all_abs map_add_def map_of_eq_None_iff split: option.splits
      dest!: map_of_SomeD)

end

section \<open>The two stores satisfy the contract\<close>

definition volatile_abs :: "VolatileStorage option \<Rightarrow> string \<rightharpoonup> bytes" where
  "volatile_abs vs = (case vs of None \<Rightarrow> Map.empty | Some s \<Rightarrow> map_of (storage s))"

definition volatile_inv :: "VolatileStorage option \<Rightarrow> bool" where
  "volatile_inv vs = (case vs of None \<Rightarrow> False | Some s \<Rightarrow> map_wf (storage s))"

lemmas volatile_defs =
  VolatileStorage_Get_def VolatileStorage_Set_def VolatileStorage_HasKey_def
  VolatileStorage_HasData_def volatile_abs_def volatile_inv_def lookup_or_nil_def

interpretation vol: kv_storage VolatileStorage_Get VolatileStorage_Set VolatileStorage_HasKey
  VolatileStorage_HasData volatile_abs volatile_inv
  by unfold_locales (auto simp: volatile_defs split: option.splits)

text \<open>A file store whose map has been made: there \<open>Set\<close> returns.\<close>

definition file_inv :: "FileStorage \<Rightarrow> bool" where
  "file_inv s \<longleftrightarrow> (case fs_storage s of None \<Rightarrow> False | Some m \<Rightarrow> map_wf m)"

definition file_set :: "string \<Rightarrow> bytes \<Rightarrow> FileStorage \<Rightarrow> FileStorage" where
  "file_set k v s = (case FileStorage_Set k v s of Ret s' \<Rightarrow> s' | _ \<Rightarrow> s)"

lemma FileStorage_Set_returns: "file_inv s \<Longrightarrow> FileStorage_Set k v s = Ret (file_set k v s)"
  by (auto simp: file_inv_def file_set_def FileStorage_Set_def split: option.splits)

interpretation fil: kv_storage FileStorage_Get file_set FileStorage_HasKey
  FileStorage_HasData "\<lambda>s. map_of (fs_contents s)" file_inv
  by unfold_locales
    (auto simp: FileStorage_Get_def FileStorage_Set_def FileStorage_HasKey_def FileStorage_HasData_def
      file_set_def file_inv_def fs_contents_def lookup_or_nil_def split: option.splits)

lemma volatile_inv_Some: "volatile_inv vs \<Longrightarrow> \<exists>s. vs = Some s \<and> map_wf (storage s)"
  by (auto simp: volatile_inv_def split: option.splits)

lemma NewVolatileStorage_inv: "volatile_inv (Some NewVolatileStorage)"
  by (simp add: volatile_inv_def NewVolatileStorage_def)

lemma GetAsync_Ret:
  "volatile_inv vs \<Longrightarrow>
     VolatileStorage_GetAsync vs key =
       Ret \<lparr>chBuf = [\<lparr>Val = fst (VolatileStorage_Get vs key), Success = snd (VolatileStorage_Get vs key)\<rparr>],
            chCap = 1, chClosed = True\<rparr>"
  by (auto simp: VolatileStorage_GetAsync_def VolatileStorage_Get_def go_simps case_prod_beta
      dest!: volatile_inv_Some)

lemma GetCopy_abs:
  "volatile_inv vs \<Longrightarrow>
     \<exists>m. VolatileStorage_GetCopy vs = Ret m \<and> map_wf m \<and> map_of m = volatile_abs vs"
  by (auto simp: VolatileStorage_GetCopy_def volatile_abs_def fold_map_set map_of_rev_wf
      map_wf_fold_map_set dest!: volatile_inv_Some)

lemma Size_abs:
  "volatile_inv vs \<Longrightarrow> VolatileStorage_Size vs = Ret (int (card (dom (volatile_abs vs))))"
  by (auto simp: VolatileStorage_Size_def volatile_abs_def length_map_wf dest!: volatile_inv_Some)

end
