(* ===== verification/Codec.thy ===== *)
theory Codec
  imports Go_Prelude
begin

text \<open>
  The encodings the program relies on: little-endian integers (\<open>encoding/binary\<close> with
  \<open>pkg/io\<close>'s \<open>ReadUint64\<close>), the FNV-1a hashes and the hexadecimal digests of \<open>pkg/hash/util.go\<close> and of
  \<open>pkg/server/main_server.go\<close>, node identifiers (\<open>GenerateId\<close>, \<open>generateId\<close>), and the URL-safe
  base64 of \<open>encoding/base64\<close> that carries keys and values through the REST routes.
\<close>

section \<open>Little-endian integers\<close>

fun put_le :: "nat \<Rightarrow> 'a::len word \<Rightarrow> bytes" where
  "put_le 0 v = []"
| "put_le (Suc n) v = ucast v # put_le n (drop_bit 8 v)"

fun get_le :: "bytes \<Rightarrow> 'a::len word" where
  "get_le [] = 0"
| "get_le (b # bs) = ucast b OR push_bit 8 (get_le bs)"

definition PutUint64 :: "u64 \<Rightarrow> bytes" where
  "PutUint64 v = put_le 8 v"

definition PutUint32 :: "u32 \<Rightarrow> bytes" where
  "PutUint32 v = put_le 4 v"

text \<open>
  \<open>binary.Read\<close> consumes eight bytes; on a shorter buffer it fails and leaves the named result \<open>ret\<close>
  at its zero value. The error is discarded.
\<close>

definition ReadUint64 :: "bytes \<Rightarrow> u64" where
  "ReadUint64 data = (if length data < 8 then 0 else get_le (take 8 data))"

lemma length_put_le [simp]: "length (put_le n v) = n"
  by (induction n arbitrary: v) auto

lemma split_low_byte: "take_bit 8 v OR push_bit 8 (take_bit k (drop_bit 8 v)) = take_bit (8 + k) v"
  for v :: "'a::len word"
  by (rule bit_word_eqI) (auto simp: bit_simps)

lemma ucast_low_byte: "(ucast (ucast v :: u8) :: 'a::len word) = take_bit 8 v" for v :: "'a::len word"
  by (rule bit_word_eqI) (auto simp: bit_simps)

lemma get_put_le: "get_le (put_le n v) = take_bit (8 * n) v"
  by (induction n arbitrary: v) (simp_all add: ucast_low_byte split_low_byte)

lemma take_bit_whole: "LENGTH('a) \<le> n \<Longrightarrow> take_bit n v = v" for v :: "'a::len word"
  by (rule bit_word_eqI) (auto simp: bit_simps)

lemma ReadUint64_PutUint64 [simp]: "ReadUint64 (PutUint64 v) = v"
  by (simp add: ReadUint64_def PutUint64_def get_put_le take_bit_whole)

lemma length_PutUint64 [simp]: "length (PutUint64 v) = 8"
  by (simp add: PutUint64_def)

section \<open>FNV-1a\<close>

definition fnv_offset64 :: u64 where "fnv_offset64 = 14695981039346656037"

definition fnv_prime64 :: u64 where "fnv_prime64 = 1099511628211"

definition fnv64a_step :: "u8 \<Rightarrow> u64 \<Rightarrow> u64" where
  "fnv64a_step b h = (h XOR ucast b) * fnv_prime64"

definition fnv64a_write :: "bytes \<Rightarrow> u64 \<Rightarrow> u64" where
  "fnv64a_write bs h = fold fnv64a_step bs h"

text \<open>\<open>hash\<close> of \<open>main_server.go\<close> and \<open>Hash64\<close> of \<open>pkg/hash\<close>: the same computation, written twice.\<close>

definition server_hash :: "string \<Rightarrow> u64" where
  "server_hash s = fnv64a_write (bytes_of_string s) fnv_offset64"

definition Hash64 :: "string \<Rightarrow> u64" where
  "Hash64 s = fnv64a_write (bytes_of_string s) fnv_offset64"

text \<open>\<open>HashAddr\<close> and \<open>HashAddrPort\<close> hash the printed form of an address, which is an argument here.\<close>

definition HashAddr :: "string \<Rightarrow> u64" where
  "HashAddr addr = fnv64a_write (bytes_of_string addr) fnv_offset64"

definition HashAddrPort :: "string \<Rightarrow> u32 \<Rightarrow> u64" where
  "HashAddrPort addr srcPort =
     fnv64a_write (PutUint32 srcPort) (fnv64a_write (bytes_of_string addr) fnv_offset64)"

definition GenerateId :: "string \<Rightarrow> string \<Rightarrow> string" where
  "GenerateId address port = address @ '':'' @ port"

text \<open>
  \<open>AsSha256\<close>: the printed form of the object and the digest are the libraries'; the verb \<open>%x\<close> writes two
  digits for each byte.
\<close>

definition hex_digit :: "u8 \<Rightarrow> char" where
  "hex_digit d = ''0123456789abcdef'' ! unat d"

definition hex :: "bytes \<Rightarrow> string" where
  "hex bs = concat (map (\<lambda>b. [hex_digit (drop_bit 4 b), hex_digit (take_bit 4 b)]) bs)"

definition AsSha256 :: "('o \<Rightarrow> string) \<Rightarrow> (bytes \<Rightarrow> bytes) \<Rightarrow> 'o \<Rightarrow> string" where
  "AsSha256 Sprint sha256 obj = hex (sha256 (bytes_of_string (Sprint obj)))"

lemma hex_digit_inject:
  assumes "a < 16" "b < 16" "hex_digit a = hex_digit b"
  shows "a = b"
proof -
  have "unat a < 16" "unat b < 16" using assms(1,2) by (simp_all add: word_less_nat_alt)
  moreover have "distinct ''0123456789abcdef''" "length ''0123456789abcdef'' = 16" by code_simp+
  ultimately have "unat a = unat b" using assms(3) by (metis hex_digit_def nth_eq_iff_index_eq)
  then show ?thesis by (rule word_unat_eq_iff [THEN iffD2])
qed

lemma nibbles: "drop_bit 4 b < (16 :: u8)" "take_bit 4 b < (16 :: u8)"
  using unsigned_less [of b, where ?'a = nat]
  by (simp_all add: word_less_nat_alt drop_bit_eq_div take_bit_eq_mod unat_div unat_mod)

lemma nibbles_inject: "drop_bit 4 a = drop_bit 4 b \<Longrightarrow> take_bit 4 a = take_bit 4 b \<Longrightarrow> a = (b :: u8)"
  by (metis bits_ident)

text \<open>Different digests have different names, and nothing else of the name depends on the object.\<close>

lemma hex_inject: "hex a = hex b \<longleftrightarrow> a = b"
proof (induction a arbitrary: b)
  case Nil
  then show ?case by (cases b) (simp_all add: hex_def)
next
  case (Cons x xs)
  then show ?case
    by (cases b) (auto simp: hex_def dest: nibbles_inject hex_digit_inject [OF nibbles(1) nibbles(1)] hex_digit_inject [OF nibbles(2) nibbles(2)])
qed

lemma AsSha256_inject:
  "AsSha256 Sprint sha256 x = AsSha256 Sprint sha256 y \<longleftrightarrow>
     sha256 (bytes_of_string (Sprint x)) = sha256 (bytes_of_string (Sprint y))"
  by (simp add: AsSha256_def hex_inject)

text \<open>The multiplier is odd, hence invertible modulo \<open>2 ^ 64\<close>: one hashing step loses nothing.\<close>

definition fnv_prime64_inverse :: u64 where "fnv_prime64_inverse = 14886173955864302971"

lemma fnv_prime64_invertible: "fnv_prime64 * fnv_prime64_inverse = 1"
  by (simp add: fnv_prime64_def fnv_prime64_inverse_def)

lemma fnv_mult_inject: "x * fnv_prime64 = y * fnv_prime64 \<longleftrightarrow> x = y"
proof
  assume "x * fnv_prime64 = y * fnv_prime64"
  then have "x * fnv_prime64 * fnv_prime64_inverse = y * fnv_prime64 * fnv_prime64_inverse"
    by (rule arg_cong)
  then show "x = y" by (simp only: mult.assoc fnv_prime64_invertible mult_1_right)
qed simp

lemma xor_right_inject: "x XOR z = y XOR z \<longleftrightarrow> x = (y::u64)"
proof
  assume "x XOR z = y XOR z"
  then have "(x XOR z) XOR z = (y XOR z) XOR z" by simp
  then show "x = y" by (simp add: xor.assoc)
qed simp

lemma xor_left_inject: "z XOR x = z XOR y \<longleftrightarrow> x = (y::u64)"
  by (simp add: xor.commute [of z] xor_right_inject)

lemma ucast_u64_u8: "(ucast (ucast a :: u64) :: u8) = a"
  by (rule bit_word_eqI) (auto simp: bit_simps)

lemma ucast_u8_u64_inject: "(ucast a :: u64) = ucast b \<longleftrightarrow> a = (b :: u8)"
  by (metis ucast_u64_u8)

lemma fnv64a_step_state_inject: "fnv64a_step b x = fnv64a_step b y \<longleftrightarrow> x = y"
  by (simp add: fnv64a_step_def fnv_mult_inject xor_right_inject)

lemma fnv64a_step_byte_inject: "fnv64a_step a h = fnv64a_step b h \<longleftrightarrow> a = b"
  by (simp add: fnv64a_step_def fnv_mult_inject xor_left_inject ucast_u8_u64_inject)

lemma fnv64a_write_append: "fnv64a_write (xs @ ys) h = fnv64a_write ys (fnv64a_write xs h)"
  by (simp add: fnv64a_write_def)

lemma fnv64a_write_inject: "fnv64a_write bs x = fnv64a_write bs y \<longleftrightarrow> x = y"
  by (induction bs arbitrary: x y) (simp_all add: fnv64a_write_def fnv64a_step_state_inject)

lemma fnv64a_one_byte:
  "fnv64a_write (pre @ a # post) h = fnv64a_write (pre @ b # post) h \<longleftrightarrow> a = b"
  by (simp add: fnv64a_write_append fnv64a_write_inject fnv64a_step_byte_inject
      fnv64a_write_def [of "_ # _"] fnv64a_write_def [symmetric])

interpretation le64: codec PutUint64 "\<lambda>b. Some (ReadUint64 b)"
  by unfold_locales simp

end
