(* ===== verification/Server.thy ===== *)
theory Server
  imports Raft_Election Raft_Steps Storage Codec
begin

text \<open>
  The server of \<open>pkg/server/main_server.go\<close>: the gRPC handlers, the client side of the calls, the
  storage of committed entries, and the life cycle, with the part of \<open>Restful\<close>
  (\<open>rest_server.go\<close>) the life cycle touches.

  A method with a pointer receiver that checks for nil takes an optional server. Connections are
  values of a type variable: what gRPC does (dialling, the state of a connection, the remote calls) is
  an argument of the functions that use it. \<open>log.Fatal\<close> is the outcome \<open>Panic FatalExit\<close>. The metrics
  counters are left out.
\<close>

section \<open>State\<close>

datatype ServiceState = Init | Running | Disconnected | Shutdown

datatype server_error =
    Uninitialized
  | InShutdownState
  | InitOrDisconnected
  | ServerDisconnected
  | ConsensusUninitialized
  | RaftFailure string
  | ContextDone
  | WrongVoteReply
  | PeerClosed u64
  | RpcError string
  | PeersZero string
  | NotADirectory
  | StatFailed
  | SimulatedFailure
  | PeerNotFound

record ServerSpec =
  SpecServerID :: u64
  RaftNetworkBind :: string
  RestNetworkBind :: string
  GrpcNetworkBind :: string
  Basedir :: string
  LogDir :: string
  MetricBind :: string

record ApiEndpoints =
  epRaft :: string
  epRest :: string
  epGrpc :: string
  epMetric :: string

record 'k PeerStatus =
  Endpoints :: ApiEndpoints
  psState :: 'k

text \<open>A channel field that is never made is nil, \<open>None\<close>.\<close>

record Restful =
  basedir :: string
  restAddr :: string
  healthy :: int
  shutdownReqCount :: u32
  shutdownRequest :: "bool gochan option"
  rest_blocked :: nat

record 'c Server =
  serverState :: ServiceState
  port :: string
  serverId :: u64
  serverBind :: string
  LastLeaderId :: u64
  LastUpdate :: time
  LastTerm :: u64
  raftState :: "raft option"
  rest :: "Restful option"
  rpc :: bool
  quit :: "unit gochan option"
  server_peers :: "string list"
  peersHash :: "(string, u64) gomap"
  peerClient :: "(u64, 'c) gomap"
  peerSpec :: "ServerSpec list"
  serverSpec :: ServerSpec
  db :: "VolatileStorage option"
  committedLog :: "VolatileStorage option"
  commitProducer :: "CommitEntry gochan"
  restOn :: bool
  submitRx :: int
  voteRx :: int
  appendRx :: int
  LeaderId :: u64

text \<open>
  \<open>LeaderId\<close> is the field promoted from the embedded \<open>pb.AppendEntries\<close>; \<open>rpc\<close> tells whether the gRPC
  server has been created; \<open>rest_blocked\<close> counts goroutines blocked on the shutdown channel.

  The two checks on \<open>serverState\<close> that open the handlers.
\<close>

definition state_guard :: "ServiceState \<Rightarrow> server_error option" where
  "state_guard st =
     (if st = Shutdown then Some InShutdownState
      else if st = Init \<or> st = Disconnected then Some InitOrDisconnected
      else None)"

section \<open>gRPC handlers\<close>

definition RequestVoteCall ::
  "time \<Rightarrow> RequestVoteMsg \<Rightarrow> 'c Server option \<Rightarrow> 'c Server option \<times> (server_error + RequestVoteReply)" where
  "RequestVoteCall now vote so =
     (case so of
        None \<Rightarrow> (None, Inl Uninitialized)
      | Some s \<Rightarrow>
          (case state_guard (serverState s) of
             Some e \<Rightarrow> (Some s, Inl e)
           | None \<Rightarrow>
               let s1 = s\<lparr>voteRx := voteRx s + 1\<rparr> in
               (case raftState s1 of
                  None \<Rightarrow> (Some s1, Inl ConsensusUninitialized)
                | Some r \<Rightarrow>
                    let (ro, rep) = RequestVote now vote (Some r) in
                    (Some (s1\<lparr>raftState := ro\<rparr>),
                     case rep of Inl e \<Rightarrow> Inl (RaftFailure e) | Inr m \<Rightarrow> Inr m))))"

definition AppendEntriesCall ::
  "time \<Rightarrow> AppendEntriesMsg \<Rightarrow> 'c Server option
     \<Rightarrow> ('c Server option \<times> (server_error + AppendEntriesReply)) go" where
  "AppendEntriesCall now req so =
     (case so of
        None \<Rightarrow> Ret (None, Inl Uninitialized)
      | Some s \<Rightarrow>
          (case state_guard (serverState s) of
             Some e \<Rightarrow> Ret (Some s, Inl e)
           | None \<Rightarrow>
               let s1 = s\<lparr>appendRx := appendRx s + 1\<rparr> in
               bind_go (AppendEntries now req (raftState s1))
                 (\<lambda>(ro, rep).
                    Ret (Some (s1\<lparr>raftState := ro, LastLeaderId := aeLeaderId req, LastUpdate := now,
                                  LastTerm := aeTerm req\<rparr>),
                         case rep of Inl e \<Rightarrow> Inl (RaftFailure e) | Inr m \<Rightarrow> Inr m))))"

text \<open>The loop over the map of peers, in the order of the association list.\<close>

fun last_leader_loop :: "(string \<times> u64) list \<Rightarrow> u64 \<Rightarrow> ServerSpec list \<Rightarrow> ServerSpec option" where
  "last_leader_loop [] lead specs = None"
| "last_leader_loop ((k, v) # kvs) lead specs =
     (case (if v = lead then find (\<lambda>spec. RaftNetworkBind spec = k) specs else None) of
        Some spec \<Rightarrow> Some spec
      | None \<Rightarrow> last_leader_loop kvs lead specs)"

definition LastLeader :: "'c Server option \<Rightarrow> ServerSpec option \<times> u64 \<times> bool" where
  "LastLeader so =
     (case so of
        None \<Rightarrow> (None, 0, False)
      | Some s \<Rightarrow>
          (case last_leader_loop (peersHash s) (LastLeaderId s) (peerSpec s) of
             Some spec \<Rightarrow> (Some spec, LeaderId s, True)
           | None \<Rightarrow> (None, 0, False)))"

section \<open>Committed entries\<close>

text \<open>The body of the loop of \<open>ReadCommits\<close> for one entry; the log line reads the size of the store.\<close>

definition ReadCommits_store :: "CommitEntry \<Rightarrow> 'c Server \<Rightarrow> 'c Server go" where
  "ReadCommits_store c s =
     bind_go (VolatileStorage_Size (db s))
       (\<lambda>_. let s1 = s\<lparr>db := VolatileStorage_Set (Key (ceCommand c)) (Value (ceCommand c)) (db s)\<rparr> in
            Ret (s1\<lparr>committedLog :=
              VolatileStorage_Set (Key (ceCommand c)) (PutUint64 (ceIndex c)) (committedLog s1)\<rparr>))"

text \<open>One iteration: a closed channel would yield zero values forever.\<close>

definition ReadCommits_iter :: "'c Server \<Rightarrow> 'c Server go" where
  "ReadCommits_iter s =
     bind_go (chan_recv (commitProducer s))
       (\<lambda>(msg, ch). ReadCommits_store
          (case msg of Some c \<Rightarrow> c | None \<Rightarrow> \<lparr>ceCommand = \<lparr>Key = [], Value = []\<rparr>, ceIndex = 0, ceTerm = 0\<rparr>)
          (s\<lparr>commitProducer := ch\<rparr>))"

fun ReadCommits_all :: "CommitEntry list \<Rightarrow> 'c Server \<Rightarrow> 'c Server go" where
  "ReadCommits_all [] s = Ret s"
| "ReadCommits_all (c # cs) s = bind_go (ReadCommits_store c s) (ReadCommits_all cs)"

record GetValueRespond =
  gvVal :: bytes
  gvIndex :: u64
  gvSuccess :: bool

text \<open>
  \<open>done1\<close> and \<open>done2\<close> tell whether the two \<open>select\<close> statements take the branch of the cancelled
  context; both branches may be ready. A receive from a closed, drained channel yields zero values.
\<close>

definition recv_value :: "ValueRespond gochan \<Rightarrow> ValueRespond go" where
  "recv_value ch =
     bind_go (chan_recv ch)
       (\<lambda>(msg, _). Ret (case msg of Some v \<Rightarrow> v | None \<Rightarrow> \<lparr>Val = [], Success = False\<rparr>))"

definition GetValue ::
  "bool \<Rightarrow> bool \<Rightarrow> string \<Rightarrow> 'c Server option \<Rightarrow> (GetValueRespond option \<times> server_error option) go" where
  "GetValue done1 done2 key so =
     (case so of
        None \<Rightarrow> Ret (None, Some Uninitialized)
      | Some s \<Rightarrow>
          (case state_guard (serverState s) of
             Some e \<Rightarrow> Ret (None, Some e)
           | None \<Rightarrow>
               let resp = \<lparr>gvVal = [], gvIndex = 0, gvSuccess = False\<rparr> in
               bind_go (VolatileStorage_GetAsync (db s) key) (\<lambda>ch1.
               if done1 then Ret (Some resp, Some ContextDone) else
               bind_go (recv_value ch1) (\<lambda>v.
               let resp1 = resp\<lparr>gvVal := Val v\<rparr>; valOk = Success v in
               bind_go (VolatileStorage_GetAsync (committedLog s) key) (\<lambda>ch2.
               if done2 then Ret (Some resp1, Some ContextDone) else
               bind_go (recv_value ch2) (\<lambda>index.
               let resp2 = resp1\<lparr>gvIndex := ReadUint64 (Val index)\<rparr>; indexOk = Success index in
               if valOk \<and> indexOk then Ret (Some (resp2\<lparr>gvSuccess := True\<rparr>), None)
               else Ret (Some resp2, None)))))))"

section \<open>Submitting\<close>

record SubmitReply =
  srSuccess :: bool
  srLeaderId :: u64
  srNodeId :: u64
  srAddress :: string

text \<open>The counter is incremented before the receiver is checked. A command refused by Raft is \<open>nil, nil\<close>.\<close>

definition SubmitCall ::
  "KeyValuePair option \<Rightarrow> 'c Server option
     \<Rightarrow> ('c Server \<times> SubmitReply option \<times> server_error option) go" where
  "SubmitCall cmd so =
     (case so of
        None \<Rightarrow> Panic NilDereference
      | Some s0 \<Rightarrow>
          let s = s0\<lparr>submitRx := submitRx s0 + 1\<rparr> in
          (case state_guard (serverState s) of
             Some e \<Rightarrow> Ret (s, None, Some e)
           | None \<Rightarrow>
               (case raftState s of
                  None \<Rightarrow> Panic NilDereference
                | Some r \<Rightarrow>
                    bind_go (Submit cmd r) (\<lambda>(ok, r').
                    let s1 = s\<lparr>raftState := Some r'\<rparr> in
                    if ok = False then Ret (s1, None, None)
                    else bind_go (go_index (peerSpec s1) (unat (LeaderId s1))) (\<lambda>spec.
                      Ret (s1, Some \<lparr>srSuccess = ok, srLeaderId = LeaderId s1, srNodeId = serverId s1,
                                    srAddress = RaftNetworkBind spec\<rparr>, None))))))"

definition Ping :: "'c Server option \<Rightarrow> server_error + string" where
  "Ping so =
     (case so of
        None \<Rightarrow> Inl Uninitialized
      | Some s \<Rightarrow> (case state_guard (serverState s) of Some e \<Rightarrow> Inl e | None \<Rightarrow> Inr (serverBind s)))"

text \<open>\<open>rnd\<close> is \<open>rand.Intn(10)\<close>; the result is the pause in milliseconds and the error.\<close>

definition SimulateFailure :: "int \<Rightarrow> 'c Server option \<Rightarrow> int \<times> server_error option" where
  "SimulateFailure rnd so =
     (case so of
        None \<Rightarrow> (0, Some Uninitialized)
      | Some s \<Rightarrow>
          (if rnd = 1 then (0, Some SimulatedFailure)
           else if rnd = 2 then (75, None)
           else if rnd = 2 then (10000, None)
           else (0, None)))"

definition ServerID :: "'c Server \<Rightarrow> u64" where
  "ServerID s = serverId s"

definition RaftState :: "'c Server \<Rightarrow> raft option" where
  "RaftState s = raftState s"

definition GetPeerID :: "string \<Rightarrow> u64" where
  "GetPeerID bind = server_hash bind"

section \<open>Storage of committed entries\<close>

definition server_inv :: "'c Server \<Rightarrow> bool" where
  "server_inv s \<longleftrightarrow> volatile_inv (db s) \<and> volatile_inv (committedLog s)"

definition value_writes :: "CommitEntry list \<Rightarrow> (string \<times> bytes) list" where
  "value_writes cs = map (\<lambda>c. (Key (ceCommand c), Value (ceCommand c))) cs"

definition index_writes :: "CommitEntry list \<Rightarrow> (string \<times> bytes) list" where
  "index_writes cs = map (\<lambda>c. (Key (ceCommand c), PutUint64 (ceIndex c))) cs"

lemma writes_simps [simp]:
  "value_writes [] = []" "index_writes [] = []"
  "value_writes (c # cs) = (Key (ceCommand c), Value (ceCommand c)) # value_writes cs"
  "index_writes (c # cs) = (Key (ceCommand c), PutUint64 (ceIndex c)) # index_writes cs"
  "value_writes (cs @ ds) = value_writes cs @ value_writes ds"
  "index_writes (cs @ ds) = index_writes cs @ index_writes ds"
  by (simp_all add: value_writes_def index_writes_def)

lemma ReadCommits_store_Ret:
  "server_inv s \<Longrightarrow> ReadCommits_store c s =
     Ret (s\<lparr>db := VolatileStorage_Set (Key (ceCommand c)) (Value (ceCommand c)) (db s),
            committedLog := VolatileStorage_Set (Key (ceCommand c)) (PutUint64 (ceIndex c)) (committedLog s)\<rparr>)"
  by (auto simp: ReadCommits_store_def server_inv_def Size_abs)

lemma ReadCommits_all_Ret:
  "server_inv s \<Longrightarrow> ReadCommits_all cs s =
     Ret (s\<lparr>db := vol.set_all (value_writes cs) (db s),
            committedLog := vol.set_all (index_writes cs) (committedLog s)\<rparr>)"
proof (induction cs arbitrary: s)
  case (Cons c cs)
  let ?s = "s\<lparr>db := VolatileStorage_Set (Key (ceCommand c)) (Value (ceCommand c)) (db s),
    committedLog := VolatileStorage_Set (Key (ceCommand c)) (PutUint64 (ceIndex c)) (committedLog s)\<rparr>"
  have "server_inv ?s" using Cons.prems by (simp add: server_inv_def vol.set_inv)
  from Cons.IH [OF this] show ?case by (simp add: ReadCommits_store_Ret [OF Cons.prems])
qed simp

lemma ReadCommits_all_inv: "server_inv s \<Longrightarrow> ReadCommits_all cs s = Ret s' \<Longrightarrow> server_inv s'"
  by (auto simp: ReadCommits_all_Ret server_inv_def vol.set_all_inv)

lemma recv_value_Cons [simp]: "recv_value \<lparr>chBuf = v # vs, chCap = n, chClosed = b\<rparr> = Ret v"
  by (simp add: recv_value_def go_simps)

lemma GetValue_running:
  assumes "server_inv s" "serverState s = Running"
  shows "GetValue False False key (Some s) =
    (let (v, ok) = VolatileStorage_Get (db s) key; (i, iok) = VolatileStorage_Get (committedLog s) key
     in Ret (Some \<lparr>gvVal = v, gvIndex = ReadUint64 i, gvSuccess = (ok \<and> iok)\<rparr>, None))"
  using assms
  by (auto simp: GetValue_def server_inv_def state_guard_def GetAsync_Ret Let_def case_prod_beta)

lemma GetValue_guarded:
  "serverState s \<noteq> Running \<Longrightarrow> \<exists>e. GetValue d1 d2 key (Some s) = Ret (None, Some e)"
  by (cases "serverState s") (auto simp: GetValue_def state_guard_def)

text \<open>A key is absent from the writes after position \<open>i\<close> exactly when no later entry has it.\<close>

lemma no_later_write:
  "\<forall>c \<in> set cs. Key (ceCommand c) \<noteq> k \<Longrightarrow> (\<forall>w. (k, w) \<notin> set (value_writes cs)) \<and> (\<forall>w. (k, w) \<notin> set (index_writes cs))"
  by (auto simp: value_writes_def index_writes_def)

lemma GetValue_last_commit:
  assumes inv: "server_inv s" and run: "serverState s = Running"
    and later: "\<forall>d \<in> set post. Key (ceCommand d) \<noteq> Key (ceCommand c)"
    and "ReadCommits_all (pre @ c # post) s = Ret s'"
  shows "GetValue False False (Key (ceCommand c)) (Some s') =
    Ret (Some \<lparr>gvVal = Value (ceCommand c), gvIndex = ceIndex c, gvSuccess = True\<rparr>, None)"
proof -
  let ?k = "Key (ceCommand c)"
  have s': "s' = s\<lparr>db := vol.set_all (value_writes (pre @ c # post)) (db s),
      committedLog := vol.set_all (index_writes (pre @ c # post)) (committedLog s)\<rparr>"
    using assms(4) by (simp add: ReadCommits_all_Ret [OF inv])
  have i: "volatile_inv (db s)" "volatile_inv (committedLog s)" using inv by (simp_all add: server_inv_def)
  note no = no_later_write [OF later]
  have "VolatileStorage_Get (db s') ?k = (Value (ceCommand c), True)"
    unfolding s' using vol.get_set_all_last [OF i(1), of ?k "value_writes post" "value_writes pre"] no by simp
  moreover have "VolatileStorage_Get (committedLog s') ?k = (PutUint64 (ceIndex c), True)"
    unfolding s' using vol.get_set_all_last [OF i(2), of ?k "index_writes post" "index_writes pre"] no by simp
  moreover have "server_inv s'" using inv assms(4) by (rule ReadCommits_all_inv)
  moreover have "serverState s' = Running" by (simp add: s' run)
  ultimately show ?thesis by (simp add: GetValue_running)
qed

lemma Get_unwritten:
  assumes "volatile_inv vs" "\<forall>w. (k, w) \<notin> set kvs"
  shows "VolatileStorage_Get (vol.set_all kvs vs) k = VolatileStorage_Get vs k"
proof -
  have "map_of (rev kvs) k = None" using assms(2) by (auto simp: map_of_eq_None_iff)
  then show ?thesis
    by (simp add: vol.get_abs vol.set_all_inv vol.set_all_abs assms(1) map_add_def)
qed

section \<open>A server that does not run\<close>

lemma handlers_guarded:
  assumes "serverState s \<noteq> Running"
  shows "\<exists>e. RequestVoteCall now vote (Some s) = (Some s, Inl e)"
    and "\<exists>e. AppendEntriesCall now req (Some s) = Ret (Some s, Inl e)"
    and "\<exists>e. Ping (Some s) = Inl e"
    and "\<exists>e. SubmitCall cmd (Some s) = Ret (s\<lparr>submitRx := submitRx s + 1\<rparr>, None, Some e)"
  using assms
  by (cases "serverState s";
      simp add: RequestVoteCall_def AppendEntriesCall_def Ping_def SubmitCall_def state_guard_def Let_def)+

text \<open>On a running server the handlers are the Raft methods, with the last leader recorded.\<close>

lemma RequestVoteCall_running:
  assumes "serverState s = Running" "raftState s = Some r" "RequestVote_run now vote r = (r', Inr reply)"
  shows "RequestVoteCall now vote (Some s) = (Some (s\<lparr>voteRx := voteRx s + 1, raftState := Some r'\<rparr>), Inr reply)"
  using assms by (simp add: RequestVoteCall_def state_guard_def RequestVote_def Let_def)

lemma AppendEntriesCall_running:
  assumes "serverState s = Running" "raftState s = Some r"
  shows "AppendEntriesCall now req (Some s) =
    bind_go (AppendEntries_run now req r) (\<lambda>(r', res).
      Ret (Some (s\<lparr>appendRx := appendRx s + 1, raftState := Some r', LastLeaderId := aeLeaderId req,
                   LastUpdate := now, LastTerm := aeTerm req\<rparr>),
           case res of Inl e \<Rightarrow> Inl (RaftFailure e) | Inr m \<Rightarrow> Inr m))"
  using assms
  by (cases "AppendEntries_run now req r")
    (auto simp: AppendEntriesCall_def state_guard_def AppendEntries_def Let_def)

section \<open>The last leader\<close>

lemma last_leader_loop_Some:
  "last_leader_loop kvs lead specs = Some spec \<Longrightarrow> spec \<in> set specs \<and> (RaftNetworkBind spec, lead) \<in> set kvs"
  by (induction kvs lead specs rule: last_leader_loop.induct)
    (auto split: option.splits if_splits simp: find_Some_iff)

lemma last_leader_loop_None:
  "last_leader_loop kvs lead specs = None \<Longrightarrow> (k, lead) \<in> set kvs \<Longrightarrow> spec \<in> set specs \<Longrightarrow> RaftNetworkBind spec \<noteq> k"
  by (induction kvs lead specs rule: last_leader_loop.induct)
    (auto split: option.splits if_splits simp: find_None_iff)

end
