(* ===== verification/Server_Life.thy ===== *)
theory Server_Life
  imports Server "HOL-Library.Multiset"
begin

text \<open>
  The life of a server (\<open>main_server.go\<close>): construction, serving, disconnection, reconnection, shutdown,
  and the client side of the Raft calls. The operating system and gRPC are arguments: \<open>stat\<close> (what
  \<open>os.Stat\<close> says of a path: an error, or whether it is a directory), \<open>listen\<close> (whether an address can
  be bound), \<open>dial\<close> (the connection to an address, or a failure), \<open>free\<close> (the answers of the
  successive \<open>CheckSocket\<close> probes), \<open>vote_call\<close>, \<open>append_call\<close> and \<open>conn_state\<close> (the generated client and
  the state of a connection).
\<close>

section \<open>Construction\<close>

definition IsDir :: "(string \<Rightarrow> bool option) \<Rightarrow> string \<Rightarrow> bool \<times> server_error option" where
  "IsDir stat dir =
     (case stat dir of None \<Rightarrow> (False, Some StatFailed) | Some d \<Rightarrow> (if \<not> d then (False, None) else (True, None)))"

text \<open>\<open>shutdownRequest\<close> is not assigned. The routes and the log file are left out.\<close>

definition NewRestfulServer ::
  "(string \<Rightarrow> bool option) \<Rightarrow> string \<Rightarrow> string \<Rightarrow> server_error + Restful" where
  "NewRestfulServer stat bind base =
     (case IsDir stat base of
        (_, Some e) \<Rightarrow> Inl e
      | (ok, None) \<Rightarrow>
          if \<not> ok then Inl NotADirectory
          else Inr \<lparr>basedir = base, restAddr = bind, healthy = 0, shutdownReqCount = 0,
                    shutdownRequest = None, rest_blocked = 0\<rparr>)"

text \<open>The slice \<open>peers\<close> is shared with the caller, who sees the identifiers the loop stores in it.\<close>

definition NewServer ::
  "(string \<Rightarrow> bool option) \<Rightarrow> ServerSpec \<Rightarrow> ServerSpec list \<Rightarrow> string \<Rightarrow> bool \<Rightarrow> (server_error + 'c Server) go" where
  "NewServer stat spec ps port' restOn' =
     (let sid = server_hash (RaftNetworkBind spec);
          spec' = spec\<lparr>SpecServerID := sid\<rparr>
      in if length ps = 0 then Panic FatalExit
         else
           let hashes = fold (\<lambda>p m. map_set (RaftNetworkBind p) (server_hash (RaftNetworkBind p)) m) ps [];
               specs = map (\<lambda>p. p\<lparr>SpecServerID := server_hash (RaftNetworkBind p)\<rparr>) ps
           in (case NewRaftProtocol sid hashes (int (length ps)) of
                 Inl e \<Rightarrow> Ret (Inl (PeersZero e))
               | Inr r \<Rightarrow>
                   (case NewRestfulServer stat (RestNetworkBind spec') (Basedir spec') of
                      Inl e \<Rightarrow> Ret (Inl e)
                    | Inr rs \<Rightarrow>
                        Ret (Inr \<lparr>serverState = Init, port = port', serverId = sid,
                          serverBind = RaftNetworkBind spec, LastLeaderId = 0, LastUpdate = 0, LastTerm = 0,
                          raftState = Some r, rest = Some rs, rpc = False, quit = Some (make_chan 0),
                          server_peers = [], peersHash = hashes, peerClient = [], peerSpec = specs,
                          serverSpec = spec', db = Some NewVolatileStorage,
                          committedLog = Some NewVolatileStorage, commitProducer = make_chan 32,
                          restOn = restOn', submitRx = 0, voteRx = 0, appendRx = 0, LeaderId = 0\<rparr>))))"

section \<open>Serving\<close>

definition createListener :: "(string \<Rightarrow> bool) \<Rightarrow> 'c Server option \<Rightarrow> server_error + 'c Server" where
  "createListener listen so =
     (case so of
        None \<Rightarrow> Inl Uninitialized
      | Some s \<Rightarrow>
          if serverState s = Shutdown \<or> serverState s = Disconnected then Inl InitOrDisconnected
          else if listen (serverBind s) then Inr (s\<lparr>rpc := True\<rparr>)
          else Inl (RpcError ''listen''))"

text \<open>The goroutine that connects to one peer; the result includes the connections it closes.\<close>

definition connect_peer ::
  "(string \<Rightarrow> 'c option) \<Rightarrow> ServerSpec \<Rightarrow> 'c Server \<Rightarrow> ('c Server \<times> 'c list) go" where
  "connect_peer dial p s =
     (let old = (case map_of (peerClient s) (server_hash (RaftNetworkBind p)) of None \<Rightarrow> [] | Some c \<Rightarrow> [c])
      in case dial (RaftNetworkBind p) of
           None \<Rightarrow> Panic FatalExit
         | Some conn \<Rightarrow>
             Ret (s\<lparr>peerClient := map_set (server_hash (RaftNetworkBind p)) conn (peerClient s)\<rparr>, old))"

fun connect_peers ::
  "(string \<Rightarrow> 'c option) \<Rightarrow> ServerSpec list \<Rightarrow> 'c Server \<Rightarrow> ('c Server \<times> 'c list) go" where
  "connect_peers dial [] s = Ret (s, [])"
| "connect_peers dial (p # ps) s =
     bind_go (connect_peer dial p s) (\<lambda>(s1, old).
     bind_go (connect_peers dial ps s1) (\<lambda>(s2, olds). Ret (s2, old @ olds)))"

text \<open>\<open>StartRest\<close> returns when the REST service has reported that it is ready, with its health flag set.\<close>

definition Server_StartRest :: "'c Server \<Rightarrow> 'c Server" where
  "Server_StartRest s = s\<lparr>rest := map_option (\<lambda>rs. rs\<lparr>healthy := 1\<rparr>) (rest s)\<rparr>"

text \<open>
  \<open>Serve\<close> up to its wait on the \<open>quit\<close> channel, with the connections made one after the other. On an
  address that cannot be bound the process ends.
\<close>

definition Serve ::
  "(string \<Rightarrow> bool) \<Rightarrow> (string \<Rightarrow> 'c option) \<Rightarrow> 'c Server option \<Rightarrow> (server_error + 'c Server) go" where
  "Serve listen dial so =
     (case so of
        None \<Rightarrow> Ret (Inl Uninitialized)
      | Some s \<Rightarrow>
          if serverState s = Shutdown then Ret (Inl InShutdownState)
          else if serverState s = Running \<or> serverState s = Disconnected then Ret (Inl InitOrDisconnected)
          else (case createListener listen (Some s) of
                  Inl e \<Rightarrow> Panic FatalExit
                | Inr s1 \<Rightarrow>
                    bind_go (connect_peers dial (peerSpec s1) s1) (\<lambda>(s2, _).
                    Ret (Inr (Server_StartRest (s2\<lparr>serverState := Running\<rparr>))))))"

text \<open>
  \<open>Start\<close> ranges over the commit channel it has just made and given to the new Raft module, which
  sends to it and does not close it. The error of \<open>Serve\<close> is compared with itself and dropped.
\<close>

definition Start ::
  "(string \<Rightarrow> bool) \<Rightarrow> (string \<Rightarrow> 'c option) \<Rightarrow> 'c Server \<Rightarrow> ('c Server \<times> server_error option) go" where
  "Start listen dial s =
     (if serverState s = Running then Ret (s, None)
      else
        let s1 = s\<lparr>quit := Some (make_chan 0)\<rparr>;
            commitChans = (make_chan 0 :: CommitEntry gochan)
        in (case NewRaftProtocol (serverId s1) (peersHash s1) (int (length (server_peers s1))) of
              Inl e \<Rightarrow> Ret (s1\<lparr>raftState := None\<rparr>, Some (PeersZero e))
            | Inr r \<Rightarrow>
                bind_go (chan_range commitChans) (\<lambda>entries.
                let s2 = s1\<lparr>raftState := Some r, serverState := Running\<rparr> in
                bind_go (Serve listen dial (Some s2)) (\<lambda>res.
                Ret (case res of Inl _ \<Rightarrow> s2 | Inr s3 \<Rightarrow> s3, None)))))"

section \<open>Remote calls\<close>

definition getPeer :: "u64 \<Rightarrow> 'c Server option \<Rightarrow> 'c option" where
  "getPeer peerID so =
     (case so of
        None \<Rightarrow> None
      | Some s \<Rightarrow>
          if serverState s = Shutdown \<or> serverState s = Init then None
          else map_of (peerClient s) peerID)"

datatype rpc_args = VoteArgs RequestVoteMsg | AppendArgs AppendEntriesMsg | UnknownArgs

datatype rpc_result = VoteResult RequestVoteReply | AppendResult "AppendEntriesReply option"

definition RemoteCall ::
  "('c \<Rightarrow> RequestVoteMsg \<Rightarrow> server_error + RequestVoteReply option) \<Rightarrow>
   ('c \<Rightarrow> AppendEntriesMsg \<Rightarrow> server_error + AppendEntriesReply option) \<Rightarrow>
   u64 \<Rightarrow> rpc_args \<Rightarrow> 'c Server option \<Rightarrow> server_error + rpc_result" where
  "RemoteCall vote_call append_call peerID args so =
     (case so of
        None \<Rightarrow> Inl Uninitialized
      | Some s \<Rightarrow>
          if serverState s = Shutdown then Inl InShutdownState
          else if serverState s = Init \<or> serverState s = Disconnected then Inl ServerDisconnected
          else (case getPeer peerID so of
                  None \<Rightarrow> Inl (PeerClosed peerID)
                | Some peer \<Rightarrow>
                    (case args of
                       VoteArgs req \<Rightarrow>
                         (case vote_call peer req of
                            Inl e \<Rightarrow> Inl e
                          | Inr None \<Rightarrow> Inl WrongVoteReply
                          | Inr (Some replay) \<Rightarrow> Inr (VoteResult replay))
                     | AppendArgs req \<Rightarrow>
                         (case append_call peer req of
                            Inl e \<Rightarrow> Inl e
                          | Inr rep \<Rightarrow> Inr (AppendResult rep))
                     | UnknownArgs \<Rightarrow> Inl (PeerClosed peerID))))"

section \<open>Shutting down\<close>

text \<open>
  \<open>shutdownRest\<close> starts a goroutine that sends on \<open>shutdownRequest\<close>; on a nil channel it blocks for
  ever.
\<close>

definition shutdownRest :: "Restful option \<Rightarrow> Restful option" where
  "shutdownRest ro =
     (case ro of
        None \<Rightarrow> None
      | Some rs \<Rightarrow>
          if shutdownReqCount rs \<noteq> 0 then Some rs
          else let rs1 = rs\<lparr>shutdownReqCount := 1\<rparr> in
               (case shutdownRequest rs1 of
                  None \<Rightarrow> Some (rs1\<lparr>rest_blocked := rest_blocked rs1 + 1\<rparr>)
                | Some ch \<Rightarrow> Some (rs1\<lparr>shutdownRequest := Some (ch\<lparr>chBuf := chBuf ch @ [True]\<rparr>)\<rparr>)))"

text \<open>The probing loop: it ends at the first probe that finds the port free.\<close>

partial_function (option) wait_released :: "(nat \<Rightarrow> bool) \<Rightarrow> nat \<Rightarrow> nat option" where
  "wait_released free i = (if free i then Some i else wait_released free (Suc i))"

text \<open>
  What a shutdown waits for: the probes that find the REST port free, the mutex of the server, the mutex of the
  Raft module, and the calls still pending at the gRPC server, which \<open>GracefulStop\<close> lets finish.
\<close>

record shutdown_env =
  portFree :: "nat \<Rightarrow> bool"
  serverLock :: bool
  raftLock :: bool
  rpcDrains :: bool

definition await :: "bool \<Rightarrow> unit go" where
  "await b = (if b then Ret () else Blocked)"

definition Server_Shutdown :: "shutdown_env \<Rightarrow> 'c Server option \<Rightarrow> ('c Server option \<times> 'c list) go" where
  "Server_Shutdown env so =
     (case so of
        None \<Rightarrow> Ret (None, [])
      | Some s \<Rightarrow>
          bind_go (await (serverLock env)) (\<lambda>_.
          if serverState s = Shutdown then Ret (Some s, [])
          else
            let s1 = s\<lparr>serverState := Shutdown, rest := shutdownRest (rest s)\<rparr> in
            bind_go (if rest s1 \<noteq> None
                     then (case wait_released (portFree env) 0 of None \<Rightarrow> Blocked | Some _ \<Rightarrow> Ret ())
                     else Ret ()) (\<lambda>_.
            bind_go (case raftState s1 of
                       None \<Rightarrow> Ret None
                     | Some r \<Rightarrow> bind_go (await (raftLock env)) (\<lambda>_. bind_go (Raft_Shutdown r) (\<lambda>r'. Ret (Some r')))) (\<lambda>ro.
            let closed = map snd (peerClient s1);
                s2 = s1\<lparr>raftState := ro, peerClient := []\<rparr> in
            if \<not> rpc s2 then Panic NilDereference
            else bind_go (await (rpcDrains env)) (\<lambda>_.
                 case quit s2 of
                    None \<Rightarrow> Ret (Some s2, closed)
                  | Some q \<Rightarrow> bind_go (chan_close q) (\<lambda>q'. Ret (Some (s2\<lparr>quit := Some q'\<rparr>), closed)))))))"

definition ShutdownGrpc :: "shutdown_env \<Rightarrow> 'c Server option \<Rightarrow> ('c Server option \<times> 'c list) go" where
  "ShutdownGrpc env so =
     (case so of
        None \<Rightarrow> Ret (None, [])
      | Some s \<Rightarrow>
          bind_go (await (serverLock env)) (\<lambda>_.
          if serverState s = Shutdown then Ret (Some s, [])
          else
            let closed = map snd (peerClient s);
                s1 = s\<lparr>serverState := Shutdown, peerClient := []\<rparr>
            in if \<not> rpc s1 then Panic NilDereference
               else bind_go (await (rpcDrains env)) (\<lambda>_. Ret (Some s1, closed))))"

section \<open>Peers\<close>

definition GetInMemoryStorage :: "'c Server \<Rightarrow> (string, bytes) gomap go" where
  "GetInMemoryStorage s = VolatileStorage_GetCopy (db s)"

definition getPeerSpec :: "u64 \<Rightarrow> 'c Server \<Rightarrow> server_error + ServerSpec" where
  "getPeerSpec i s =
     (case find (\<lambda>v. SpecServerID v = i) (peerSpec s) of Some v \<Rightarrow> Inr v | None \<Rightarrow> Inl PeerNotFound)"

definition endpoints_of :: "ServerSpec \<Rightarrow> ApiEndpoints" where
  "endpoints_of p = \<lparr>epRaft = RaftNetworkBind p, epRest = RestNetworkBind p, epGrpc = GrpcNetworkBind p, epMetric = []\<rparr>"

fun peer_status_loop ::
  "('c \<Rightarrow> 'k) \<Rightarrow> (u64 \<times> 'c) list \<Rightarrow> 'c Server \<Rightarrow> (u64, 'k PeerStatus) gomap \<Rightarrow> (u64, 'k PeerStatus) gomap go" where
  "peer_status_loop conn_state [] s acc = Ret acc"
| "peer_status_loop conn_state ((k, v) # kvs) s acc =
     (case getPeerSpec k s of
        Inl e \<Rightarrow> Panic FatalExit
      | Inr peer \<Rightarrow>
          peer_status_loop conn_state kvs s
            (map_set k \<lparr>Endpoints = endpoints_of peer, psState = conn_state v\<rparr> acc))"

definition Server_PeerStatus ::
  "('c \<Rightarrow> 'k) \<Rightarrow> 'k \<Rightarrow> 'c Server option \<Rightarrow> (u64, 'k PeerStatus) gomap go" where
  "Server_PeerStatus conn_state Ready so =
     (case so of
        None \<Rightarrow> Ret []
      | Some s \<Rightarrow>
          bind_go (peer_status_loop conn_state (peerClient s) s []) (\<lambda>connStatus.
          Ret (map_set (ServerID s)
                 \<lparr>Endpoints = endpoints_of (serverSpec s), psState = Ready\<rparr> connStatus)))"

definition Disconnect :: "'c Server option \<Rightarrow> 'c Server option \<times> 'c list" where
  "Disconnect so =
     (case so of
        None \<Rightarrow> (None, [])
      | Some s \<Rightarrow>
          if serverState s = Running then
            (Some (s\<lparr>serverState := Disconnected, peerClient := []\<rparr>), map snd (peerClient s))
          else (Some s, []))"

text \<open>\<open>Reconnect\<close> dials every peer, drops the old connections without closing them, and sets the state.\<close>

definition Reconnect :: "(string \<Rightarrow> 'c option) \<Rightarrow> 'c Server \<Rightarrow> 'c Server go" where
  "Reconnect dial s =
     bind_go (connect_peers dial (peerSpec s) s) (\<lambda>(s1, _). Ret (s1\<lparr>serverState := Running\<rparr>))"

definition IsLeader :: "'c Server \<Rightarrow> (u64 \<times> u64 \<times> bool) go" where
  "IsLeader s = (case raftState s of None \<Rightarrow> Panic NilDereference | Some r \<Rightarrow> Ret (Status r))"

definition IsRunning :: "'c Server \<Rightarrow> bool" where
  "IsRunning s \<longleftrightarrow> serverState s = Running"

definition IsDisconnected :: "'c Server \<Rightarrow> bool" where
  "IsDisconnected s \<longleftrightarrow> serverState s = Disconnected"

definition IsShutdown :: "'c Server \<Rightarrow> bool" where
  "IsShutdown s \<longleftrightarrow> serverState s = Shutdown"

definition RESTEndpoint :: "'c Server option \<Rightarrow> ServerSpec" where
  "RESTEndpoint so =
     (case so of
        None \<Rightarrow> \<lparr>SpecServerID = 0, RaftNetworkBind = [], RestNetworkBind = [], GrpcNetworkBind = [],
                 Basedir = [], LogDir = [], MetricBind = []\<rparr>
      | Some s \<Rightarrow> serverSpec s)"

section \<open>The configuration of a new server\<close>

lemma fold_map_set_distinct:
  "distinct (map f ps) \<Longrightarrow> set (map f ps) \<inter> fst ` set acc = {} \<Longrightarrow>
     fold (\<lambda>p m. map_set (f p) (g p) m) ps acc = acc @ map (\<lambda>p. (f p, g p)) ps"
proof (induction ps arbitrary: acc)
  case (Cons p ps)
  have "map_set (f p) (g p) acc = acc @ [(f p, g p)]"
    using Cons.prems(2) by (intro map_set_fresh) auto
  then show ?case using Cons.IH [of "acc @ [(f p, g p)]"] Cons.prems by auto
qed simp

definition binds :: "ServerSpec list \<Rightarrow> string list" where
  "binds ps = map RaftNetworkBind ps"

lemma NewServer_Ret:
  assumes "NewServer stat spec ps port' restOn' = Ret (Inr s)"
  shows "serverState s = Init \<and> serverId s = server_hash (RaftNetworkBind spec) \<and>
    peerSpec s = map (\<lambda>p. p\<lparr>SpecServerID := server_hash (RaftNetworkBind p)\<rparr>) ps \<and> peerClient s = [] \<and>
    db s = Some NewVolatileStorage \<and> committedLog s = Some NewVolatileStorage \<and> LeaderId s = 0 \<and>
    server_peers s = [] \<and> ps \<noteq> [] \<and> quit s = Some (make_chan 0) \<and>
    (\<exists>rs. rest s = Some rs \<and> shutdownRequest rs = None) \<and>
    (\<exists>r. raftState s = Some r \<and> NewRaftProtocol (serverId s) (peersHash s) (int (length ps)) = Inr r)"
  using assms
  by (auto simp: NewServer_def Let_def NewRestfulServer_def split: if_splits sum.splits prod.splits option.splits)

lemma NewServer_config:
  assumes new: "NewServer stat spec ps port' restOn' = Ret (Inr s)"
    and d: "distinct (binds (spec # ps))" and inj: "inj_on server_hash (set (binds (spec # ps)))"
    and r: "raftState s = Some r"
  shows "config_ok r \<and> cluster_ids r = server_hash ` set (binds (spec # ps)) \<and> numberPeers r = int (length ps)"
proof -
  have "fold (\<lambda>p m. map_set (RaftNetworkBind p) (server_hash (RaftNetworkBind p)) m) ps [] =
      map (\<lambda>p. (RaftNetworkBind p, server_hash (RaftNetworkBind p))) ps"
    using fold_map_set_distinct [of RaftNetworkBind ps "[]"] d by (simp add: binds_def)
  then have peers: "peers r = map (\<lambda>p. (RaftNetworkBind p, server_hash (RaftNetworkBind p))) ps"
    and n: "numberPeers r = int (length ps)" and i: "raft_id r = server_hash (RaftNetworkBind spec)"
    using new r
    by (auto simp: NewServer_def NewRaftProtocol_def Let_def split: if_splits sum.splits)
  have snds: "map snd (peers r) = map server_hash (binds ps)" by (simp add: peers binds_def)
  have "inj_on server_hash (set (binds ps))" using inj by (rule inj_on_subset) (auto simp: binds_def)
  then have "distinct (map server_hash (binds ps))"
    using d by (simp add: distinct_map binds_def flip: map_map)
  moreover have "server_hash (RaftNetworkBind spec) \<notin> set (map server_hash (binds ps))"
    using d inj by (auto simp: binds_def inj_on_def)
  ultimately show ?thesis
    unfolding config_ok_def cluster_ids_def snds i n by (simp add: peers binds_def image_image)
qed

section \<open>Invariant of the life cycle\<close>

text \<open>
  Connections belong to configured peers, whose identifiers are the hashes of their addresses; the
  stores exist; the shutdown channel of the REST service is nil, and nothing assigns \<open>LeaderId\<close>.
\<close>

definition peers_known :: "(u64, 'c) gomap \<Rightarrow> ServerSpec list \<Rightarrow> bool" where
  "peers_known pc ps \<longleftrightarrow> fst ` set pc \<subseteq> server_hash ` RaftNetworkBind ` set ps"

lemma peers_known_Nil [simp]: "peers_known [] ps"
  by (simp add: peers_known_def)

definition server_wf :: "'c Server \<Rightarrow> bool" where
  "server_wf s \<longleftrightarrow>
     (\<forall>p \<in> set (peerSpec s). SpecServerID p = server_hash (RaftNetworkBind p)) \<and>
     peers_known (peerClient s) (peerSpec s) \<and> server_inv s \<and> LeaderId s = 0 \<and>
     (\<exists>rs. rest s = Some rs \<and> shutdownRequest rs = None)"

inductive server_step :: "'c Server \<Rightarrow> 'c Server \<Rightarrow> bool" where
  vote: "RequestVoteCall now v (Some s) = (Some s', res) \<Longrightarrow> server_step s s'"
| append: "AppendEntriesCall now req (Some s) = Ret (Some s', res) \<Longrightarrow> server_step s s'"
| submit: "SubmitCall cmd (Some s) = Ret (s', rep, err) \<Longrightarrow> server_step s s'"
| commit: "ReadCommits_iter s = Ret s' \<Longrightarrow> server_step s s'"
| serve: "Serve listen dial (Some s) = Ret (Inr s') \<Longrightarrow> server_step s s'"
| disconnect: "Disconnect (Some s) = (Some s', closed) \<Longrightarrow> server_step s s'"
| reconnect: "Reconnect dial s = Ret s' \<Longrightarrow> server_step s s'"
| shutdown: "Server_Shutdown env (Some s) = Ret (Some s', closed) \<Longrightarrow> server_step s s'"
| shutdownGrpc: "ShutdownGrpc env (Some s) = Ret (Some s', closed) \<Longrightarrow> server_step s s'"
| consensus: "raftState s = Some r \<Longrightarrow>
     section_step \<lparr>nraft = r, delivered = ds\<rparr> \<lparr>nraft = r', delivered = ds'\<rparr> \<Longrightarrow>
     server_step s (s\<lparr>raftState := Some r', commitProducer := ch\<rparr>)"

inductive reachable_server :: "'c Server \<Rightarrow> bool" where
  init: "NewServer stat spec ps port' restOn' = Ret (Inr s) \<Longrightarrow> reachable_server s"
| step: "reachable_server s \<Longrightarrow> server_step s s' \<Longrightarrow> reachable_server s'"

text \<open>
  The last rule of \<open>server_step\<close> stands for the goroutines of the Raft module: one critical section, and
  any change of the commit channel they fill.
\<close>

lemma server_wf_frame:
  "server_wf s \<Longrightarrow> peerSpec s' = peerSpec s \<Longrightarrow> peerClient s' = peerClient s \<or> peerClient s' = [] \<Longrightarrow>
     db s' = db s \<Longrightarrow> committedLog s' = committedLog s \<Longrightarrow> LeaderId s' = LeaderId s \<Longrightarrow>
     rest s' = rest s \<Longrightarrow> server_wf s'"
  by (elim disjE) (simp_all add: server_wf_def server_inv_def)

lemma connect_peer_Ret:
  "connect_peer dial p s = Ret (s', old) \<Longrightarrow>
     \<exists>conn. dial (RaftNetworkBind p) = Some conn \<and>
       s' = s\<lparr>peerClient := map_set (server_hash (RaftNetworkBind p)) conn (peerClient s)\<rparr>"
  by (auto simp: connect_peer_def Let_def split: option.splits)

lemma set_fst_map_set: "fst ` set (map_set k v m) = insert k (fst ` set m)"
  by (metis dom_map_of_conv_image_fst map_of_map_set dom_fun_upd option.distinct(1))

lemma set_fst_fold_map_set:
  "fst ` set (fold (\<lambda>p m. map_set (f p) (g p) m) ps acc) = f ` set ps \<union> fst ` set acc"
  by (induction ps arbitrary: acc) (auto simp: set_fst_map_set)

lemma connect_peers_Ret:
  assumes "connect_peers dial ps s = Ret (s', olds)"
  shows "\<exists>pc. s' = s\<lparr>peerClient := pc\<rparr> \<and>
    fst ` set pc = fst ` set (peerClient s) \<union> server_hash ` RaftNetworkBind ` set ps"
  using assms
proof (induction ps arbitrary: s olds)
  case Nil
  then show ?case by (intro exI [of _ "peerClient s"]) simp
next
  case (Cons p ps)
  from Cons.prems obtain s1 old olds' where c: "connect_peer dial p s = Ret (s1, old)"
    and rec: "connect_peers dial ps s1 = Ret (s', olds')"
    by (auto simp: bind_go_Ret_iff)
  from connect_peer_Ret [OF c] Cons.IH [OF rec] show ?case by (auto simp: set_fst_map_set)
qed

lemma server_wf_connected:
  assumes "server_wf s" "connect_peers dial (peerSpec s) s = Ret (s', olds)"
  shows "server_wf s'"
proof -
  from connect_peers_Ret [OF assms(2)] obtain pc where
    s': "s' = s\<lparr>peerClient := pc\<rparr>"
    and pc: "fst ` set pc = fst ` set (peerClient s) \<union> server_hash ` RaftNetworkBind ` set (peerSpec s)"
    by blast
  have "peers_known pc (peerSpec s)" using assms(1) by (simp add: server_wf_def peers_known_def pc)
  then show ?thesis using assms(1) by (simp add: server_wf_def server_inv_def s')
qed

lemma server_wf_step: "server_step s s' \<Longrightarrow> server_wf s \<Longrightarrow> server_wf s'"
proof (induction rule: server_step.induct)
  case (commit s s')
  from commit(1) obtain msg ch where "ReadCommits_store msg (s\<lparr>commitProducer := ch\<rparr>) = Ret s'"
    by (auto simp: ReadCommits_iter_def bind_go_Ret_iff)
  moreover have "server_inv (s\<lparr>commitProducer := ch\<rparr>)" using commit(2) by (simp add: server_wf_def server_inv_def)
  ultimately show ?case
    using commit(2) by (auto simp: ReadCommits_store_Ret server_wf_def server_inv_def vol.set_inv)
next
  case (serve listen dial s s')
  from serve(1) obtain s2 olds where
    con: "connect_peers dial (peerSpec (s\<lparr>rpc := True\<rparr>)) (s\<lparr>rpc := True\<rparr>) = Ret (s2, olds)"
    and s': "s' = s2\<lparr>serverState := Running, rest := map_option (\<lambda>rs. rs\<lparr>healthy := 1\<rparr>) (rest s2)\<rparr>"
    by (auto simp: Serve_def Server_StartRest_def createListener_def bind_go_Ret_iff split: if_splits)
  have "server_wf (s\<lparr>rpc := True\<rparr>)" using serve(2) by (rule server_wf_frame) simp_all
  from server_wf_connected [OF this con] show ?case by (auto simp: s' server_wf_def server_inv_def)
next
  case (reconnect dial s s')
  from reconnect(1) obtain s2 olds where con: "connect_peers dial (peerSpec s) s = Ret (s2, olds)"
    and s': "s' = s2\<lparr>serverState := Running\<rparr>"
    by (auto simp: Reconnect_def bind_go_Ret_iff)
  from server_wf_connected [OF reconnect(2) con] show ?case by (auto simp: s' server_wf_def server_inv_def)
next
  case (shutdown env s s' closed)
  then show ?case
    by (auto simp: Server_Shutdown_def shutdownRest_def Let_def bind_go_Ret_iff server_wf_def server_inv_def
        split: if_splits option.splits)
qed (auto simp: RequestVoteCall_def AppendEntriesCall_def SubmitCall_def Disconnect_def ShutdownGrpc_def
    Let_def bind_go_Ret_iff server_wf_def server_inv_def split: option.splits if_splits prod.splits)

lemma server_wf_new: "NewServer stat spec ps port' restOn' = Ret (Inr s) \<Longrightarrow> server_wf s"
  using NewVolatileStorage_inv by (auto dest!: NewServer_Ret simp: server_wf_def server_inv_def)

lemma reachable_server_wf: "reachable_server s \<Longrightarrow> server_wf s"
  by (induction rule: reachable_server.induct) (auto intro: server_wf_new server_wf_step)

section \<open>The report of the peers\<close>

lemma getPeerSpec_found:
  assumes "server_wf s" "k \<in> fst ` set (peerClient s)"
  shows "\<exists>p \<in> set (peerSpec s). getPeerSpec k s = Inr p \<and> SpecServerID p = k"
proof -
  have "k \<in> server_hash ` RaftNetworkBind ` set (peerSpec s)" using assms unfolding server_wf_def peers_known_def by blast
  moreover have "\<forall>p \<in> set (peerSpec s). SpecServerID p = server_hash (RaftNetworkBind p)"
    using assms(1) by (simp add: server_wf_def)
  ultimately have "\<exists>p \<in> set (peerSpec s). SpecServerID p = k" by auto
  then obtain p where p: "find (\<lambda>v. SpecServerID v = k) (peerSpec s) = Some p"
    by (cases "find (\<lambda>v. SpecServerID v = k) (peerSpec s)") (auto simp: find_None_iff)
  then have "p \<in> set (peerSpec s)" "SpecServerID p = k" by (auto simp: find_Some_iff)
  then show ?thesis using p by (auto simp: getPeerSpec_def intro!: bexI [of _ p])
qed

lemma peer_status_loop_returns:
  assumes "server_wf s" "fst ` set kvs \<subseteq> fst ` set (peerClient s)"
  shows "\<exists>m. peer_status_loop cs kvs s acc = Ret m \<and> dom (map_of m) = dom (map_of acc) \<union> fst ` set kvs"
  using assms(2)
proof (induction kvs arbitrary: acc)
  case (Cons kv kvs)
  obtain k v where kv: "kv = (k, v)" by (cases kv)
  from Cons.prems getPeerSpec_found [OF assms(1), of k] obtain p where "getPeerSpec k s = Inr p"
    by (auto simp: kv)
  moreover have "fst ` set kvs \<subseteq> fst ` set (peerClient s)" using Cons.prems by simp
  ultimately show ?case
    using Cons.IH [of "map_set k \<lparr>Endpoints = endpoints_of p, psState = cs v\<rparr> acc"] by (auto simp: kv)
qed auto

lemma Server_PeerStatus_returns:
  assumes "server_wf s"
  shows "\<exists>m. Server_PeerStatus cs rdy (Some s) = Ret m \<and>
    dom (map_of m) = insert (serverId s) (fst ` set (peerClient s))"
  using peer_status_loop_returns [OF assms subset_refl, of cs "[]"]
  by (auto simp: Server_PeerStatus_def ServerID_def)

section \<open>Shutdown\<close>

lemma wait_released_free: "wait_released free i = Some j \<Longrightarrow> free j"
  by (rule wait_released.raw_induct [of "\<lambda>free i j. free j", rotated]) (auto split: if_splits)

lemma wait_released_never: "(\<forall>i. \<not> free i) \<Longrightarrow> wait_released free i = None"
  using wait_released_free [of free i] by (cases "wait_released free i") auto

lemma wait_released_reached: "free (i + k) \<Longrightarrow> \<exists>j. wait_released free i = Some j"
proof (induction k arbitrary: i)
  case 0
  then show ?case by (subst wait_released.simps) simp
next
  case (Suc k)
  then have "\<exists>j. wait_released free (Suc i) = Some j" by simp
  then show ?case by (subst wait_released.simps) simp
qed

lemma shutdownRest_None [simp]: "shutdownRest ro = None \<longleftrightarrow> ro = None"
  by (auto simp: shutdownRest_def Let_def split: option.splits)

section \<open>Elections among servers of one cluster\<close>

text \<open>The list every server but the one at position \<open>a\<close> is configured with.\<close>

definition others :: "nat \<Rightarrow> 'a list \<Rightarrow> 'a list" where
  "others a xs = take a xs @ drop (Suc a) xs"

lemma mset_others: "a < length xs \<Longrightarrow> mset (xs ! a # others a xs) = mset xs"
  using arg_cong [OF id_take_nth_drop [symmetric], of a xs mset] by (simp add: others_def)

lemma set_others: "a < length xs \<Longrightarrow> insert (xs ! a) (set (others a xs)) = set xs"
  using mset_eq_setD [OF mset_others] by fastforce

lemma distinct_others: "a < length xs \<Longrightarrow> distinct xs \<Longrightarrow> distinct (xs ! a # others a xs)"
  using mset_eq_imp_distinct_iff [OF mset_others] by blast

lemma binds_others: "a < length ps \<Longrightarrow> binds (ps ! a # others a ps) = binds ps ! a # others a (binds ps)"
  by (simp add: binds_def others_def take_map drop_map)

lemma config_of_cluster:
  "config_of r = config_of r' \<Longrightarrow> config_ok r = config_ok r' \<and> cluster_ids r = cluster_ids r' \<and> peers r = peers r'"
  by (simp add: config_of_def config_ok_def cluster_ids_def)

lemma NewServer_node_config:
  assumes d: "distinct (binds specs)" "inj_on server_hash (set (binds specs))" and a: "a < length specs"
    and new: "NewServer stat (specs ! a) (others a specs) port' restOn' = Ret (Inr s)"
    and r: "raftState s = Some r" and run: "rtranclp section_step \<lparr>nraft = r, delivered = []\<rparr> n"
  shows "config_ok (nraft n) \<and> cluster_ids (nraft n) = server_hash ` set (binds specs)"
proof -
  have b: "binds (specs ! a # others a specs) = binds specs ! a # others a (binds specs)"
    by (rule binds_others [OF a])
  have len: "a < length (binds specs)" using a by (simp add: binds_def)
  have "config_ok r \<and> cluster_ids r = server_hash ` set (binds (specs ! a # others a specs))"
    using NewServer_config [OF new _ _ r] distinct_others [OF len d(1)] set_others [OF len] d(2)
    unfolding b by simp
  then show ?thesis
    using config_of_cluster [OF sections_config [OF run]] set_others [OF len] unfolding b by simp
qed

lemma length_peers: "config_ok r \<Longrightarrow> length (peers r) < card (cluster_ids r)"
  using card_cluster_ids [of r] by (simp add: config_ok_def)

lemma common_voter:
  assumes ok: "config_ok r1" "config_ok r2" and same: "cluster_ids r1 = cluster_ids r2"
    and small: "card (cluster_ids r1) \<le> 2 ^ 62"
    and b1: "ballot_run now1 r1 b1" "state (bRaft b1) = Leader"
    and b2: "ballot_run now2 r2 b2" "state (bRaft b2) = Leader"
  shows "\<exists>v. v \<in> insert (raft_id r1) (set (granted b1)) \<and> v \<in> insert (raft_id r2) (set (granted b2))"
proof -
  have len: "length (peers r1) < 2 ^ 62" "length (peers r2) < 2 ^ 62"
    using length_peers [OF ok(1)] length_peers [OF ok(2)] small same by auto
  from ballot_winner [OF b1(1) ok(1) len(1) b1(2)] ballot_winner [OF b2(1) ok(2) len(2) b2(2)]
  obtain V W where V: "V = insert (raft_id r1) (set (granted b1))" "V \<subseteq> cluster_ids r1" "majority (int (card V)) r1"
    and W: "W = insert (raft_id r2) (set (granted b2))" "W \<subseteq> cluster_ids r2" "majority (int (card W)) r2"
    by blast
  have "numberPeers r1 = numberPeers r2"
    using card_cluster_ids [OF ok(1)] card_cluster_ids [OF ok(2)] same by simp
  then have "majority (int (card W)) r1" using W(3) by (simp add: majority_def)
  from raftq.quorums_intersect [OF ok(1) V(2) _ V(3) this] W(2) same
  have "V \<inter> W \<noteq> {}" by simp
  then show ?thesis using V(1) W(1) by auto
qed

end
