(* ===== verification/Base64.thy ===== *)
theory Base64
  imports Go_Prelude
begin

text \<open>
  \<open>base64.URLEncoding\<close> of Go's standard library, as the REST client and server use it
  (\<open>EncodeToString\<close>, \<open>DecodeString\<close>): the URL-safe alphabet, three bytes to four digits, padding with
  \<open>=\<close>. The decoder skips carriage returns and line feeds, requires the padding, and ignores the
  unused low bits of the last digit. The offset that Go's \<open>CorruptInputError\<close> carries is not modelled.
\<close>

definition b64_alphabet :: string where
  "b64_alphabet = ''ABCDEFGHIJKLMNOPQRSTUVWXYZabcdefghijklmnopqrstuvwxyz0123456789-_''"

definition b64_digit :: "nat \<Rightarrow> char" where
  "b64_digit n = b64_alphabet ! (n mod 64)"

fun find_index :: "'a \<Rightarrow> 'a list \<Rightarrow> nat option" where
  "find_index x [] = None"
| "find_index x (y # ys) = (if x = y then Some 0 else map_option Suc (find_index x ys))"

definition b64_value :: "char \<Rightarrow> nat option" where
  "b64_value c = find_index c b64_alphabet"

fun b64_enc :: "nat list \<Rightarrow> string" where
  "b64_enc [] = []"
| "b64_enc [x] = [b64_digit (x div 4), b64_digit (x mod 4 * 16), CHR ''='', CHR ''='']"
| "b64_enc [x, y] =
     [b64_digit (x div 4), b64_digit (x mod 4 * 16 + y div 16), b64_digit (y mod 16 * 4), CHR ''='']"
| "b64_enc (x # y # z # rest) =
     b64_digit (x div 4) # b64_digit (x mod 4 * 16 + y div 16) #
     b64_digit (y mod 16 * 4 + z div 64) # b64_digit (z mod 64) # b64_enc rest"

fun b64_dec :: "string \<Rightarrow> nat list option" where
  "b64_dec [] = Some []"
| "b64_dec (a # b # c # d # rest) =
     (case (b64_value a, b64_value b) of
        (Some va, Some vb) \<Rightarrow>
          (if c = CHR ''='' then
             (if d = CHR ''='' \<and> rest = [] then Some [va * 4 + vb div 16] else None)
           else (case b64_value c of
             None \<Rightarrow> None
           | Some vc \<Rightarrow>
               (if d = CHR ''='' then
                  (if rest = [] then Some [va * 4 + vb div 16, vb mod 16 * 16 + vc div 4] else None)
                else (case b64_value d of
                  None \<Rightarrow> None
                | Some vd \<Rightarrow>
                    map_option
                      (\<lambda>r. (va * 4 + vb div 16) # (vb mod 16 * 16 + vc div 4) # (vc mod 4 * 64 + vd) # r)
                      (b64_dec rest)))))
      | _ \<Rightarrow> None)"
| "b64_dec _ = None"

definition EncodeToString :: "bytes \<Rightarrow> string" where
  "EncodeToString src = b64_enc (map unat src)"

definition DecodeString :: "string \<Rightarrow> bytes option" where
  "DecodeString s =
     map_option (map of_nat) (b64_dec (filter (\<lambda>c. c \<noteq> CHR 10 \<and> c \<noteq> CHR 13) s))"

section \<open>Digits\<close>

definition b64_digit_ok :: "nat \<Rightarrow> bool" where
  "b64_digit_ok n \<longleftrightarrow> b64_value (b64_digit n) = Some n \<and> b64_digit n \<noteq> CHR ''='' \<and>
     b64_digit n \<noteq> CHR ''/'' \<and> b64_digit n \<noteq> CHR 10 \<and> b64_digit n \<noteq> CHR 13"

lemma b64_digits_ok: "list_all b64_digit_ok [0..<64]"
  by code_simp

lemma b64_digit_facts:
  assumes "n < 64"
  shows "b64_value (b64_digit n) = Some n" "b64_digit n \<noteq> CHR ''=''" "b64_digit n \<noteq> CHR ''/''"
    "b64_digit n \<noteq> CHR 10" "b64_digit n \<noteq> CHR 13"
  using b64_digits_ok assms by (auto simp: list_all_iff b64_digit_ok_def)

lemma sextet_bounds [simp]:
  "(x::nat) < 256 \<Longrightarrow> x div 4 < 64"
  "x mod 4 * 16 < 64"
  "y < 256 \<Longrightarrow> x mod 4 * 16 + y div 16 < 64"
  "y mod 16 * 4 < 64"
  "z < 256 \<Longrightarrow> y mod 16 * 4 + z div 64 < 64"
  "z mod 64 < 64"
  by (auto intro: order.strict_trans2 simp: less_mult_imp_div_less)

lemma sextet_joins [simp]:
  "(y::nat) < 256 \<Longrightarrow> y div 16 div 16 = 0"
  "y < 256 \<Longrightarrow> y div 16 mod 16 * 16 + y mod 16 = y"
  "y < 256 \<Longrightarrow> y div 64 div 4 = 0"
  "y < 256 \<Longrightarrow> y div 64 mod 4 * 64 + y mod 64 = y"
  by (simp_all add: div_mult2_eq [symmetric] less_mult_imp_div_less)

section \<open>The decoder undoes the encoder\<close>

lemma b64_dec_enc: "\<forall>x \<in> set xs. x < 256 \<Longrightarrow> b64_dec (b64_enc xs) = Some xs"
  by (induction xs rule: b64_enc.induct) (simp_all add: b64_digit_facts)

lemma b64_enc_chars:
  "\<forall>x \<in> set xs. x < 256 \<Longrightarrow> c \<in> set (b64_enc xs) \<Longrightarrow>
     c \<noteq> CHR ''/'' \<and> c \<noteq> CHR 10 \<and> c \<noteq> CHR 13"
  by (induction xs rule: b64_enc.induct) (auto simp: b64_digit_facts)

lemma unat_byte_bound: "\<forall>x \<in> set (map unat (bs :: bytes)). x < 256"
  using unsigned_less [where ?'a = nat and ?'b = 8] by simp

lemma EncodeToString_chars:
  "c \<in> set (EncodeToString src) \<Longrightarrow> c \<noteq> CHR ''/'' \<and> c \<noteq> CHR 10 \<and> c \<noteq> CHR 13"
  unfolding EncodeToString_def by (rule b64_enc_chars [OF unat_byte_bound])

lemma Decode_Encode [simp]: "DecodeString (EncodeToString src) = Some src"
proof -
  have "filter (\<lambda>c. c \<noteq> CHR 10 \<and> c \<noteq> CHR 13) (EncodeToString src) = EncodeToString src"
    by (auto simp: filter_id_conv dest: EncodeToString_chars)
  then show ?thesis
    by (simp add: DecodeString_def EncodeToString_def b64_dec_enc [OF unat_byte_bound] comp_def)
qed

lemma EncodeToString_eq_Nil [simp]: "EncodeToString src = [] \<longleftrightarrow> src = []"
  unfolding EncodeToString_def by (cases "map unat src" rule: b64_enc.cases) auto

text \<open>The segments of a path that the encoder produces.\<close>

definition url_segment :: "string \<Rightarrow> bool" where
  "url_segment k \<longleftrightarrow> k \<noteq> [] \<and> set k \<subseteq> insert (CHR ''='') (set b64_alphabet)"

lemma b64_digit_in: "b64_digit n \<in> set b64_alphabet"
proof -
  have "length b64_alphabet = 64" by code_simp
  then show ?thesis unfolding b64_digit_def by (intro nth_mem) simp
qed

lemma b64_enc_alphabet: "set (b64_enc xs) \<subseteq> insert (CHR ''='') (set b64_alphabet)"
  by (induction xs rule: b64_enc.induct) (auto simp: b64_digit_in)

lemma EncodeToString_segment: "src \<noteq> [] \<Longrightarrow> url_segment (EncodeToString src)"
  unfolding url_segment_def using b64_enc_alphabet [of "map unat src"] by (simp add: EncodeToString_def [symmetric])

lemma url_segment_slash: "url_segment k \<Longrightarrow> CHR ''/'' \<notin> set k"
proof -
  have "CHR ''/'' \<notin> insert (CHR ''='') (set b64_alphabet)" by code_simp
  then show "url_segment k \<Longrightarrow> CHR ''/'' \<notin> set k" unfolding url_segment_def by blast
qed

interpretation b64: codec EncodeToString DecodeString
  by unfold_locales simp

text \<open>Distinct keys have distinct routes.\<close>

lemma key_routes_distinct: "EncodeToString (bytes_of_string k) = EncodeToString (bytes_of_string k') \<longleftrightarrow> k = k'"
  by (simp add: b64.enc_inject str.enc_inject)

end
