(* ===== verification/Rest.thy ===== *)
theory Rest
  imports Server_Life Base64
begin

text \<open>
  The REST handlers of \<open>pkg/server/rest_server.go\<close>. A handler is a function of the route variables and the
  server; its result is the HTTP status with the value that is marshalled to JSON, or an error text.
  Writing the response and the JSON encoding itself are left out, as are the HTML templates; error texts
  are abbreviated. The route
  variables come from the router, \<open>parseInt\<close> is \<open>strconv.ParseInt\<close>, \<open>decode\<close> is the gob decoder, and the
  calls to the REST services of other servers are arguments.
\<close>

section \<open>Responses\<close>

record LeaderRespond =
  lrLeader :: u64
  lrSuccess :: bool
  lrGrpcBinding :: string
  lrRestBinding :: string

record LogRespondEntry =
  leKey :: string
  leValue :: string
  leTerm :: u64
  leSynced :: bool

record LogRespond =
  Last_page :: int
  Data :: "LogRespondEntry list"

record HttpValueRespond =
  hvValue :: bytes
  hvSuccess :: bool

record Peer =
  ServerNei :: string
  PeerServerID :: string

record Info =
  infoBind :: string
  infoID :: string
  Role :: string
  infoTerm :: u64
  infoUpdate :: string
  infoElection :: string
  Connected :: "Peer list"

record PageData =
  pageServerID :: string
  ServerStatus :: "Info list"
  NumPeers :: u64

record 'h FlowRespond =
  flowLast_page :: int
  flowData :: "'h list"

text \<open>\<open>Written st x\<close>: status and value; \<open>Failed st msg\<close>: \<open>http.Error\<close>; \<open>Nothing\<close>: status 200, no body.\<close>

datatype 'b response = Written nat 'b | Failed nat string | Nothing

definition DefaultLogSize :: int where "DefaultLogSize = 5"

fun digits :: "nat \<Rightarrow> string" where
  "digits n = (if n < 10 then [char_of (48 + n)] else digits (n div 10) @ [char_of (48 + n mod 10)])"

declare digits.simps [simp del]

definition FormatUint :: "u64 \<Rightarrow> string" where
  "FormatUint i = digits (unat i)"

definition Max_int :: "int \<Rightarrow> int \<Rightarrow> int" where
  "Max_int x y = (if x > y then x else y)"

definition Min_int :: "int \<Rightarrow> int \<Rightarrow> int" where
  "Min_int x y = (if x > y then x else y)"

definition parse_limit :: "(string \<Rightarrow> int option) \<Rightarrow> string \<Rightarrow> int" where
  "parse_limit parseInt logSize =
     (if length logSize > 0 then (case parseInt logSize of Some i2 \<Rightarrow> i2 | None \<Rightarrow> DefaultLogSize)
      else DefaultLogSize)"

section \<open>Keys and values\<close>

definition SubmitKeyValue ::
  "string \<Rightarrow> string \<Rightarrow> 'c Server \<Rightarrow> ('c Server \<times> SubmitReply option response) go" where
  "SubmitKeyValue key val s =
     (if length key = 0 then Ret (s, Failed 400 ''empty key'')
      else if length val = 0 then Ret (s, Failed 400 ''empty value'')
      else (case DecodeString key of
              None \<Rightarrow> Ret (s, Failed 406 ''illegal base64 data'')
            | Some encodedKey \<Rightarrow>
                (case DecodeString val of
                   None \<Rightarrow> Ret (s, Failed 406 ''illegal base64 data'')
                 | Some encodedVal \<Rightarrow>
                     bind_go (SubmitCall (Some \<lparr>Key = string_of_bytes encodedKey, Value = encodedVal\<rparr>) (Some s))
                       (\<lambda>(s1, submitResp, err).
                          Ret (s1, case err of Some _ \<Rightarrow> Failed 423 ''server state''
                                            | None \<Rightarrow> Written 201 submitResp)))))"

definition getValue :: "string \<Rightarrow> 'c Server \<Rightarrow> HttpValueRespond response" where
  "getValue key s =
     (if length key = 0 then Nothing
      else (case DecodeString key of
              None \<Rightarrow> Failed 404 ''failed decode key''
            | Some encodedVal \<Rightarrow>
                (let (submitResp, ok) = VolatileStorage_Get (db s) (string_of_bytes encodedVal)
                 in if ok = False then Failed 404 ''key not found''
                    else Written 200 \<lparr>hvValue = submitResp, hvSuccess = ok\<rparr>)))"

section \<open>Log and store\<close>

text \<open>The loop of \<open>getLog\<close>, from \<open>i\<close> down to \<open>chunkSize\<close>; a log entry without command panics.\<close>

fun log_loop :: "nat \<Rightarrow> int \<Rightarrow> LogEntry list \<Rightarrow> LogRespond \<Rightarrow> LogRespond go" where
  "log_loop 0 chunkSize log resp = Ret resp"
| "log_loop (Suc i) chunkSize log resp =
     (if int i \<ge> chunkSize then
        bind_go (go_index log i) (\<lambda>e.
          case eCommand e of
            None \<Rightarrow> Panic NilDereference
          | Some c \<Rightarrow>
              log_loop i chunkSize log
                \<lparr>Last_page = Last_page resp + 1,
                 Data = Data resp @ [\<lparr>leKey = Key c, leValue = string_of_bytes (Value c), leTerm = eTerm e,
                                      leSynced = True\<rparr>]\<rparr>)
      else Ret resp)"

definition getLog_rest :: "(string \<Rightarrow> int option) \<Rightarrow> string \<Rightarrow> 'c Server \<Rightarrow> LogRespond response go" where
  "getLog_rest parseInt logSize s =
     (case raftState s of
        None \<Rightarrow> Panic NilDereference
      | Some r \<Rightarrow>
          let log = getLog r;
              limit = parse_limit parseInt logSize;
              chunkSize = Max_int 0 (int (length log) - limit)
          in bind_go (log_loop (length log) chunkSize log \<lparr>Last_page = 0, Data = []\<rparr>)
               (\<lambda>resp. Ret (Written 200 resp)))"

fun committed_loop :: "int \<Rightarrow> (string \<times> bytes) list \<Rightarrow> int \<Rightarrow> LogRespondEntry list \<Rightarrow> LogRespondEntry list" where
  "committed_loop chunkSize [] cnt resp = resp"
| "committed_loop chunkSize ((k, v) # kvs) cnt resp =
     (if cnt = chunkSize then resp
      else committed_loop chunkSize kvs (cnt + 1)
             (resp @ [\<lparr>leKey = k, leValue = string_of_bytes v, leTerm = 0, leSynced = False\<rparr>]))"

text \<open>
  The range over a map visits its keys in an order the language leaves open: \<open>order m\<close> lists the entries of the copy
  in the order in which they come.
\<close>

definition getCommitted ::
  "((string, bytes) gomap \<Rightarrow> (string \<times> bytes) list) \<Rightarrow> (string \<Rightarrow> int option) \<Rightarrow> string \<Rightarrow> 'c Server \<Rightarrow> LogRespondEntry list response go" where
  "getCommitted order parseInt logSize s =
     bind_go (VolatileStorage_GetCopy (db s)) (\<lambda>storageCopy.
     let limit = parse_limit parseInt logSize;
         chunkSize = Min_int (int (length storageCopy)) limit
     in Ret (Written 200 (committed_loop chunkSize (order storageCopy) 0 [])))"

fun flows_loop ::
  "(bytes \<Rightarrow> 'h list option) \<Rightarrow> int \<Rightarrow> (string \<times> bytes) list \<Rightarrow> int \<Rightarrow> 'h FlowRespond \<Rightarrow> 'h FlowRespond option" where
  "flows_loop decode chunkSize [] cnt resp = Some resp"
| "flows_loop decode chunkSize ((k, v) # kvs) cnt resp =
     (if cnt = chunkSize then Some resp
      else (case decode v of
              None \<Rightarrow> None
            | Some f \<Rightarrow> flows_loop decode chunkSize kvs (cnt + 1) (resp\<lparr>flowData := flowData resp @ f\<rparr>)))"

definition HandlerFlows ::
  "((string, bytes) gomap \<Rightarrow> (string \<times> bytes) list) \<Rightarrow> (string \<Rightarrow> int option) \<Rightarrow> (bytes \<Rightarrow> 'h list option) \<Rightarrow> string \<Rightarrow> 'c Server \<Rightarrow> 'h FlowRespond response go" where
  "HandlerFlows order parseInt decode logSize s =
     bind_go (VolatileStorage_GetCopy (db s)) (\<lambda>storageCopy.
     let limit = parse_limit parseInt logSize;
         chunkSize = Min_int (int (length storageCopy)) limit
     in Ret (case flows_loop decode chunkSize (order storageCopy) 0 \<lparr>flowLast_page = chunkSize, flowData = []\<rparr> of
               None \<Rightarrow> Failed 500 ''gob''
             | Some resp \<Rightarrow> Written 200 resp))"

definition HandlerCommitedSize :: "'c Server \<Rightarrow> int response go" where
  "HandlerCommitedSize s = bind_go (VolatileStorage_Size (db s)) (\<lambda>n. Ret (Written 200 n))"

section \<open>Leader, roles and peers\<close>

definition leader :: "'c Server \<Rightarrow> LeaderRespond response go" where
  "leader s =
     (case RaftState s of
        None \<Rightarrow> Panic NilDereference
      | Some r \<Rightarrow>
          let (leaderId, _, ok) = Status r in
          if ok then
            Ret (Written 200 \<lparr>lrLeader = leaderId, lrSuccess = True,
              lrGrpcBinding = GrpcNetworkBind (serverSpec s), lrRestBinding = RestNetworkBind (serverSpec s)\<rparr>)
          else
            (case LastLeader (Some s) of
               (Some spec, vip, True) \<Rightarrow>
                 Ret (Written 200 \<lparr>lrLeader = vip, lrSuccess = False,
                   lrGrpcBinding = GrpcNetworkBind spec, lrRestBinding = RestNetworkBind spec\<rparr>)
             | _ \<Rightarrow> Ret Nothing))"

text \<open>\<open>fmtUpdate\<close> and \<open>fmtElection\<close> print a time.\<close>

definition current_info :: "(time \<Rightarrow> string) \<Rightarrow> (time \<Rightarrow> string) \<Rightarrow> raft \<Rightarrow> 'c Server \<Rightarrow> Info" where
  "current_info fmtUpdate fmtElection r s =
     (let (term', st, lastElection) = getState r in
      \<lparr>infoBind = RaftNetworkBind (serverSpec s), infoID = FormatUint (serverId s), Role = ProtocolState_String st,
       infoTerm = term', infoUpdate = fmtUpdate (LastUpdate s), infoElection = fmtElection lastElection,
       Connected = []\<rparr>)"

definition HandlerRole :: "(time \<Rightarrow> string) \<Rightarrow> (time \<Rightarrow> string) \<Rightarrow> 'c Server \<Rightarrow> Info response go" where
  "HandlerRole fmtUpdate fmtElection s =
     (case raftState s of
        None \<Rightarrow> Panic NilDereference
      | Some r \<Rightarrow> Ret (Written 200 (current_info fmtUpdate fmtElection r s)))"

text \<open>
  The loop of \<open>HandlerIndex\<close> over the peers: \<open>status\<close> is what \<open>HandlerPeeStatus\<close> returns for an address.
  A live peer is linked to the last live server before it.
\<close>

fun index_loop :: "(string \<Rightarrow> Info option) \<Rightarrow> ServerSpec list \<Rightarrow> Peer \<Rightarrow> Info list \<Rightarrow> Info list \<times> Peer" where
  "index_loop status [] prev acc = (acc, prev)"
| "index_loop status (p # ps) prev acc =
     (let (pstat, pterm, pupdate, pelecte) =
            (case status (RestNetworkBind p) of
               None \<Rightarrow> (''Dead'', 0, [], [])
             | Some i \<Rightarrow> (Role i, infoTerm i, infoUpdate i, infoElection i));
          currentPeerId = FormatUint (GetPeerID (RaftNetworkBind p));
          cur = \<lparr>infoBind = RaftNetworkBind p, infoID = currentPeerId, Role = pstat, infoTerm = pterm,
                 infoUpdate = pupdate, infoElection = pelecte,
                 Connected = (if pstat \<noteq> ''Dead'' then [prev] else [])\<rparr>;
          prev' = (if pstat \<noteq> ''Dead'' then \<lparr>ServerNei = RaftNetworkBind p, PeerServerID = currentPeerId\<rparr> else prev)
      in index_loop status ps prev' (acc @ [cur]))"

text \<open>
  What becomes of an HTML template: \<open>template.Must\<close> panics when the file does not parse, and an error of its
  execution is reported with status 400.
\<close>

datatype template_run = ParseFails | ExecuteFails | Executes

fun render :: "template_run \<Rightarrow> 'b \<Rightarrow> 'b response go" where
  "render ParseFails data = Panic (ExplicitPanic ''template'')"
| "render ExecuteFails data = Ret (Failed 400 ''template'')"
| "render Executes data = Ret (Written 200 data)"

definition HandlerIndex ::
  "template_run \<Rightarrow> (time \<Rightarrow> string) \<Rightarrow> (time \<Rightarrow> string) \<Rightarrow> (string \<Rightarrow> Info option) \<Rightarrow> 'c Server \<Rightarrow> PageData response go" where
  "HandlerIndex tmpl fmtUpdate fmtElection status s =
     (if tmpl = ParseFails then Panic (ExplicitPanic ''template'')
      else case raftState s of
        None \<Rightarrow> Panic NilDereference
      | Some r \<Rightarrow>
          let currentServer = current_info fmtUpdate fmtElection r s;
              (infos, svp) = index_loop status (peerSpec s)
                \<lparr>ServerNei = RaftNetworkBind (serverSpec s), PeerServerID = infoID currentServer\<rparr> []
          in render tmpl \<lparr>pageServerID = serverBind s,
                  ServerStatus = currentServer\<lparr>Connected := Connected currentServer @ [svp]\<rparr> # infos,
                  NumPeers = of_nat (length (server_peers s))\<rparr>)"

section \<open>Control\<close>

text \<open>\<open>remote\<close> tells whether the call to another server's shutdown route fails.\<close>

definition HandlerNodeShutdown ::
  "shutdown_env \<Rightarrow> (string \<Rightarrow> bool) \<Rightarrow> string \<Rightarrow> 'c Server \<Rightarrow> ('c Server \<times> unit response) go" where
  "HandlerNodeShutdown env remote n s =
     (if length n = 0 then Ret (s, Failed 404 ''node not found'')
      else if n = RaftNetworkBind (serverSpec s) then
        bind_go (ShutdownGrpc env (Some s)) (\<lambda>(so, _).
          Ret (case so of Some s' \<Rightarrow> s' | None \<Rightarrow> s, Failed 202 ''node not found''))
      else (case find (\<lambda>p. RaftNetworkBind p = n) (peerSpec s) of
              Some p \<Rightarrow> Ret (s, if remote (RestNetworkBind p) then Failed 404 ''node not found'' else Nothing)
            | None \<Rightarrow> Ret (s, Failed 202 ''Key not found'')))"

definition healthz :: "Restful \<Rightarrow> nat" where
  "healthz rs = (if healthy rs = 1 then 204 else 503)"

section \<open>Round trip of a value\<close>

lemma SubmitKeyValue_submits:
  assumes "key \<noteq> []" "val \<noteq> []"
  shows "SubmitKeyValue (EncodeToString (bytes_of_string key)) (EncodeToString val) s =
    bind_go (SubmitCall (Some \<lparr>Key = key, Value = val\<rparr>) (Some s))
      (\<lambda>(s1, submitResp, err).
        Ret (s1, case err of Some _ \<Rightarrow> Failed 423 ''server state'' | None \<Rightarrow> Written 201 submitResp))"
proof -
  have "bytes_of_string key \<noteq> []" using assms(1) by (simp add: bytes_of_string_def)
  then show ?thesis using assms(2) by (simp add: SubmitKeyValue_def)
qed

lemma SubmitCall_leader:
  assumes "serverState s = Running" "raftState s = Some r" "state r = Leader" "unat (LeaderId s) < length (peerSpec s)"
  shows "SubmitCall (Some kv) (Some s) =
    Ret (s\<lparr>submitRx := submitRx s + 1,
           raftState := Some (append_log (stateLog r) [\<lparr>eTerm = currentTerm r, eCommand = Some kv\<rparr>] r)\<rparr>,
         Some \<lparr>srSuccess = True, srLeaderId = LeaderId s, srNodeId = serverId s,
               srAddress = RaftNetworkBind (peerSpec s ! unat (LeaderId s))\<rparr>, None)"
  using assms by (simp add: SubmitCall_def state_guard_def Submit_def go_simps Let_def)

lemma SubmitCall_not_leader:
  assumes "serverState s = Running" "raftState s = Some r" "state r \<noteq> Leader"
  shows "SubmitCall (Some kv) (Some s) =
    Ret (s\<lparr>submitRx := submitRx s + 1, raftState := Some r\<rparr>, None, None)"
  using assms by (simp add: SubmitCall_def state_guard_def Submit_def Let_def)

lemma getValue_stored:
  assumes "key \<noteq> []" "VolatileStorage_Get (db s) key = (v, True)"
  shows "getValue (EncodeToString (bytes_of_string key)) s = Written 200 \<lparr>hvValue = v, hvSuccess = True\<rparr>"
proof -
  have "bytes_of_string key \<noteq> []" using assms(1) by (simp add: bytes_of_string_def)
  then show ?thesis using assms(2) by (simp add: getValue_def)
qed

section \<open>Chunks\<close>

definition log_entry_respond :: "LogEntry \<Rightarrow> LogRespondEntry" where
  "log_entry_respond e =
     (case eCommand e of
        Some c \<Rightarrow> \<lparr>leKey = Key c, leValue = string_of_bytes (Value c), leTerm = eTerm e, leSynced = True\<rparr>
      | None \<Rightarrow> \<lparr>leKey = [], leValue = [], leTerm = eTerm e, leSynced = True\<rparr>)"

lemma leTerm_respond: "map leTerm (map log_entry_respond es) = map eTerm es"
  by (auto simp: log_entry_respond_def split: option.splits)

lemma log_loop_Ret:
  assumes "\<forall>e \<in> set log. eCommand e \<noteq> None" "n \<le> length log" "0 \<le> c"
  shows "log_loop n c log resp =
    Ret \<lparr>Last_page = Last_page resp + int (n - nat c),
         Data = Data resp @ map log_entry_respond (rev (drop (nat c) (take n log)))\<rparr>"
  using assms(2)
proof (induction n arbitrary: resp)
  case (Suc n)
  show ?case
  proof (cases "int n \<ge> c")
    case True
    have "log ! n \<in> set log" using Suc.prems by simp
    then obtain k where k: "eCommand (log ! n) = Some k" using assms(1) by auto
    have "drop (nat c) (take (Suc n) log) = drop (nat c) (take n log) @ [log ! n]"
      using True Suc.prems assms(3) by (simp add: take_Suc_conv_app_nth)
    then show ?thesis
      using Suc True k assms(3) by (simp add: go_simps log_entry_respond_def)
  next
    case False
    then have "nat c \<ge> Suc n" by linarith
    then show ?thesis using False by simp
  qed
qed simp

text \<open>The log page: \<open>getLog\<close> returns the newest \<open>limit\<close> entries, newest first, and counts them.\<close>

lemma log_page_is_newest_first:
  assumes "raftState s = Some r" "\<forall>e \<in> set (stateLog r). eCommand e \<noteq> None"
    and "parse_limit parseInt size' = int limit"
  shows "getLog_rest parseInt size' s =
    Ret (Written 200 \<lparr>Last_page = int (min limit (length (stateLog r))),
      Data = map log_entry_respond (rev (drop (length (stateLog r) - limit) (stateLog r)))\<rparr>)"
proof -
  let ?n = "length (stateLog r)"
  have c: "Max_int 0 (int ?n - int limit) = int (?n - limit)" by (simp add: Max_int_def)
  have "?n - (?n - limit) = min limit ?n" by simp
  then show ?thesis
    using assms log_loop_Ret [OF assms(2), of ?n "int (?n - limit)" "\<lparr>Last_page = 0, Data = []\<rparr>"]
    by (simp add: getLog_rest_def getLog_def Let_def c)
qed

lemma committed_loop_all:
  "cnt + int (length kvs) \<le> chunkSize \<Longrightarrow>
     committed_loop chunkSize kvs cnt resp =
       resp @ map (\<lambda>(k, v). \<lparr>leKey = k, leValue = string_of_bytes v, leTerm = 0, leSynced = False\<rparr>) kvs"
  by (induction chunkSize kvs cnt resp rule: committed_loop.induct) auto

end
