(* ===== verification/Client.thy ===== *)
theory Client
  imports Rest
begin

text \<open>
  The REST client of \<open>pkg/client/restclient.go\<close>. The HTTP library is an argument: what a request to a URL
  yields is \<open>BadURL\<close> (\<open>http.NewRequest\<close> fails), \<open>Timeout\<close> (\<open>Do\<close> fails) or \<open>Reply\<close> with the status and the decoded
  body, absent if it does not decode. The map of endpoints is searched in the order of its association
  list.
\<close>

datatype 'b http_reply = BadURL | Timeout | Reply nat "'b option"

definition ApiLeader :: string where "ApiLeader = ''/leader''"

definition ApiSubmit :: string where "ApiSubmit = ''/submit''"

definition ApiGet :: string where "ApiGet = ''/get''"

definition ApiPeerList :: string where "ApiPeerList = ''/peer/list''"

definition ApiTransport :: string where "ApiTransport = ''http://''"

record RestClient =
  endpoint :: "(string, bool) gomap"
  client_leader :: string
  verbose :: bool

section \<open>The leader\<close>

text \<open>The loop over the endpoints: the last answer that decoded, or the first of a leader.\<close>

fun leader_loop :: "(string \<Rightarrow> LeaderRespond http_reply) \<Rightarrow> string list \<Rightarrow> LeaderRespond option \<Rightarrow> LeaderRespond option" where
  "leader_loop http [] respond = respond"
| "leader_loop http (peer # ps) respond =
     (case http (peer @ ApiLeader) of
        Reply _ (Some resp) \<Rightarrow> if lrSuccess resp then Some resp else leader_loop http ps (Some resp)
      | _ \<Rightarrow> leader_loop http ps respond)"

definition GetLeader ::
  "(string \<Rightarrow> LeaderRespond http_reply) \<Rightarrow> RestClient \<Rightarrow> (string + LeaderRespond) \<times> RestClient" where
  "GetLeader http r =
     (case leader_loop http (map fst (endpoint r)) None of
        None \<Rightarrow> (Inl ''all cluster member are dead'', r)
      | Some respond \<Rightarrow> (Inr respond, r\<lparr>client_leader := lrRestBinding respond\<rparr>))"

text \<open>The formatted address is discarded by the code.\<close>

definition DiscoverLeader ::
  "(string \<Rightarrow> LeaderRespond http_reply) \<Rightarrow> RestClient option \<Rightarrow> string option \<times> RestClient option" where
  "DiscoverLeader http ro =
     (case ro of
        None \<Rightarrow> (None, None)
      | Some r \<Rightarrow>
          if length (client_leader r) = 0 then
            (case GetLeader http r of
               (Inl _, r1) \<Rightarrow> (Some ''cluster leader not found'', Some r1)
             | (Inr respond, r1) \<Rightarrow>
                 if \<not> lrSuccess respond then (Some ''cluster leader not found'', Some r1) else (None, Some r1))
          else (None, Some r))"

definition NewRestClient :: "(string \<Rightarrow> LeaderRespond http_reply) \<Rightarrow> string list \<Rightarrow> string + RestClient" where
  "NewRestClient http ps =
     (if length ps = 0 then Inl ''peer list is empty''
      else
        let c = \<lparr>endpoint = fold (\<lambda>peer m. map_set peer True m) ps [], client_leader = [], verbose = False\<rparr> in
        (case DiscoverLeader http (Some c) of
           (Some err, _) \<Rightarrow> Inl err
         | (None, Some c1) \<Rightarrow> Inr c1
         | (None, None) \<Rightarrow> Inr c))"

section \<open>Peers\<close>

fun peer_list_loop ::
  "(string \<Rightarrow> 'p http_reply) \<Rightarrow> string list \<Rightarrow> (string, 'p) gomap \<Rightarrow> (string, 'p) gomap" where
  "peer_list_loop http [] respond = respond"
| "peer_list_loop http (peer # ps) respond =
     (case http (peer @ ApiPeerList) of
        Reply _ (Some apiRespond) \<Rightarrow> peer_list_loop http ps (map_set peer apiRespond respond)
      | _ \<Rightarrow> peer_list_loop http ps respond)"

definition GetPeerList :: "(string \<Rightarrow> 'p http_reply) \<Rightarrow> RestClient \<Rightarrow> (string, 'p) gomap" where
  "GetPeerList http r = peer_list_loop http (map fst (endpoint r)) []"

fun contains :: "string \<Rightarrow> string \<Rightarrow> bool" where
  "contains [] t \<longleftrightarrow> t = []"
| "contains (c # s) t \<longleftrightarrow> take (length t) (c # s) = t \<or> contains s t"

definition with_scheme :: "string \<Rightarrow> string" where
  "with_scheme e = (if contains e ''http://'' then e else ''http://'' @ e)"

definition NewRestClientFromUrl ::
  "(string \<Rightarrow> (u64, 'k PeerStatus) gomap http_reply) \<Rightarrow> (string \<Rightarrow> LeaderRespond http_reply) \<Rightarrow> string \<Rightarrow> string + RestClient" where
  "NewRestClientFromUrl peers_http leader_http e =
     (if length e = 0 then Inl ''empty peer url''
      else
        let c = \<lparr>endpoint = map_set (with_scheme e) True [], client_leader = [], verbose = False\<rparr>;
            peerStatus = GetPeerList peers_http c;
            binds = concat (map (\<lambda>(_, ps). map (\<lambda>(_, p). epRest (Endpoints p)) ps) peerStatus);
            c1 = c\<lparr>endpoint := fold (\<lambda>b m. map_set (with_scheme b) True m) binds (endpoint c)\<rparr>
        in (case GetLeader leader_http c1 of
              (Inl err, _) \<Rightarrow> Inl err
            | (Inr _, c2) \<Rightarrow> Inr c2))"

section \<open>Values\<close>

definition store_url :: "string \<Rightarrow> string \<Rightarrow> bytes \<Rightarrow> string" where
  "store_url lead key val =
     ''http://'' @ lead @ ApiSubmit @ ''/'' @ EncodeToString (bytes_of_string key) @ ''/'' @ EncodeToString val"

definition get_url :: "string \<Rightarrow> string \<Rightarrow> string" where
  "get_url lead key = ''http://'' @ lead @ ApiGet @ ''/'' @ EncodeToString (bytes_of_string key)"

text \<open>The receiver of \<open>Store\<close> and \<open>Get\<close> is not nil. The result is the flag or value, the error, the client.\<close>

definition Store ::
  "(string \<Rightarrow> LeaderRespond http_reply) \<Rightarrow> (string \<Rightarrow> unit http_reply) \<Rightarrow> string \<Rightarrow> bytes \<Rightarrow> RestClient
     \<Rightarrow> bool \<times> string option \<times> RestClient" where
  "Store leader_http post key val r =
     (case DiscoverLeader leader_http (Some r) of
        (Some err, ro) \<Rightarrow> (False, Some err, case ro of Some r1 \<Rightarrow> r1 | None \<Rightarrow> r)
      | (None, ro) \<Rightarrow>
          let r1 = (case ro of Some r1 \<Rightarrow> r1 | None \<Rightarrow> r) in
          (case post (store_url (client_leader r1) key val) of
             BadURL \<Rightarrow> (False, None, r1)
           | Timeout \<Rightarrow> (False, None, r1)
           | Reply status _ \<Rightarrow>
               if status = 201 then (True, None, r1)
               else (False, Some ''failed store value server return'', r1)))"

definition Get ::
  "(string \<Rightarrow> LeaderRespond http_reply) \<Rightarrow> (string \<Rightarrow> HttpValueRespond http_reply) \<Rightarrow> string \<Rightarrow> RestClient
     \<Rightarrow> HttpValueRespond option \<times> string option \<times> RestClient" where
  "Get leader_http get key r =
     (case DiscoverLeader leader_http (Some r) of
        (Some err, ro) \<Rightarrow> (None, None, case ro of Some r1 \<Rightarrow> r1 | None \<Rightarrow> r)
      | (None, ro) \<Rightarrow>
          let r1 = (case ro of Some r1 \<Rightarrow> r1 | None \<Rightarrow> r) in
          (case get (get_url (client_leader r1) key) of
             BadURL \<Rightarrow> (None, None, r1)
           | Timeout \<Rightarrow> (None, Some ''failed retieve value'', r1)
           | Reply status body \<Rightarrow>
               if status = 200 then
                 (Some (case body of Some v \<Rightarrow> v | None \<Rightarrow> \<lparr>hvValue = [], hvSuccess = False\<rparr>), None, r1)
               else (None, Some ''failed store value'', r1)))"

section \<open>The client and the server\<close>

text \<open>
  The router splits the path of a request. \<open>mux_ok\<close> is what the documentation of the router says of a pattern with
  variables, for the paths that a client sends to the address \<open>lead\<close>: their segments are non-empty words
  over the alphabet of the encoder, and the router gives those segments.
\<close>

definition mux_ok :: "string \<Rightarrow> (string \<Rightarrow> (string \<times> string) option) \<Rightarrow> bool" where
  "mux_ok lead mux \<longleftrightarrow> (\<forall>k v. url_segment k \<and> url_segment v \<longrightarrow>
     mux (''http://'' @ lead @ ApiSubmit @ ''/'' @ k @ ''/'' @ v) = Some (k, v))"

text \<open>A server behind a router: the answer to a POST, and the server afterwards.\<close>

definition serve_post ::
  "(string \<Rightarrow> (string \<times> string) option) \<Rightarrow> 'c Server \<Rightarrow> string \<Rightarrow> ('c Server \<times> unit http_reply) go" where
  "serve_post mux s url =
     (case mux url of
        None \<Rightarrow> Ret (s, Reply 404 None)
      | Some (k, v) \<Rightarrow>
          bind_go (SubmitKeyValue k v s) (\<lambda>(s1, resp).
            Ret (s1, case resp of Written st _ \<Rightarrow> Reply st (Some ()) | Failed st _ \<Rightarrow> Reply st None | Nothing \<Rightarrow> Reply 200 None)))"

lemma mux_store_url:
  assumes "mux_ok lead mux" "key \<noteq> []" "val \<noteq> []"
  shows "mux (store_url lead key val) = Some (EncodeToString (bytes_of_string key), EncodeToString val)"
proof -
  have "bytes_of_string key \<noteq> []" using assms(2) by (simp add: bytes_of_string_def)
  then show ?thesis
    using assms EncodeToString_segment unfolding mux_ok_def store_url_def by simp
qed

lemma Store_cached:
  assumes "client_leader r \<noteq> []" "post (store_url (client_leader r) key val) = Reply 201 b"
  shows "Store leader_http post key val r = (True, None, r)"
  using assms by (simp add: Store_def DiscoverLeader_def)

text \<open>With a cached leader and a well-formed address \<open>Get\<close> returns a value or an error.\<close>

lemma Get_cached:
  assumes "client_leader c \<noteq> []" "\<forall>u. get u \<noteq> BadURL"
  shows "\<exists>v e. Get leader_http get key c = (v, e, c) \<and> (v \<noteq> None \<or> e \<noteq> None)"
proof -
  have "get (get_url (client_leader c) key) \<noteq> BadURL" using assms(2) by blast
  then show ?thesis
    using assms(1)
    by (cases "get (get_url (client_leader c) key)") (auto simp: Get_def DiscoverLeader_def)
qed

lemma serve_post_submit:
  assumes "mux_ok lead mux" "key \<noteq> []" "val \<noteq> []"
  shows "serve_post mux s (store_url lead key val) =
    bind_go (SubmitCall (Some \<lparr>Key = key, Value = val\<rparr>) (Some s)) (\<lambda>(s1, resp, err).
      Ret (s1, case err of Some _ \<Rightarrow> Reply 423 None | None \<Rightarrow> Reply 201 (Some ())))"
proof (cases "SubmitCall (Some \<lparr>Key = key, Value = val\<rparr>) (Some s)")
  case (Ret x)
  then show ?thesis
    by (cases x) (auto simp: serve_post_def mux_store_url [OF assms] SubmitKeyValue_submits [OF assms(2,3)] split: option.splits)
qed (simp_all add: serve_post_def mux_store_url [OF assms] SubmitKeyValue_submits [OF assms(2,3)])

text \<open>The loop returns a leader's answer if some endpoint gives one.\<close>

lemma leader_loop_leader:
  "leader_loop http ps acc = Some resp \<Longrightarrow> lrSuccess resp \<Longrightarrow> acc = Some resp \<or>
     (\<exists>p \<in> set ps. \<exists>st. http (p @ ApiLeader) = Reply st (Some resp))"
  by (induction http ps acc rule: leader_loop.induct) (auto split: http_reply.splits option.splits if_splits)

lemma leader_loop_finds:
  "p \<in> set ps \<Longrightarrow> http (p @ ApiLeader) = Reply st (Some resp) \<Longrightarrow> lrSuccess resp \<Longrightarrow>
     \<exists>resp'. leader_loop http ps acc = Some resp' \<and> lrSuccess resp'"
  by (induction http ps acc rule: leader_loop.induct) (auto split: http_reply.splits option.splits)

end
