(* ===== verification/LoadBalancer.thy ===== *)
theory LoadBalancer
  imports Client
begin

text \<open>
  The load balancer: the server pool and its two selection methods (\<open>pkg/loadbalancer/serverpool.go\<close>,
  \<open>serverfarm.go\<close>) and the handling of a request with its retries (\<open>loadbalancer.go\<close>).

  A pointer to a member of the pool is its position. The standard library's parsers of URLs, addresses
  and numbers and the HTTP transport of the REST client are arguments, gathered in \<open>net_env\<close>; whether a try
  to reach a backend succeeds is the argument \<open>up\<close>, which may answer differently at each try. The
  goroutine that stores the choice in the cluster does not influence it and is left out.
\<close>

section \<open>The pool\<close>

record url =
  urlString :: string
  urlHost :: string

record ServerFarm =
  URL :: url
  Alive :: bool

definition SetAlive :: "bool \<Rightarrow> ServerFarm \<Rightarrow> ServerFarm" where
  "SetAlive alive b = b\<lparr>Alive := alive\<rparr>"

definition IsAlive :: "ServerFarm \<Rightarrow> bool" where
  "IsAlive b = Alive b"

record ServerPool =
  members :: "ServerFarm list"
  current :: u64
  poolSize :: u64

definition Add :: "ServerFarm \<Rightarrow> ServerPool option \<Rightarrow> ServerPool option" where
  "Add backend so =
     map_option (\<lambda>s. let ms = members s @ [backend]
                     in s\<lparr>members := ms, poolSize := of_nat (length ms)\<rparr>) so"

definition uint64_mod :: "u64 \<Rightarrow> u64 \<Rightarrow> u64 go" where
  [go_simps]: "uint64_mod a b = (if b = 0 then Panic IntegerDivideByZero else Ret (a mod b))"

definition Next :: "ServerPool option \<Rightarrow> (u64 \<times> ServerPool option) go" where
  "Next so =
     (case so of
        None \<Rightarrow> Ret (0, None)
      | Some s \<Rightarrow>
          let s1 = s\<lparr>current := current s + 1\<rparr> in
          bind_go (uint64_mod (current s1) (poolSize s1)) (\<lambda>n. Ret (n, Some s1)))"

text \<open>The loop that counts the live members.\<close>

fun count_alive :: "nat list \<Rightarrow> ServerFarm list \<Rightarrow> nat \<Rightarrow> nat go" where
  "count_alive [] ms numAlive = Ret numAlive"
| "count_alive (i # is) ms numAlive =
     bind_go (go_index ms i) (\<lambda>m. count_alive is ms (if IsAlive m then numAlive + 1 else numAlive))"

definition HashSelection :: "string \<Rightarrow> u32 \<Rightarrow> ServerPool \<Rightarrow> (string + nat) go" where
  "HashSelection addr srcPort s =
     bind_go (count_alive [0..<nat (sint (poolSize s))] (members s) 0) (\<lambda>numAlive.
     if numAlive = 0 then Ret (Inl ''all server are dead'')
     else bind_go (uint64_mod (HashAddrPort addr srcPort) (of_nat numAlive)) (\<lambda>h.
          bind_go (go_index (members s) (unat h)) (\<lambda>_. Ret (Inr (unat h)))))"

text \<open>The loop marks the first member with the URL.\<close>

fun update_first :: "string \<Rightarrow> bool \<Rightarrow> ServerFarm list \<Rightarrow> ServerFarm list" where
  "update_first u alive [] = []"
| "update_first u alive (b # bs) =
     (if urlString (URL b) = u then SetAlive alive b # bs else b # update_first u alive bs)"

definition UpdateMemberStatus :: "url \<Rightarrow> bool \<Rightarrow> ServerPool \<Rightarrow> ServerPool" where
  "UpdateMemberStatus backendUrl alive s = s\<lparr>members := update_first (urlString backendUrl) alive (members s)\<rparr>"

text \<open>The loop of \<open>RoundRobin\<close> from \<open>i\<close> to \<open>l\<close>, started at \<open>nx\<close>.\<close>

function rr_loop :: "u64 \<Rightarrow> u64 \<Rightarrow> u64 \<Rightarrow> ServerPool \<Rightarrow> ((string + nat) \<times> ServerPool) go" where
  "rr_loop nx i l s =
     (if i < l then
        if poolSize s = 0 then Panic IntegerDivideByZero
        else
          let serverID = i mod poolSize s in
          if unat serverID < length (members s) then
            (if IsAlive (members s ! unat serverID) then
               Ret (Inr (unat serverID), if i \<noteq> nx then s\<lparr>current := serverID\<rparr> else s)
             else rr_loop nx (i + 1) l s)
          else Panic IndexOutOfRange
      else Ret (Inl ''all server are dead'', s))"
  by pat_completeness auto
termination
proof (relation "measure (\<lambda>(nx, i, l, s). unat l - unat i)", goal_cases)
  case (2 nx i l s x)
  then have "unat (i + 1) = Suc (unat i)" "unat i < unat l" by (auto simp: unat_Suc_less word_less_nat_alt)
  then show ?case by simp
qed simp

declare rr_loop.simps [simp del]

definition RoundRobin :: "ServerPool option \<Rightarrow> ((string + nat) \<times> ServerPool option) go" where
  "RoundRobin so =
     (case so of
        None \<Rightarrow> Ret (Inl ''server pool is nil'', None)
      | Some s \<Rightarrow>
          bind_go (Next (Some s)) (\<lambda>(nx, so1).
            case so1 of
              None \<Rightarrow> Ret (Inl ''server pool is nil'', None)
            | Some s1 \<Rightarrow>
                bind_go (rr_loop nx nx (poolSize s1 + nx) s1) (\<lambda>(res, s2). Ret (res, Some s2))))"

definition HealthCheck :: "(url \<Rightarrow> bool) \<Rightarrow> ServerPool \<Rightarrow> ServerPool" where
  "HealthCheck isBackendAlive s =
     s\<lparr>members := map (\<lambda>m. SetAlive (isBackendAlive (URL m)) m) (members s)\<rparr>"

text \<open>The probe: \<open>dial\<close> tells whether a TCP connection to the host opens.\<close>

definition isBackendAlive :: "(string \<Rightarrow> bool) \<Rightarrow> url \<Rightarrow> bool" where
  "isBackendAlive dial u = dial (urlHost u)"

section \<open>The balancer\<close>

datatype ProbeMethod = ProbeIcmp | ProbeHttp

datatype Algorithm = RoundRobinMethod | SourceHash

record LoadBalancer =
  servers :: "string list"
  serverPool :: ServerPool
  isDead_lb :: bool
  maxRetry :: int
  healthTime :: int
  probeType :: ProbeMethod
  lb_method :: Algorithm
  apiEndpoits :: "string list"
  apiClient :: "RestClient option"
  lb_bind :: string

text \<open>The request's context holds the two counters, absent at first.\<close>

record request =
  RemoteAddr :: string
  Attempts :: "int option"
  Retry :: "int option"

record net_env =
  splitHostPort :: "string \<Rightarrow> (string \<times> string) option"
  parseIP :: "string \<Rightarrow> string option"
  atoi :: "string \<Rightarrow> int \<times> bool"
  parseURL :: "string \<Rightarrow> url option"
  leader_http :: "string \<Rightarrow> LeaderRespond http_reply"
  value_http :: "string \<Rightarrow> HttpValueRespond http_reply"

definition attemptHandler :: "request \<Rightarrow> int" where
  "attemptHandler r = (case Attempts r of Some a \<Rightarrow> a | None \<Rightarrow> 1)"

definition retryHandler :: "request \<Rightarrow> int" where
  "retryHandler r = (case Retry r of Some n \<Rightarrow> n | None \<Rightarrow> 0)"

text \<open>
  The result is the address, the port, and whether there is an error: when the host is not an IP
  address the error returned is the nil error of the first call.
\<close>

definition getAddress :: "net_env \<Rightarrow> request \<Rightarrow> string option \<times> string \<times> bool" where
  "getAddress env req =
     (case splitHostPort env (RemoteAddr req) of
        None \<Rightarrow> (None, [], True)
      | Some (ip, prt) \<Rightarrow>
          (case parseIP env ip of None \<Rightarrow> (None, [], False) | Some addr \<Rightarrow> (Some addr, prt, False)))"

text \<open>
  \<open>atoi\<close> yields a number and whether it parsed. The errors are written to the client and the method
  goes on with the number; a nil address is dereferenced. The lookup in the cluster only logs a hit, but
  dereferences the nil answer of a \<open>Get\<close> that failed without an error.
\<close>

definition sourceHashHandler :: "net_env \<Rightarrow> request \<Rightarrow> LoadBalancer \<Rightarrow> (nat option \<times> LoadBalancer) go" where
  "sourceHashHandler env r lb =
     (let (addr, prt, _) = getAddress env r;
          (portNum, _) = atoi env prt
      in case addr of
           None \<Rightarrow> Panic NilDereference
         | Some a \<Rightarrow>
             bind_go (HashSelection a (word_of_int portNum) (serverPool lb)) (\<lambda>res.
             let s = (case res of Inl e \<Rightarrow> None | Inr i \<Rightarrow> Some i) in
             case apiClient lb of
               None \<Rightarrow> Ret (s, lb)
             | Some c \<Rightarrow>
                 (case Get (leader_http env) (value_http env) (RemoteAddr r) c of
                    (None, None, c1) \<Rightarrow> Panic NilDereference
                  | (_, _, c1) \<Rightarrow> Ret (s, lb\<lparr>apiClient := Some c1\<rparr>))))"

definition select_server :: "net_env \<Rightarrow> request \<Rightarrow> LoadBalancer \<Rightarrow> (nat option \<times> LoadBalancer) go" where
  "select_server env r lb =
     (if lb_method lb = SourceHash then
        sourceHashHandler env r lb
      else
        bind_go (RoundRobin (Some (serverPool lb))) (\<lambda>(res, po).
          Ret (case res of Inl e \<Rightarrow> None | Inr i \<Rightarrow> Some i,
               case po of None \<Rightarrow> lb | Some p \<Rightarrow> lb\<lparr>serverPool := p\<rparr>)))"

datatype outcome = Served nat | ServiceUnavailable

text \<open>
  \<open>httpHandler\<close> and the proxy of member \<open>i\<close> with its error handler call each other. The last argument
  records the members tried so far; \<open>up k i\<close> tells whether try number \<open>k\<close> reaches member \<open>i\<close>.
\<close>

definition phase_rank :: "bool \<Rightarrow> request \<Rightarrow> nat" where
  "phase_rank proxy r =
     (if attemptHandler r > 3 then (if proxy then 1 else 0)
      else 2 * nat (4 - attemptHandler r) + (if proxy then 0 else 1))"

function (sequential) handle ::
  "bool \<Rightarrow> nat \<Rightarrow> net_env \<Rightarrow> (nat \<Rightarrow> nat \<Rightarrow> bool) \<Rightarrow> LoadBalancer \<Rightarrow> request \<Rightarrow> nat list
     \<Rightarrow> (outcome \<times> LoadBalancer \<times> nat list) go" where
  "handle False i env up lb r tries =
     (if attemptHandler r > 3 then Ret (ServiceUnavailable, lb, tries)
      else (case select_server env r lb of
              Ret (Some j, lb1) \<Rightarrow> handle True j env up lb1 r tries
            | Ret (None, lb1) \<Rightarrow> Ret (ServiceUnavailable, lb1, tries)
            | Panic e \<Rightarrow> Panic e
            | Blocked \<Rightarrow> Blocked))"
| "handle True i env up lb r tries =
     (if up (length tries) i then Ret (Served i, lb, tries @ [i])
      else if retryHandler r < maxRetry lb then
        handle True i env up lb (r\<lparr>Retry := Some (retryHandler r + 1)\<rparr>) (tries @ [i])
      else
        handle False 0 env up
          (lb\<lparr>serverPool := UpdateMemberStatus (URL (members (serverPool lb) ! i)) False (serverPool lb)\<rparr>)
          (r\<lparr>Attempts := Some (attemptHandler r + 1)\<rparr>) (tries @ [i]))"
  by pat_completeness auto
termination
  by (relation "measures [\<lambda>(proxy, i, env, up, lb, r, tries). phase_rank proxy r,
      \<lambda>(proxy, i, env, up, lb, r, tries). nat (maxRetry lb - retryHandler r)]")
    (auto simp: phase_rank_def attemptHandler_def retryHandler_def)

declare handle.simps [simp del]

definition httpHandler ::
  "net_env \<Rightarrow> (nat \<Rightarrow> nat \<Rightarrow> bool) \<Rightarrow> LoadBalancer \<Rightarrow> request \<Rightarrow> (outcome \<times> LoadBalancer \<times> nat list) go" where
  "httpHandler env up lb r = handle False 0 env up lb r []"

section \<open>Construction\<close>

definition NewLoadBalance ::
  "net_env \<Rightarrow> string \<Rightarrow> string list \<Rightarrow> int \<Rightarrow> ProbeMethod \<Rightarrow> int \<Rightarrow> Algorithm \<Rightarrow> string list \<Rightarrow> string + LoadBalancer" where
  "NewLoadBalance env bind srv retry ptype probeDuration method api =
     (if length srv = 0 then Inl ''sever pool is empty''
      else Inr \<lparr>servers = srv, serverPool = \<lparr>members = [], current = 0, poolSize = 0\<rparr>, isDead_lb = False,
                maxRetry = retry, healthTime = probeDuration, probeType = ptype, lb_method = method, apiEndpoits = api,
                apiClient = (case NewRestClient (leader_http env) api of Inl e \<Rightarrow> None | Inr c \<Rightarrow> Some c),
                lb_bind = bind\<rparr>)"

fun build_loop :: "net_env \<Rightarrow> string list \<Rightarrow> ServerPool \<Rightarrow> ServerPool" where
  "build_loop env [] p = p"
| "build_loop env (server # ss) p =
     (case parseURL env server of
        None \<Rightarrow> build_loop env ss p
      | Some u \<Rightarrow>
          build_loop env ss (case Add \<lparr>URL = u, Alive = True\<rparr> (Some p) of Some p' \<Rightarrow> p' | None \<Rightarrow> p))"

definition buildServerPools :: "net_env \<Rightarrow> LoadBalancer \<Rightarrow> LoadBalancer" where
  "buildServerPools env lb = lb\<lparr>serverPool := build_loop env (servers lb) (serverPool lb)\<rparr>"

definition addServer :: "net_env \<Rightarrow> string \<Rightarrow> LoadBalancer \<Rightarrow> LoadBalancer" where
  "addServer env srv lb = buildServerPools env (lb\<lparr>servers := servers lb @ [srv]\<rparr>)"

text \<open>One tick of the health check, and \<open>Serve\<close> before its goroutine and the HTTP server start.\<close>

definition healthCheck_tick :: "(string \<Rightarrow> bool) \<Rightarrow> LoadBalancer \<Rightarrow> LoadBalancer" where
  "healthCheck_tick dial lb = lb\<lparr>serverPool := HealthCheck (isBackendAlive dial) (serverPool lb)\<rparr>"

definition lb_Serve :: "net_env \<Rightarrow> LoadBalancer \<Rightarrow> LoadBalancer" where
  "lb_Serve env lb = buildServerPools env lb"

section \<open>The pool is well formed\<close>

definition pool_wf :: "ServerPool \<Rightarrow> bool" where
  "pool_wf p \<longleftrightarrow> poolSize p = of_nat (length (members p)) \<and> length (members p) < 2 ^ 63"

lemma pool_size: "pool_wf p \<Longrightarrow> unat (poolSize p) = length (members p)"
  by (simp add: pool_wf_def unat_of_nat_small)

lemma pool_wf_current [simp]: "pool_wf (p\<lparr>current := c\<rparr>) = pool_wf p"
  by (simp add: pool_wf_def)

lemma length_update_first [simp]: "length (update_first u b ms) = length ms"
  by (induction ms) auto

lemma pool_wf_update [simp]: "pool_wf (UpdateMemberStatus u b p) = pool_wf p"
  by (simp add: pool_wf_def UpdateMemberStatus_def)

lemma members_update [simp]: "length (members (UpdateMemberStatus u b p)) = length (members p)"
  by (simp add: UpdateMemberStatus_def)

lemma pool_wf_health: "pool_wf (HealthCheck probe p) = pool_wf p"
  by (simp add: pool_wf_def HealthCheck_def)

lemma Add_wf: "Suc (length (members p)) < 2 ^ 63 \<Longrightarrow> Add b (Some p) = Some p' \<Longrightarrow> pool_wf p'"
  by (auto simp: Add_def pool_wf_def Let_def)

lemma build_loop_members:
  "members (build_loop env ss p) =
     members p @ map (\<lambda>u. \<lparr>URL = u, Alive = True\<rparr>) (List.map_filter (parseURL env) ss)"
  by (induction env ss p rule: build_loop.induct)
    (auto simp: Add_def Let_def List.map_filter_def split: option.splits)

lemma build_loop_size:
  "poolSize p = of_nat (length (members p)) \<Longrightarrow>
     poolSize (build_loop env ss p) = of_nat (length (members (build_loop env ss p)))"
  by (induction env ss p rule: build_loop.induct) (auto simp: Add_def Let_def split: option.splits)

section \<open>Round robin\<close>

text \<open>The reference: the first live member in cyclic order from position \<open>a\<close>.\<close>

definition rr_pick :: "ServerFarm list \<Rightarrow> nat \<Rightarrow> nat option" where
  "rr_pick ms a = find (\<lambda>i. Alive (ms ! i)) (map (\<lambda>j. (a + j) mod length ms) [0..<length ms])"

lemma rr_loop_find:
  assumes wf: "pool_wf s" and ne: "members s \<noteq> []" and a: "a < length (members s)" and k: "k \<le> length (members s)"
  shows "rr_loop (of_nat a) (of_nat (a + k)) (of_nat (a + length (members s))) s =
    (case find (\<lambda>j. Alive (members s ! ((a + j) mod length (members s)))) [k..<length (members s)] of
       None \<Rightarrow> Ret (Inl ''all server are dead'', s)
     | Some j \<Rightarrow> Ret (Inr ((a + j) mod length (members s)),
         if j = 0 then s else s\<lparr>current := of_nat ((a + j) mod length (members s))\<rparr>))"
  using k
proof (induction "length (members s) - k" arbitrary: k)
  case 0
  then show ?case by (subst rr_loop.simps) simp
next
  case (Suc d)
  let ?n = "length (members s)"
  have n: "?n < 2 ^ 63" "0 < ?n" using wf ne by (simp_all add: pool_wf_def)
  have k: "k < ?n" using Suc by simp
  have un: "unat (of_nat m :: u64) = m" if "m < 2 * ?n" for m
    using that n by (simp add: unat_of_nat)
  have lt: "(of_nat (a + k) :: u64) < of_nat (a + ?n)"
    unfolding word_less_nat_alt using un [of "a + k"] un [of "a + ?n"] a k by simp
  have size0: "poolSize s \<noteq> 0" using pool_size [OF wf] n(2) by auto
  have sid: "unat (of_nat (a + k) mod poolSize s) = (a + k) mod ?n"
    unfolding unat_mod using un [of "a + k"] pool_size [OF wf] a k by simp
  then have sid_w: "of_nat (a + k) mod poolSize s = of_nat ((a + k) mod ?n)"
    by (rule unat_eqD)
  have um: "unat (of_nat (m mod ?n) :: u64) = m mod ?n" for m
    using un [of "m mod ?n"] n(2) by (simp add: trans_less_add1 mult_2)
  have eq0: "(of_nat (a + k) :: u64) = of_nat a \<longleftrightarrow> k = 0"
    using un [of "a + k"] un [of a] a k by (metis add_cancel_right_right add_less_mono mult_2 trans_less_add1)
  have upt: "[k..<?n] = k # [Suc k..<?n]" using k by (simp add: upt_conv_Cons)
  have rec: "rr_loop (of_nat a) (of_nat (a + k) + 1) (of_nat (a + ?n)) s =
      rr_loop (of_nat a) (of_nat (a + Suc k)) (of_nat (a + ?n)) s" by (simp add: add.commute)
  show ?case
  proof (cases "Alive (members s ! ((a + k) mod ?n))")
    case True
    then show ?thesis
      by (subst rr_loop.simps) (simp add: lt size0 sid_w um n ne upt eq0 IsAlive_def Let_def del: of_nat_add)
  next
    case False
    have "rr_loop (of_nat a) (of_nat (a + k)) (of_nat (a + ?n)) s =
        rr_loop (of_nat a) (of_nat (a + k) + 1) (of_nat (a + ?n)) s"
      by (subst rr_loop.simps) (simp add: lt size0 sid n ne False IsAlive_def Let_def del: of_nat_add)
    then show ?thesis using Suc.hyps(1) [of "Suc k"] Suc.hyps(2) k False unfolding rec upt by simp
  qed
qed

lemma find_map: "find P (map f xs) = map_option f (find (\<lambda>x. P (f x)) xs)"
  by (induction xs) auto

lemma RoundRobin_pick:
  assumes wf: "pool_wf p" and ne: "members p \<noteq> []"
  defines "a \<equiv> unat (current p + 1) mod length (members p)"
  shows "\<exists>c. RoundRobin (Some p) =
    Ret (case rr_pick (members p) a of None \<Rightarrow> Inl ''all server are dead'' | Some i \<Rightarrow> Inr i, Some (p\<lparr>current := c\<rparr>)) \<and>
    (rr_pick (members p) a = Some a \<longrightarrow> c = current p + 1)"
proof -
  let ?n = "length (members p)" and ?p1 = "p\<lparr>current := current p + 1\<rparr>"
  have n: "0 < ?n" using ne by simp
  have size0: "poolSize p \<noteq> 0" using pool_size [OF wf] n by auto
  have "unat ((current p + 1) mod poolSize p) = a"
    unfolding unat_mod a_def using pool_size [OF wf] by simp
  then have nx: "(current p + 1) mod poolSize p = of_nat a" by (rule unat_eqD)
  have sz: "poolSize p + of_nat a = of_nat (a + ?n)" using wf by (simp add: pool_wf_def)
  have m: "members ?p1 = members p" by simp
  have an: "a < ?n" using n by (simp add: a_def)
  let ?f = "find (\<lambda>j. Alive (members p ! ((a + j) mod ?n))) [0..<?n]"
  have loop: "rr_loop (of_nat a) (of_nat a) (poolSize p + of_nat a) ?p1 =
     (case ?f of None \<Rightarrow> Ret (Inl ''all server are dead'', ?p1)
      | Some j \<Rightarrow> Ret (Inr ((a + j) mod ?n), if j = 0 then ?p1 else ?p1\<lparr>current := of_nat ((a + j) mod ?n)\<rparr>))"
    using rr_loop_find [of ?p1 a 0] wf ne an unfolding sz m by simp
  have pick: "rr_pick (members p) a = map_option (\<lambda>j. (a + j) mod ?n) ?f"
    by (simp add: rr_pick_def find_map)
  have zero: "j = 0" if "?f = Some j" "(a + j) mod ?n = a" for j
  proof -
    have "j < ?n" using that(1) by (auto simp: find_Some_iff)
    moreover have "a < ?n" using n by (simp add: a_def)
    ultimately show ?thesis using that(2) by (cases "a + j < ?n") (simp_all add: le_mod_geq)
  qed
  show ?thesis
  proof (cases ?f)
    case None
    then show ?thesis
      using loop pick size0 nx by (auto simp: RoundRobin_def Next_def go_simps Let_def)
  next
    case (Some j)
    then show ?thesis
      using loop pick size0 nx zero [OF Some]
      by (cases "j = 0") (auto simp: RoundRobin_def Next_def go_simps Let_def a_def)
  qed
qed

lemma rotation_set: "0 < n \<Longrightarrow> (\<lambda>j. (a + j) mod n) ` {0..<n} = {0..<n::nat}"
proof (rule endo_inj_surj)
  assume n: "0 < n"
  show "(\<lambda>j. (a + j) mod n) ` {0..<n} \<subseteq> {0..<n}" using n by auto
  show "inj_on (\<lambda>j. (a + j) mod n) {0..<n}"
  proof (rule inj_onI)
    fix i j assume ij: "i \<in> {0..<n}" "j \<in> {0..<n}" "(a + i) mod n = (a + j) mod n"
    then have "int n dvd int i - int j" by (simp add: mod_eq_iff_dvd_symdiff_nat)
    moreover have "\<bar>int i - int j\<bar> < \<bar>int n\<bar>" using ij by auto
    ultimately have "int i - int j = 0" using dvd_imp_le_int [of "int i - int j" "int n"] by linarith
    then show "i = j" by simp
  qed
qed simp

lemma rr_pick_Some: "rr_pick ms a = Some i \<Longrightarrow> i < length ms \<and> Alive (ms ! i)"
  by (auto simp: rr_pick_def find_Some_iff intro!: mod_less_divisor)

lemma rr_pick_None:
  assumes "rr_pick ms a = None" "m \<in> set ms"
  shows "\<not> Alive m"
proof -
  from assms(2) obtain i where i: "i < length ms" "m = ms ! i" by (auto simp: in_set_conv_nth)
  then have "i \<in> (\<lambda>j. (a + j) mod length ms) ` {0..<length ms}" using rotation_set [of "length ms" a] by fastforce
  then show ?thesis using assms(1) i(2) by (auto simp: rr_pick_def find_None_iff)
qed

lemma rr_pick_alive: "a < length ms \<Longrightarrow> Alive (ms ! a) \<Longrightarrow> rr_pick ms a = Some a"
proof -
  assume a: "a < length ms" "Alive (ms ! a)"
  then have "0 < length ms" by linarith
  then have "[0..<length ms] = 0 # [1..<length ms]" using upt_conv_Cons by simp
  then show ?thesis using a by (simp add: rr_pick_def)
qed

subsection \<open>Consecutive calls\<close>

fun rr_calls :: "nat \<Rightarrow> ServerPool \<Rightarrow> (nat list \<times> ServerPool) go" where
  "rr_calls 0 p = Ret ([], p)"
| "rr_calls (Suc k) p =
     bind_go (RoundRobin (Some p)) (\<lambda>(res, po).
       case (res, po) of
         (Inr i, Some p1) \<Rightarrow> bind_go (rr_calls k p1) (\<lambda>(is, p2). Ret (i # is, p2))
       | _ \<Rightarrow> Ret ([], p))"

lemma rr_calls_rotate:
  assumes "pool_wf p" "members p \<noteq> []" "\<forall>m \<in> set (members p). Alive m" "unat (current p) + k < 2 ^ 64"
  shows "rr_calls k p = Ret (map (\<lambda>j. (unat (current p) + j) mod length (members p)) [1..<Suc k],
    p\<lparr>current := current p + of_nat k\<rparr>)"
  using assms
proof (induction k arbitrary: p)
  case (Suc k)
  let ?n = "length (members p)" and ?c = "current p + 1"
  have c: "unat ?c = Suc (unat (current p))"
    using Suc.prems(4) by (simp add: unat_word_ariths)
  have "unat ?c mod ?n < ?n" using Suc.prems(2) by simp
  then have "rr_pick (members p) (unat ?c mod ?n) = Some (unat ?c mod ?n)"
    using Suc.prems(3) by (intro rr_pick_alive) simp_all
  with RoundRobin_pick [OF Suc.prems(1,2)]
  have call: "RoundRobin (Some p) = Ret (Inr (unat ?c mod ?n), Some (p\<lparr>current := ?c\<rparr>))" by auto
  have "rr_calls k (p\<lparr>current := ?c\<rparr>) =
      Ret (map (\<lambda>j. (unat ?c + j) mod ?n) [1..<Suc k], p\<lparr>current := ?c + of_nat k\<rparr>)"
    using Suc.IH [of "p\<lparr>current := ?c\<rparr>"] Suc.prems c by simp
  moreover have "map (\<lambda>j. (unat (current p) + j) mod ?n) [1..<Suc (Suc k)] =
      unat ?c mod ?n # map (\<lambda>j. (unat ?c + j) mod ?n) [1..<Suc k]"
  proof -
    have "[1..<Suc (Suc k)] = 1 # map Suc [1..<Suc k]" by (simp add: map_Suc_upt upt_conv_Cons del: upt_Suc)
    then show ?thesis by (simp add: c comp_def del: upt_Suc)
  qed
  ultimately show ?case by (simp add: call add.assoc)
qed simp

text \<open>A full round visits every member exactly once.\<close>

lemma rr_calls_cycle:
  assumes "pool_wf p" "members p \<noteq> []" "\<forall>m \<in> set (members p). Alive m"
    and "unat (current p) + length (members p) < 2 ^ 64"
  shows "\<exists>is p'. rr_calls (length (members p)) p = Ret (is, p') \<and> distinct is \<and> set is = {0..<length (members p)}"
proof -
  let ?n = "length (members p)" and ?c = "unat (current p)"
  have upt: "[1..<Suc ?n] = map Suc [0..<?n]" by (simp add: map_Suc_upt)
  have "map (\<lambda>j. (?c + j) mod ?n) [1..<Suc ?n] = map (\<lambda>j. (Suc ?c + j) mod ?n) [0..<?n]"
    unfolding upt by simp
  moreover have set: "set (map (\<lambda>j. (Suc ?c + j) mod ?n) [0..<?n]) = {0..<?n}"
    using rotation_set [of ?n "Suc ?c"] assms(2) by simp
  moreover have "distinct (map (\<lambda>j. (Suc ?c + j) mod ?n) [0..<?n])"
    by (rule card_distinct) (simp only: set, simp)
  ultimately show ?thesis using rr_calls_rotate [OF assms] by simp
qed

section \<open>Hash selection\<close>

lemma count_alive_Ret:
  "\<forall>i \<in> set is. i < length ms \<Longrightarrow>
     count_alive is ms c = Ret (c + length (filter (\<lambda>i. Alive (ms ! i)) is))"
  by (induction "is" ms c rule: count_alive.induct) (auto simp: go_simps IsAlive_def)

lemma pool_size_sint: "pool_wf p \<Longrightarrow> nat (sint (poolSize p)) = length (members p)"
  using sint_small [of "poolSize p"] pool_size [of p] by (simp add: pool_wf_def)

definition alive_count :: "ServerPool \<Rightarrow> nat" where
  "alive_count p = length (filter Alive (members p))"

lemma length_filter_nth: "length (filter (\<lambda>i. P (xs ! i)) [0..<length xs]) = length (filter P xs)"
proof -
  have "filter P xs = map ((!) xs) (filter (\<lambda>i. P (xs ! i)) [0..<length xs])"
    using filter_map [of P "(!) xs" "[0..<length xs]"] by (simp add: map_nth comp_def)
  then show ?thesis by simp
qed

lemma HashSelection_result:
  assumes "pool_wf p"
  shows "HashSelection addr port' p =
    (if alive_count p = 0 then Ret (Inl ''all server are dead'')
     else Ret (Inr (unat (HashAddrPort addr port') mod alive_count p)))"
proof -
  have le: "alive_count p \<le> length (members p)" by (simp add: alive_count_def)
  have "count_alive [0..<nat (sint (poolSize p))] (members p) 0 = Ret (alive_count p)"
    using pool_size_sint [OF assms] by (simp add: count_alive_Ret length_filter_nth alive_count_def)
  moreover have "unat (of_nat (alive_count p) :: u64) = alive_count p"
    using assms le by (intro unat_of_nat_small) (simp add: pool_wf_def)
  ultimately show ?thesis
    using le
    by (auto simp: HashSelection_def go_simps unat_mod word_unat_eq_iff intro: order_less_le_trans [OF mod_less_divisor])
qed

section \<open>Retries of a request\<close>

lemma sourceHashHandler_client:
  "sourceHashHandler env r lb = Ret (so, lb') \<Longrightarrow> \<exists>c. lb' = lb\<lparr>apiClient := c\<rparr>"
proof (cases "apiClient lb")
  case (Some c)
  obtain v e c1 where "Get (leader_http env) (value_http env) (RemoteAddr r) c = (v, e, c1)" by (cases rule: prod_cases3)
  moreover assume "sourceHashHandler env r lb = Ret (so, lb')"
  ultimately show ?thesis
    using Some
    by (auto simp: sourceHashHandler_def Let_def bind_go_Ret_iff case_prod_beta split: option.splits)
qed (auto simp: sourceHashHandler_def Let_def bind_go_Ret_iff case_prod_beta intro: exI [of _ None] split: option.splits)

lemma select_server_Ret:
  assumes "select_server env r lb = Ret (so, lb')"
  shows "maxRetry lb' = maxRetry lb \<and> lb_method lb' = lb_method lb"
  using assms sourceHashHandler_client [of env r lb so lb']
  by (auto simp: select_server_def bind_go_Ret_iff split: if_splits option.splits)

definition try_budget :: "bool \<Rightarrow> LoadBalancer \<Rightarrow> request \<Rightarrow> nat" where
  "try_budget proxy lb r =
     nat (maxRetry lb - retryHandler r) + nat (4 - attemptHandler r) +
     (if proxy \<and> attemptHandler r > 3 then 1 else 0)"

definition tries_ok :: "(nat \<Rightarrow> nat \<Rightarrow> bool) \<Rightarrow> outcome \<Rightarrow> nat list \<Rightarrow> bool" where
  "tries_ok up out tries \<longleftrightarrow>
     (case out of
        Served i \<Rightarrow> tries \<noteq> [] \<and> last tries = i \<and> up (length tries - 1) i \<and>
          (\<forall>k < length tries - 1. \<not> up k (tries ! k))
      | ServiceUnavailable \<Rightarrow> (\<forall>k < length tries. \<not> up k (tries ! k)))"

lemma handle_tries:
  assumes "handle proxy i env up lb r tries = Ret (out, lb', tries')"
    and "\<forall>k < length tries. \<not> up k (tries ! k)"
  shows "length tries' \<le> length tries + try_budget proxy lb r \<and> tries_ok up out tries'"
  using assms
proof (induction proxy i env up lb r tries rule: handle.induct)
  case (1 i env up lb r tries)
  show ?case
  proof (cases "attemptHandler r > 3")
    case True
    then show ?thesis using "1.prems" by (simp add: handle.simps tries_ok_def)
  next
    case False
    from "1.prems"(1) False obtain so lb1 where sel: "select_server env r lb = Ret (so, lb1)"
      by (auto simp: handle.simps split: go.splits)
    show ?thesis
    proof (cases so)
      case None
      then show ?thesis using "1.prems" False sel by (simp add: handle.simps tries_ok_def)
    next
      case (Some j)
      then show ?thesis
        using "1.IH" [OF False sel [unfolded Some] refl refl] "1.prems" False sel select_server_Ret [OF sel]
        by (auto simp: handle.simps try_budget_def)
    qed
  qed
next
  case (2 i env up lb r tries)
  show ?case
  proof (cases "up (length tries) i")
    case True
    then show ?thesis
      using "2.prems" by (auto simp: handle.simps tries_ok_def nth_append try_budget_def)
  next
    case False
    then have fail: "\<forall>k < length (tries @ [i]). \<not> up k ((tries @ [i]) ! k)"
      using "2.prems"(2) by (auto simp: nth_append less_Suc_eq)
    show ?thesis
    proof (cases "retryHandler r < maxRetry lb")
      case True
      then show ?thesis
        using "2.IH"(1) [OF False True _ fail] "2.prems"(1) False
        by (auto simp: handle.simps try_budget_def retryHandler_def attemptHandler_def)
    next
      case no: False
      then show ?thesis
        using "2.IH"(2) [OF False no _ fail] "2.prems"(1) False
        by (auto simp: handle.simps try_budget_def retryHandler_def attemptHandler_def split: if_splits)
    qed
  qed
qed

section \<open>The contract of a selection method\<close>

text \<open>
  What the request handler relies on: from a good state the selection returns, and selecting a member,
  counting a retry and marking a member dead keep the state good. Then the handler returns.
\<close>

locale server_selector =
  fixes env :: net_env and good :: "LoadBalancer \<Rightarrow> request \<Rightarrow> bool"
  assumes select_returns: "good lb r \<Longrightarrow> \<exists>so lb'. select_server env r lb = Ret (so, lb') \<and> good lb' r"
    and good_counters: "good lb r \<Longrightarrow> good lb (r\<lparr>Attempts := a\<rparr>) \<and> good lb (r\<lparr>Retry := n\<rparr>)"
    and good_mark: "good lb r \<Longrightarrow> good (lb\<lparr>serverPool := UpdateMemberStatus u b (serverPool lb)\<rparr>) r"
begin

lemma handle_returns:
  "good lb r \<Longrightarrow> e = env \<Longrightarrow> \<exists>out lb' tries'. handle proxy i e up lb r tries = Ret (out, lb', tries')"
proof (induction proxy i e up lb r tries rule: handle.induct)
  case (1 i e up lb r tries)
  from select_returns [OF "1.prems"(1)] obtain so lb' where
    "select_server env r lb = Ret (so, lb')" "good lb' r" by blast
  then show ?case
    using 1 by (cases "attemptHandler r > 3"; cases so) (simp_all add: handle.simps(1))
next
  case (2 i e up lb r tries)
  then show ?case
    using good_counters [OF "2.prems"(1)] good_mark
    by (cases "up (length tries) i"; cases "retryHandler r < maxRetry lb") (simp_all add: handle.simps)
qed

lemma answered:
  assumes "good lb r" "Attempts r = None" "Retry r = None"
  shows "\<exists>out lb' tries. httpHandler env up lb r = Ret (out, lb', tries) \<and>
    length tries \<le> nat (maxRetry lb) + 3 \<and> tries_ok up out tries"
proof -
  from handle_returns [OF assms(1) refl] obtain out lb' tries where
    ret: "handle False 0 env up lb r [] = Ret (out, lb', tries)" by blast
  from handle_tries [OF ret] assms(2,3) ret show ?thesis
    by (auto simp: httpHandler_def try_budget_def attemptHandler_def retryHandler_def)
qed

end

text \<open>Round robin over a non-empty pool, and source hashing for clients whose address parses.\<close>

definition rr_good :: "LoadBalancer \<Rightarrow> request \<Rightarrow> bool" where
  "rr_good lb r \<longleftrightarrow> lb_method lb = RoundRobinMethod \<and> pool_wf (serverPool lb) \<and> members (serverPool lb) \<noteq> []"

definition hash_good :: "net_env \<Rightarrow> LoadBalancer \<Rightarrow> request \<Rightarrow> bool" where
  "hash_good env lb r \<longleftrightarrow> lb_method lb = SourceHash \<and> pool_wf (serverPool lb) \<and> fst (getAddress env r) \<noteq> None \<and>
     (\<forall>u. value_http env u \<noteq> BadURL) \<and> (\<forall>c. apiClient lb = Some c \<longrightarrow> client_leader c \<noteq> [])"

lemma members_update_Nil [simp]: "members (UpdateMemberStatus u b p) = [] \<longleftrightarrow> members p = []"
  by (metis length_0_conv members_update)

lemma getAddress_counters [simp]:
  "getAddress env (r\<lparr>Attempts := a\<rparr>) = getAddress env r" "getAddress env (r\<lparr>Retry := n\<rparr>) = getAddress env r"
  by (simp_all add: getAddress_def)

interpretation rr: server_selector env rr_good
proof
  fix lb r assume "rr_good lb r"
  then show "\<exists>so lb'. select_server env r lb = Ret (so, lb') \<and> rr_good lb' r"
    using RoundRobin_pick [of "serverPool lb"] by (auto simp: rr_good_def select_server_def)
qed (simp_all add: rr_good_def)

interpretation sh: server_selector env "hash_good env"
proof
  fix lb r assume "hash_good env lb r"
  then show "\<exists>so lb'. select_server env r lb = Ret (so, lb') \<and> hash_good env lb' r"
    using HashSelection_result [of "serverPool lb"] Get_cached [of _ "value_http env" "leader_http env" "RemoteAddr r"]
    by (cases "apiClient lb")
      (fastforce simp: hash_good_def select_server_def sourceHashHandler_def case_prod_beta Let_def split: option.splits)+
qed (simp_all add: hash_good_def)

end
