(* ===== verification/Scenario.thy ===== *)
theory Scenario
  imports Cluster Raft_CatchUp Rest LoadBalancer
begin

text \<open>
  Concrete states on which the properties are exercised: a node that is elected, takes two commands,
  has them acknowledged and delivers them; a follower with a diverging log; a server built by
  \<open>NewServer\<close>.
\<close>

definition the_ret :: "'a \<Rightarrow> 'a go \<Rightarrow> 'a" where
  "the_ret d m = (case m of Ret x \<Rightarrow> x | _ \<Rightarrow> d)"

definition kvA :: KeyValuePair where "kvA = \<lparr>Key = ''a'', Value = [1]\<rparr>"

definition kvB :: KeyValuePair where "kvB = \<lparr>Key = ''a'', Value = [2]\<rparr>"

definition demo0 :: raft where "demo0 = node3 1 [(''b'', 2), (''c'', 3)]"

definition demo1 :: raft where "demo1 = makeLeader (snd (startElection_begin 200 demo0))"

definition demo2 :: raft where "demo2 = snd (the_ret (False, demo1) (Submit (Some kvA) demo1))"

definition demo3 :: raft where "demo3 = snd (the_ret (False, demo2) (Submit (Some kvB) demo2))"

definition demo_ack :: AppendEntriesReply where "demo_ack = \<lparr>aerTerm = 1, aerSuccess = True\<rparr>"

definition demo4 :: raft where "demo4 = the_ret demo3 (broadcastMsg_locked 2 0 2 1 demo_ack demo3)"

definition demo_delivery :: "CommitEntry list \<times> raft" where
  "demo_delivery = (case commitChannel_iter demo4 of Ret (Some x) \<Rightarrow> x | _ \<Rightarrow> ([], demo4))"

definition demo_node :: node where
  "demo_node = \<lparr>nraft = snd demo_delivery, delivered = fst demo_delivery\<rparr>"

definition demo_server :: "unit Server" where
  "demo_server = \<lparr>serverState = Running, port = [], serverId = 1, serverBind = ''n1'', LastLeaderId = 0,
     LastUpdate = 0, LastTerm = 0, raftState = Some demo4, rest = None, rpc = True, quit = Some (make_chan 0),
     server_peers = [], peersHash = [], peerClient = [], peerSpec = [],
     serverSpec = \<lparr>SpecServerID = 1, RaftNetworkBind = ''n1'', RestNetworkBind = [], GrpcNetworkBind = [],
       Basedir = [], LogDir = [], MetricBind = []\<rparr>,
     db = Some NewVolatileStorage, committedLog = Some NewVolatileStorage, commitProducer = make_chan 32,
     restOn = True, submitRx = 0, voteRx = 0, appendRx = 0, LeaderId = 0\<rparr>"

lemma demo_evaluated:
  "NewRaftProtocol 1 [(''b'', 2), (''c'', 3)] 2 = Inr demo0"
  "Submit (Some kvA) demo1 = Ret (True, demo2)"
  "Submit (Some kvB) demo2 = Ret (True, demo3)"
  "broadcastMsg_locked 2 0 2 1 demo_ack demo3 = Ret demo4"
  "commitChannel_iter demo4 = Ret (Some demo_delivery)"
  by code_simp+

lemma demo_delivered:
  "delivered demo_node = [\<lparr>ceCommand = kvA, ceIndex = 0, ceTerm = 1\<rparr>, \<lparr>ceCommand = kvB, ceIndex = 1, ceTerm = 1\<rparr>]"
  "last_applied (nraft demo_node) = 1"
  by code_simp+

lemma demo_steps:
  "section_step \<lparr>nraft = demo0, delivered = []\<rparr> \<lparr>nraft = snd (startElection_begin 200 demo0), delivered = []\<rparr>"
  "section_step \<lparr>nraft = snd (startElection_begin 200 demo0), delivered = []\<rparr> \<lparr>nraft = demo1, delivered = []\<rparr>"
  "section_step \<lparr>nraft = demo1, delivered = []\<rparr> \<lparr>nraft = demo2, delivered = []\<rparr>"
  "section_step \<lparr>nraft = demo2, delivered = []\<rparr> \<lparr>nraft = demo3, delivered = []\<rparr>"
  "section_step \<lparr>nraft = demo3, delivered = []\<rparr> \<lparr>nraft = demo4, delivered = []\<rparr>"
  "section_step \<lparr>nraft = demo4, delivered = []\<rparr> demo_node"
  using section_step.candidate [of 200 "\<lparr>nraft = demo0, delivered = []\<rparr>"]
    section_step.leader [of "\<lparr>nraft = snd (startElection_begin 200 demo0), delivered = []\<rparr>"]
    section_step.submit [of "Some kvA" "\<lparr>nraft = demo1, delivered = []\<rparr>"]
    section_step.submit [of "Some kvB" "\<lparr>nraft = demo2, delivered = []\<rparr>"]
    section_step.acknowledge [of 2 0 2 1 demo_ack "\<lparr>nraft = demo3, delivered = []\<rparr>"]
    section_step.deliver [of "\<lparr>nraft = demo4, delivered = []\<rparr>" "fst demo_delivery" "snd demo_delivery"]
  by (simp_all add: demo_evaluated demo1_def [symmetric] demo_node_def) (metis prod.collapse)

lemma demo_unapplied:
  "last_applied demo0 = MaxUint64" "last_applied (snd (startElection_begin 200 demo0)) = MaxUint64"
  "last_applied demo1 = MaxUint64" "last_applied demo2 = MaxUint64"
  "last_applied demo3 = MaxUint64" "last_applied demo4 = MaxUint64"
  by code_simp+

lemma demo_uncut:
  "commit_index demo0 = MaxUint64" "commit_index (snd (startElection_begin 200 demo0)) = MaxUint64"
  "commit_index demo1 = MaxUint64" "commit_index demo2 = MaxUint64" "commit_index demo3 = MaxUint64"
  "count_of (commit_index demo4) \<le> length (stateLog demo4)"
  "count_of (commit_index (nraft demo_node)) \<le> length (stateLog (nraft demo_node))"
  by code_simp+

lemma demo_stable: "stable_run demo_node"
proof -
  note [simp] = demo_unapplied demo_uncut
  have "stable_run \<lparr>nraft = demo0, delivered = []\<rparr>" by (rule stable_run.init [OF demo_evaluated(1)])
  from stable_run.step [OF this demo_steps(1)]
  have "stable_run \<lparr>nraft = snd (startElection_begin 200 demo0), delivered = []\<rparr>" by simp
  from stable_run.step [OF this demo_steps(2)] have "stable_run \<lparr>nraft = demo1, delivered = []\<rparr>" by simp
  from stable_run.step [OF this demo_steps(3)] have "stable_run \<lparr>nraft = demo2, delivered = []\<rparr>" by simp
  from stable_run.step [OF this demo_steps(4)] have "stable_run \<lparr>nraft = demo3, delivered = []\<rparr>" by simp
  from stable_run.step [OF this demo_steps(5)] have "stable_run \<lparr>nraft = demo4, delivered = []\<rparr>" by simp
  from stable_run.step [OF this demo_steps(6)] show ?thesis by simp
qed

lemma stable_run_reachable: "stable_run n \<Longrightarrow> reachable_node n"
  by (induction rule: stable_run.induct) (auto intro: reachable_node.intros)

lemmas demo_reachable = stable_run_reachable [OF demo_stable]

section \<open>A leader and a follower whose logs disagree\<close>

definition demo_l :: raft where "demo_l = demo3\<lparr>nextIndex := [(2, 2)]\<rparr>"

definition demo_f :: raft where
  "demo_f = (node3 2 [(''a'', 1), (''c'', 3)])\<lparr>stateLog := [\<lparr>eTerm = 0, eCommand = Some kvB\<rparr>]\<rparr>"

definition demo_req :: AppendEntriesMsg where
  "demo_req = \<lparr>aeTerm = 1, aeLeaderId = 1, aePrevLogIndex = MaxUint64, aePrevLogTerm = MaxUint64,
     aeEntries = stateLog demo3, aeLeaderCommit = 0\<rparr>"

lemma demo_logs: "stateLog demo3 = [\<lparr>eTerm = 1, eCommand = Some kvA\<rparr>, \<lparr>eTerm = 1, eCommand = Some kvB\<rparr>]"
  by code_simp

lemma demo_l_facts:
  "state demo_l = Leader" "currentTerm demo_l = 1" "can_send demo_l" "map_get0 (nextIndex demo_l) 2 = 2"
  "state demo_f = Follower" "currentTerm demo_f = 0" "can_send demo_f"
  "logs_match (stateLog demo_f) (stateLog demo_l)" "stateLog demo_l = stateLog demo3"
  "length (stateLog demo_f) = 1" "term_outdated 1 0"
  by code_simp+

lemma demo_fits: "log_fits demo_l" "log_fits demo_f" "log_fits demo3"
  by (simp_all add: log_fits_def demo_logs demo_l_def demo_f_def)

lemma demo_replicating: "replicating 2 demo_l demo_f"
proof -
  have "length (stateLog demo_l) = 2" by (simp add: demo_l_facts demo_logs)
  then show ?thesis
    using demo_l_facts demo_fits unfolding replicating_def by simp
qed

section \<open>An election among three servers\<close>

definition spec_at :: "string \<Rightarrow> ServerSpec" where
  "spec_at b = \<lparr>SpecServerID = 0, RaftNetworkBind = b, RestNetworkBind = b, GrpcNetworkBind = b,
     Basedir = ''/'', LogDir = [], MetricBind = []\<rparr>"

definition specs3 :: "ServerSpec list" where
  "specs3 = [spec_at ''n1:35001'', spec_at ''n2:35001'', spec_at ''n3:35001'']"

definition server_at :: "nat \<Rightarrow> (server_error + unit Server) go" where
  "server_at a = NewServer (\<lambda>_. Some True) (specs3 ! a) (others a specs3) ''35001'' True"

definition raft_at :: "nat \<Rightarrow> raft" where
  "raft_at a = (case server_at a of Ret (Inr s) \<Rightarrow> (case raftState s of Some r \<Rightarrow> r | None \<Rightarrow> demo0) | _ \<Rightarrow> demo0)"

definition yes_vote :: RequestVoteReply where "yes_vote = \<lparr>rvrTerm = 0, rvrVoteGranted = True\<rparr>"

text \<open>Node \<open>a\<close> starts an election and counts the vote of node \<open>b\<close>.\<close>

definition ballot_of :: "nat \<Rightarrow> nat \<Rightarrow> ballot" where
  "ballot_of a b = ballot_write (server_hash (binds specs3 ! b)) 2
     (ballot_read (server_hash (binds specs3 ! b)) yes_vote (ballot_init 200 (raft_at a)))"

lemma specs3_ok: "distinct (binds specs3)" "inj_on server_hash (set (binds specs3))" "length specs3 = 3"
  unfolding inj_on_def by code_simp+

lemma ballot_read_write_run:
  assumes "p \<in> set (map snd (peers (bRaft (ballot_init now r))))" "isCandidate (bRaft (ballot_init now r))"
    and "rvrTerm reply = bTerm (ballot_init now r)" "bTerm (ballot_init now r) \<noteq> MaxUint64"
    and "map_of (updates (ballot_init now r)) p = None" "written (ballot_init now r) = []"
    and "u = gotVote (bTerm (ballot_init now r)) (votesReceived (ballot_init now r)) reply"
  shows "ballot_run now r (ballot_write p u (ballot_read p reply (ballot_init now r)))"
proof -
  let ?b = "ballot_read p reply (ballot_init now r)"
  have "ballot_run now r ?b"
    by (rule ballot_run.step [OF ballot_run.init ballot_step.fetch]) (use assms in simp_all)
  moreover have "ballot_step ?b (ballot_write p u ?b)"
    by (rule ballot_step.store) (use assms in \<open>simp_all add: ballot_read_def\<close>)
  ultimately show ?thesis by (rule ballot_run.step)
qed

lemma ballot_of_runs:
  "ballot_run 200 (raft_at 0) (ballot_of 0 1)" "ballot_run 200 (raft_at 1) (ballot_of 1 0)"
  unfolding ballot_of_def by (rule ballot_read_write_run; code_simp)+

lemma ballot_of_won: "state (bRaft (ballot_of 0 1)) = Leader" "state (bRaft (ballot_of 1 0)) = Leader"
  by code_simp+

lemma server_at_new:
  assumes "a < 3"
  shows "\<exists>s. server_at a = Ret (Inr s) \<and> raftState s = Some (raft_at a)"
proof -
  have len: "length (others a specs3) \<noteq> 0" using assms by (simp add: others_def specs3_ok)
  have h: "fold (\<lambda>p m. map_set (RaftNetworkBind p) (server_hash (RaftNetworkBind p)) m) (others a specs3) [] \<noteq> []"
    using set_fst_fold_map_set [of RaftNetworkBind "\<lambda>p. server_hash (RaftNetworkBind p)" "others a specs3" "[]"] len
    by auto
  obtain s where "server_at a = Ret (Inr s)"
    using len h by (auto simp: server_at_def NewServer_def NewRaftProtocol_def NewRestfulServer_def IsDir_def Let_def)
  moreover from this obtain r where "raftState s = Some r"
    unfolding server_at_def by (auto dest: NewServer_Ret)
  ultimately show ?thesis by (simp add: raft_at_def)
qed

section \<open>Two leaders\<close>

text \<open>
  After the split vote both leaders take a command, replicate it to node 2, count it as committed and
  apply it.
\<close>

definition clash :: "event list" where
  "clash = split_vote @ [ClientSubmit 1 kvA, ClientSubmit 3 kvB, Heartbeat 1 2, Arrive 300 2, Arrive 301 2,
     Apply 1, Heartbeat 3 2, Arrive 400 2, Arrive 401 2, Apply 3]"

definition split_end :: cluster where "split_end = the_ret cluster3 (cluster_run split_vote cluster3)"

definition clash_end :: cluster where "clash_end = the_ret cluster3 (cluster_run clash cluster3)"

lemma split_evaluated:
  "cluster_run split_vote cluster3 = Ret split_end"
  "map_option (\<lambda>r. (state r, currentTerm r)) (map_of (nodes split_end) 1) = Some (Leader, 1)"
  "map_option (\<lambda>r. (state r, currentTerm r)) (map_of (nodes split_end) 3) = Some (Leader, 1)"
  by code_simp+

lemma clash_evaluated:
  "cluster_run clash cluster3 = Ret clash_end"
  "applied clash_end = [(1, [\<lparr>ceCommand = kvA, ceIndex = 0, ceTerm = 1\<rparr>]), (3, [\<lparr>ceCommand = kvB, ceIndex = 0, ceTerm = 1\<rparr>])]"
  "submitted clash_end = [kvB, kvA]"
  by code_simp+

section \<open>A lost update of the vote counter\<close>

definition node5 :: raft where
  "node5 = (node3 1 [(''b'', 2), (''c'', 3), (''d'', 4), (''e'', 5)])\<lparr>numberPeers := 4\<rparr>"

definition lost1 :: ballot where "lost1 = ballot_read 2 yes_vote (ballot_init 200 node5)"

definition lost2 :: ballot where "lost2 = ballot_read 3 yes_vote lost1"

definition lost3 :: ballot where "lost3 = ballot_write 2 2 lost2"

definition lost4 :: ballot where "lost4 = ballot_write 3 2 lost3"

lemma lost_run: "ballot_run 200 node5 lost4"
proof -
  have "ballot_run 200 node5 lost1"
    unfolding lost1_def by (rule ballot_run.step [OF ballot_run.init ballot_step.fetch]; code_simp)
  then have "ballot_run 200 node5 lost2"
    unfolding lost2_def by (rule ballot_run.step [OF _ ballot_step.fetch]; code_simp)
  then have "ballot_run 200 node5 lost3"
    unfolding lost3_def by (rule ballot_run.step [OF _ ballot_step.store]; code_simp)
  then show ?thesis
    unfolding lost4_def by (rule ballot_run.step [OF _ ballot_step.store]; code_simp)
qed

section \<open>A server that leads\<close>

definition served :: "unit Server" where
  "served = (case server_at 0 of
     Ret (Inr s) \<Rightarrow> (case Serve (\<lambda>_. True) (\<lambda>_. Some ()) (Some s) of Ret (Inr s') \<Rightarrow> s' | _ \<Rightarrow> demo_server)
   | _ \<Rightarrow> demo_server)"

definition leading :: "unit Server" where
  "leading = served\<lparr>raftState := Some (makeLeader (raft_at 0)), commitProducer := make_chan 32\<rparr>"

lemma connect_peers_total: "\<exists>s' olds. connect_peers (\<lambda>_. Some ()) ps s = Ret (s', olds)"
proof (induction ps arbitrary: s)
  case (Cons p ps)
  obtain s1 old where c: "connect_peer (\<lambda>_. Some ()) p s = Ret (s1, old)" by (simp add: connect_peer_def Let_def)
  from Cons.IH [of s1] show ?case by (auto simp: c)
qed simp

lemma served_facts:
  "reachable_server served" "serverState served = Running" "raftState served = Some (raft_at 0)"
  "peerSpec served \<noteq> []" "server_inv served" "rpc served"
proof -
  obtain s where s: "server_at 0 = Ret (Inr s)" "raftState s = Some (raft_at 0)" using server_at_new [of 0] by auto
  have new: "serverState s = Init" "peerSpec s \<noteq> []" "reachable_server s"
    using s(1) unfolding server_at_def by (auto intro: reachable_server.init dest: NewServer_Ret)
  obtain s2 olds where con: "connect_peers (\<lambda>_. Some ()) (peerSpec (s\<lparr>rpc := True\<rparr>)) (s\<lparr>rpc := True\<rparr>) = Ret (s2, olds)"
    using connect_peers_total by blast
  then have s2: "raftState s2 = raftState s" "peerSpec s2 = peerSpec s" "rpc s2"
    by (auto dest: connect_peers_Ret)
  let ?s3 = "s2\<lparr>serverState := Running, rest := map_option (\<lambda>rs. rs\<lparr>healthy := 1\<rparr>) (rest s2)\<rparr>"
  have serve: "Serve (\<lambda>_. True) (\<lambda>_. Some ()) (Some s) = Ret (Inr ?s3)"
    using new(1) con by (simp add: Serve_def Server_StartRest_def createListener_def)
  then have eq: "served = ?s3" by (simp add: served_def s(1))
  show reach: "reachable_server served"
    unfolding eq by (rule reachable_server.step [OF new(3) server_step.serve [OF serve]])
  show "serverState served = Running" "raftState served = Some (raft_at 0)" "peerSpec served \<noteq> []" "rpc served"
    using s2 s(2) new(2) by (simp_all add: eq)
  show "server_inv served" using reachable_server_wf [OF reach] by (simp add: server_wf_def)
qed

lemma leading_facts:
  "reachable_server leading" "serverState leading = Running" "raftState leading = Some (makeLeader (raft_at 0))"
  "state (makeLeader (raft_at 0)) = Leader" "peerSpec leading \<noteq> []" "server_inv leading" "rpc leading"
proof -
  have "section_step \<lparr>nraft = raft_at 0, delivered = []\<rparr> \<lparr>nraft = makeLeader (raft_at 0), delivered = []\<rparr>"
    using section_step.leader [of "\<lparr>nraft = raft_at 0, delivered = []\<rparr>"] by simp
  from server_step.consensus [OF served_facts(3) this] show "reachable_server leading"
    unfolding leading_def by (rule reachable_server.step [OF served_facts(1)])
qed (use served_facts in \<open>simp_all add: leading_def makeLeader_def server_inv_def\<close>)

section \<open>A pool of servers\<close>

definition farm :: "string \<Rightarrow> bool \<Rightarrow> ServerFarm" where
  "farm u b = \<lparr>URL = \<lparr>urlString = u, urlHost = u\<rparr>, Alive = b\<rparr>"

definition pool_of :: "ServerFarm list \<Rightarrow> ServerPool" where
  "pool_of ms = \<lparr>members = ms, current = 0, poolSize = of_nat (length ms)\<rparr>"

definition demo_pool :: ServerPool where
  "demo_pool = pool_of [farm ''http://a'' True, farm ''http://b'' True, farm ''http://c'' True]"

definition demo_lb :: LoadBalancer where
  "demo_lb = \<lparr>servers = [''http://a'', ''http://b''], serverPool = pool_of [farm ''http://a'' True, farm ''http://b'' True],
     isDead_lb = False, maxRetry = 3, healthTime = 1, probeType = ProbeHttp, lb_method = RoundRobinMethod, apiEndpoits = [], apiClient = None, lb_bind = '':80''\<rparr>"

definition demo_request :: request where
  "demo_request = \<lparr>RemoteAddr = ''10.0.0.1:4242'', Attempts = None, Retry = None\<rparr>"

definition demo_env :: net_env where
  "demo_env = \<lparr>splitHostPort = (\<lambda>_. Some (''10.0.0.1'', ''4242'')), parseIP = Some, atoi = (\<lambda>_. (4242, True)),
     parseURL = (\<lambda>u. Some \<lparr>urlString = u, urlHost = u\<rparr>), leader_http = (\<lambda>_. Timeout), value_http = (\<lambda>_. Timeout)\<rparr>"

lemma pool_of_wf: "length ms < 2 ^ 63 \<Longrightarrow> pool_wf (pool_of ms)"
  by (simp add: pool_of_def pool_wf_def)

section \<open>A router\<close>

text \<open>The last two segments of a path.\<close>

definition last_two :: "string \<Rightarrow> (string \<times> string) option" where
  "last_two url =
     (let r = rev url; v = takeWhile (\<lambda>c. c \<noteq> CHR ''/'') r; r' = tl (dropWhile (\<lambda>c. c \<noteq> CHR ''/'') r)
      in Some (rev (takeWhile (\<lambda>c. c \<noteq> CHR ''/'') r'), rev v))"

lemma takeWhile_segment: "CHR ''/'' \<notin> set v \<Longrightarrow> takeWhile (\<lambda>c. c \<noteq> CHR ''/'') (v @ CHR ''/'' # w) = v"
  by (induction v) auto

lemma dropWhile_segment: "CHR ''/'' \<notin> set v \<Longrightarrow> dropWhile (\<lambda>c. c \<noteq> CHR ''/'') (v @ CHR ''/'' # w) = CHR ''/'' # w"
  by (induction v) auto

lemma last_two_ok: "mux_ok lead last_two"
  unfolding mux_ok_def
proof (intro allI impI)
  fix k v :: string
  assume "url_segment k \<and> url_segment v"
  then have kv: "CHR ''/'' \<notin> set (rev k)" "CHR ''/'' \<notin> set (rev v)" by (simp_all add: url_segment_slash)
  have "rev (''http://'' @ lead @ ApiSubmit @ ''/'' @ k @ ''/'' @ v) =
      rev v @ CHR ''/'' # (rev k @ CHR ''/'' # rev (''http://'' @ lead @ ApiSubmit))" by simp
  then show "last_two (''http://'' @ lead @ ApiSubmit @ ''/'' @ k @ ''/'' @ v) = Some (k, v)"
    unfolding last_two_def Let_def by (simp only: takeWhile_segment [OF kv(2)] dropWhile_segment [OF kv(2)]
        list.sel takeWhile_segment [OF kv(1)] rev_rev_ident)
qed

end
