(* ===== verification/Radix.thy ===== *)
theory Radix
  imports Go_Prelude "HOL-Library.Char_ord" "HOL-Library.List_Lexorder" "HOL-Library.Multiset" "HOL-Library.Sublist"
begin

text \<open>
  The radix tree of \<open>pkg/radix\<close> (\<open>radix.go\<close>, \<open>node.go\<close>, \<open>edge.go\<close>). \<open>node.go\<close> reads the label of an edge in a
  field \<open>label\<close> that \<open>edge\<close> does not have; the model reads the field \<open>bits\<close>, which holds it. A node has one
  parent, so the tree of pointers is a value of the type \<open>Node\<close>, and a loop that walks down and then
  writes through a pointer is a function that returns the rewritten subtree. Bytes are characters, ordered
  by their codes. The callbacks answer by their arguments only; a walk yields the leaves they were called
  on.
\<close>

section \<open>Edges and nodes\<close>

record 'v leafNode =
  leafKey :: string
  leafVal :: 'v

datatype 'v Node = Node (leaf: "'v leafNode option") (node_prefix: string) (edges: "(char \<times> 'v Node) list")

definition isLeaf :: "'v Node \<Rightarrow> bool" where
  "isLeaf n \<longleftrightarrow> leaf n \<noteq> None"

definition set_leaf :: "'v leafNode option \<Rightarrow> 'v Node \<Rightarrow> 'v Node" where
  "set_leaf l n = Node l (node_prefix n) (edges n)"

definition set_prefix :: "string \<Rightarrow> 'v Node \<Rightarrow> 'v Node" where
  "set_prefix p n = Node (leaf n) p (edges n)"

definition set_edges :: "(char \<times> 'v Node) list \<Rightarrow> 'v Node \<Rightarrow> 'v Node" where
  "set_edges es n = Node (leaf n) (node_prefix n) es"

text \<open>The operations of \<open>edges\<close> for the sort package; an index out of range panics.\<close>

definition edges_Len :: "(char \<times> 'v Node) list \<Rightarrow> nat" where
  "edges_Len e = length e"

definition edges_Less :: "nat \<Rightarrow> nat \<Rightarrow> (char \<times> 'v Node) list \<Rightarrow> bool go" where
  "edges_Less i j e = bind_go (go_index e i) (\<lambda>a. bind_go (go_index e j) (\<lambda>b. Ret (fst a < fst b)))"

definition edges_Swap :: "nat \<Rightarrow> nat \<Rightarrow> (char \<times> 'v Node) list \<Rightarrow> (char \<times> 'v Node) list go" where
  "edges_Swap i j e = bind_go (go_index e j) (\<lambda>b. bind_go (go_index e i) (\<lambda>a. Ret (e[i := b, j := a])))"

definition edges_Sort :: "(char \<times> 'v Node) list \<Rightarrow> (char \<times> 'v Node) list" where
  "edges_Sort e = sort_key fst e"

text \<open>
  Whatever swaps \<open>sort.Sort\<close> makes, if it leaves no pair that \<open>Less\<close> calls unordered, its result is
  \<open>edges_Sort\<close>, since the labels are distinct.
\<close>

lemma edges_Swap_mset: "edges_Swap i j e = Ret e' \<Longrightarrow> mset e' = mset e"
  using mset_swap [of j e i] by (auto simp: edges_Swap_def go_index_def bind_go_Ret_iff split: if_splits)

lemma edges_Sort_unique:
  assumes "distinct (map fst e)" "mset e' = mset e"
    and "\<And>i j. i < j \<Longrightarrow> j < edges_Len e' \<Longrightarrow> edges_Less j i e' = Ret False"
  shows "e' = edges_Sort e"
proof -
  have "fst (e' ! i) \<le> fst (e' ! j)" if "i < j" "j < length e'" for i j
    using assms(3) [of i j] that by (simp add: edges_Less_def edges_Len_def go_index_def)
  then have "sorted (map fst e')" by (auto simp: sorted_wrt_iff_nth_less)
  moreover have set: "set e' = set e" using assms(2) by (rule mset_eq_setD)
  moreover have "distinct (map fst e')"
    using assms(1,2) by (metis mset_eq_imp_distinct_iff mset_map)
  moreover have "inj_on fst (set e' \<union> set (edges_Sort e))"
    using assms(1) by (simp add: set edges_Sort_def distinct_map)
  ultimately show ?thesis
    using assms(1) by (intro map_sorted_distinct_set_unique [of fst]) (simp_all add: edges_Sort_def distinct_map)
qed

definition Node_add :: "char \<times> 'v Node \<Rightarrow> 'v Node \<Rightarrow> 'v Node" where
  "Node_add e n = set_edges (edges_Sort (edges n @ [e])) n"

text \<open>\<open>sort.Search\<close>: binary search for the least index that satisfies \<open>f\<close>.\<close>

function search_loop :: "(nat \<Rightarrow> bool) \<Rightarrow> nat \<Rightarrow> nat \<Rightarrow> nat" where
  "search_loop f i j =
     (if i < j then let h = (i + j) div 2 in if \<not> f h then search_loop f (h + 1) j else search_loop f i h else i)"
  by pat_completeness auto
termination by (relation "measure (\<lambda>(f, i, j). j - i)") auto

declare search_loop.simps [simp del]

definition Search :: "nat \<Rightarrow> (nat \<Rightarrow> bool) \<Rightarrow> nat" where
  "Search n f = search_loop f 0 n"

definition edge_index :: "char \<Rightarrow> 'v Node \<Rightarrow> nat" where
  "edge_index bits n = Search (length (edges n)) (\<lambda>i. fst (edges n ! i) \<ge> bits)"

text \<open>The condition reads the edge before it compares the index with the length.\<close>

definition Node_update :: "char \<Rightarrow> 'v Node \<Rightarrow> 'v Node \<Rightarrow> 'v Node go" where
  "Node_update bits node n =
     (let num = length (edges n); i = edge_index bits n in
      bind_go (go_index (edges n) i) (\<lambda>e.
        if fst e = bits \<and> i < num then Ret (set_edges ((edges n)[i := (fst e, node)]) n)
        else Panic (ExplicitPanic ''replacing missing edge'')))"

definition getEdge :: "char \<Rightarrow> 'v Node \<Rightarrow> 'v Node option" where
  "getEdge lab n =
     (let num = length (edges n); idx = edge_index lab n in
      if idx < num \<and> fst (edges n ! idx) = lab then Some (snd (edges n ! idx)) else None)"

definition delEdge :: "char \<Rightarrow> 'v Node \<Rightarrow> 'v Node" where
  "delEdge lab n =
     (let num = length (edges n); idx = edge_index lab n in
      if idx < num \<and> fst (edges n ! idx) = lab then set_edges (take idx (edges n) @ drop (idx + 1) (edges n)) n
      else n)"

text \<open>The write through the pointer of the edge with label \<open>c\<close>.\<close>

definition put_child :: "char \<Rightarrow> 'v Node \<Rightarrow> 'v Node \<Rightarrow> 'v Node" where
  "put_child c m n = set_edges ((edges n)[edge_index c n := (c, m)]) n"

definition join :: "'v Node \<Rightarrow> 'v Node go" where
  "join n =
     bind_go (go_index (edges n) 0) (\<lambda>e.
       Ret (Node (leaf (snd e)) (node_prefix n @ node_prefix (snd e)) (edges (snd e))))"

fun longestMatch :: "string \<Rightarrow> string \<Rightarrow> nat" where
  "longestMatch (a # n) (b # m) = (if a \<noteq> b then 0 else Suc (longestMatch n m))"
| "longestMatch _ _ = 0"

definition HasPrefix :: "string \<Rightarrow> string \<Rightarrow> bool" where
  "HasPrefix s p \<longleftrightarrow> take (length p) s = p"

section \<open>The search of an edge\<close>

lemma search_loop_bounds: "i \<le> j \<Longrightarrow> i \<le> search_loop f i j \<and> search_loop f i j \<le> j"
proof (induction f i j rule: search_loop.induct)
  case (1 f i j)
  show ?case
  proof (cases "i < j")
    case True
    then show ?thesis
      using "1.IH" [OF True refl] by (subst (1 2) search_loop.simps) (cases "f ((i + j) div 2)"; fastforce simp: Let_def)
  qed (use "1.prems" in \<open>simp add: search_loop.simps\<close>)
qed

text \<open>On a monotone predicate the result splits the range.\<close>

definition upward :: "(nat \<Rightarrow> bool) \<Rightarrow> nat \<Rightarrow> bool" where
  "upward f j \<longleftrightarrow> (\<forall>a b. a \<le> b \<and> b < j \<and> f a \<longrightarrow> f b)"

lemma upwardD: "upward f j \<Longrightarrow> f a \<Longrightarrow> a \<le> b \<Longrightarrow> b < j \<Longrightarrow> f b"
  by (auto simp: upward_def)

lemma upward_less: "upward f j \<Longrightarrow> h \<le> j \<Longrightarrow> upward f h"
  unfolding upward_def by (meson order_less_le_trans)

definition splits_at :: "(nat \<Rightarrow> bool) \<Rightarrow> nat \<Rightarrow> nat \<Rightarrow> nat \<Rightarrow> bool" where
  "splits_at f i j r \<longleftrightarrow> (\<forall>k. i \<le> k \<and> k < r \<longrightarrow> \<not> f k) \<and> (\<forall>k. r \<le> k \<and> k < j \<longrightarrow> f k)"

lemma search_loop_splits: "i \<le> j \<Longrightarrow> upward f j \<Longrightarrow> splits_at f i j (search_loop f i j)"
proof (induction f i j rule: search_loop.induct)
  case (1 f i j)
  let ?h = "(i + j) div 2"
  show ?case
  proof (cases "i < j")
    case lt: True
    then have h: "i \<le> ?h" "?h < j" by simp_all
    show ?thesis
    proof (cases "f ?h")
      case True
      have step: "search_loop f i j = search_loop f i ?h" using lt True by (subst search_loop.simps) (simp add: Let_def)
      have "splits_at f i ?h (search_loop f i ?h)"
        using "1.IH"(2) [OF lt refl] True upward_less [OF "1.prems"(2), of ?h] h by simp
      moreover have "f k" if "?h \<le> k" "k < j" for k using upwardD [OF "1.prems"(2) True that] .
      ultimately show ?thesis unfolding step splits_at_def by (meson not_le_imp_less)
    next
      case False
      have step: "search_loop f i j = search_loop f (?h + 1) j" using lt False by (subst search_loop.simps) (simp add: Let_def)
      have up: "splits_at f (?h + 1) j (search_loop f (?h + 1) j)"
        using "1.IH"(1) [OF lt refl False] "1.prems"(2) h by simp
      have low: "\<not> f k" if "k \<le> ?h" for k using upwardD [OF "1.prems"(2) _ that h(2)] False by blast
      have "\<not> f k" if "k < search_loop f (?h + 1) j" for k
        using low [of k] up that by (cases "k \<le> ?h") (simp_all add: splits_at_def)
      then show ?thesis unfolding step using up by (simp add: splits_at_def)
    qed
  qed (use "1.prems" in \<open>auto simp: search_loop.simps splits_at_def\<close>)
qed

abbreviation labels :: "'v Node \<Rightarrow> char list" where
  "labels n \<equiv> map fst (edges n)"

definition ordered :: "'v Node \<Rightarrow> bool" where
  "ordered n \<longleftrightarrow> sorted_wrt (<) (labels n)"

lemma edge_index_split:
  assumes "ordered n"
  shows "edge_index c n \<le> length (edges n)" "k < edge_index c n \<Longrightarrow> fst (edges n ! k) < c"
    "edge_index c n \<le> k \<Longrightarrow> k < length (edges n) \<Longrightarrow> c \<le> fst (edges n ! k)"
proof -
  let ?f = "\<lambda>i. fst (edges n ! i) \<ge> c"
  have "?f b" if "a \<le> b" "b < length (edges n)" "?f a" for a b
  proof -
    have "fst (edges n ! a) \<le> fst (edges n ! b)"
      using assms sorted_wrt_nth_less [of "(<)" "labels n" a b] that by (cases "a = b") (simp_all add: ordered_def)
    then show ?thesis using that(3) by (meson order_trans)
  qed
  then have up: "upward ?f (length (edges n))" unfolding upward_def by blast
  show "edge_index c n \<le> length (edges n)"
    using search_loop_bounds [of 0 "length (edges n)" ?f] by (simp add: edge_index_def Search_def)
  show "k < edge_index c n \<Longrightarrow> fst (edges n ! k) < c" "edge_index c n \<le> k \<Longrightarrow> k < length (edges n) \<Longrightarrow> c \<le> fst (edges n ! k)"
    using search_loop_splits [OF _ up, of 0] by (auto simp: edge_index_def Search_def splits_at_def not_le)
qed

lemma edge_index_unique:
  assumes "ordered n" "k < length (edges n)" "fst (edges n ! k) = c"
  shows "edge_index c n = k"
proof (rule linorder_cases [of "edge_index c n" k])
  assume lt: "edge_index c n < k"
  then have "fst (edges n ! edge_index c n) < fst (edges n ! k)"
    using assms sorted_wrt_nth_less [of "(<)" "labels n" "edge_index c n" k] by (simp add: ordered_def)
  moreover have "c \<le> fst (edges n ! edge_index c n)"
    using edge_index_split(3) [OF assms(1), of c "edge_index c n"] lt assms(2) by simp
  ultimately show ?thesis using assms(3) by order
next
  assume "k < edge_index c n"
  then show ?thesis using edge_index_split(2) [OF assms(1)] assms(3) by fastforce
qed

lemma getEdge_iff: "ordered n \<Longrightarrow> getEdge c n = Some m \<longleftrightarrow> (c, m) \<in> set (edges n)"
proof
  assume "ordered n" and "(c, m) \<in> set (edges n)"
  then obtain k where "k < length (edges n)" "edges n ! k = (c, m)" by (auto simp: in_set_conv_nth)
  then show "getEdge c n = Some m" using edge_index_unique [OF \<open>ordered n\<close>, of k c] by (simp add: getEdge_def)
next
  assume "getEdge c n = Some m"
  then show "(c, m) \<in> set (edges n)" by (auto simp: getEdge_def Let_def split: if_splits) (metis nth_mem prod.collapse)
qed

lemma getEdge_nth:
  "getEdge c n = Some m \<Longrightarrow> edge_index c n < length (edges n) \<and> edges n ! edge_index c n = (c, m)"
  by (auto simp: getEdge_def Let_def prod_eq_iff split: if_splits)

lemma getEdge_in: "getEdge c n = Some m \<Longrightarrow> (c, m) \<in> set (edges n)"
  by (metis getEdge_nth nth_mem)

lemma edge_size [termination_simp]: "(c, m) \<in> set es \<Longrightarrow> size m < Suc (size_list (size_prod (\<lambda>_. 0) size) es)"
  by (induction es) auto

lemma getEdge_size [termination_simp]: "getEdge c n = Some m \<Longrightarrow> size m < size n"
  by (cases n) (auto dest!: getEdge_in edge_size)

lemma last_edge_size [termination_simp]:
  "es \<noteq> [] \<Longrightarrow> size (snd (last es)) < Suc (k + size_list (\<lambda>x. Suc (size (snd x))) es)"
  by (induction es) auto

section \<open>Reading operations\<close>

record 'v Tree =
  root :: "'v Node"
  tree_size :: int
  predicate :: "(string \<Rightarrow> 'v \<Rightarrow> bool) option"

definition Tree_Len :: "'v Tree \<Rightarrow> int" where
  "Tree_Len t = tree_size t"

fun lookup_loop :: "'v Node \<Rightarrow> string \<Rightarrow> 'v option" where
  "lookup_loop subTree [] = map_option leafVal (leaf subTree)"
| "lookup_loop subTree (c # query) =
     (case getEdge c subTree of
        None \<Rightarrow> None
      | Some m \<Rightarrow>
          if HasPrefix (c # query) (node_prefix m) then lookup_loop m (drop (length (node_prefix m)) (c # query))
          else None)"

definition Tree_lookup :: "string \<Rightarrow> 'v Tree \<Rightarrow> 'v option" where
  "Tree_lookup s t = lookup_loop (root t) s"

text \<open>The key and value of the last leaf passed.\<close>

fun longest_loop :: "'v Node \<Rightarrow> string \<Rightarrow> 'v leafNode option \<Rightarrow> 'v leafNode option" where
  "longest_loop subTree query lastLeaf =
     (let lastLeaf = (if isLeaf subTree then leaf subTree else lastLeaf) in
      case query of
        [] \<Rightarrow> lastLeaf
      | c # _ \<Rightarrow>
          (case getEdge c subTree of
             None \<Rightarrow> lastLeaf
           | Some m \<Rightarrow>
               if HasPrefix query (node_prefix m) then longest_loop m (drop (length (node_prefix m)) query) lastLeaf
               else lastLeaf))"

declare longest_loop.simps [simp del]

definition leaf_result :: "'v leafNode option \<Rightarrow> string \<times> 'v option \<times> bool" where
  "leaf_result l = (case l of None \<Rightarrow> ([], None, False) | Some x \<Rightarrow> (leafKey x, Some (leafVal x), True))"

definition Tree_LongestPrefix :: "string \<Rightarrow> 'v Tree \<Rightarrow> string \<times> 'v option \<times> bool" where
  "Tree_LongestPrefix s t = leaf_result (longest_loop (root t) s None)"

fun min_loop :: "'v Node \<Rightarrow> 'v leafNode option" where
  "min_loop (Node l p es) = (if l \<noteq> None then l else case es of [] \<Rightarrow> None | e # _ \<Rightarrow> min_loop (snd e))"

definition Tree_Min :: "'v Tree \<Rightarrow> string \<times> 'v option \<times> bool" where
  "Tree_Min t = leaf_result (min_loop (root t))"

fun max_loop :: "'v Node \<Rightarrow> 'v leafNode option" where
  "max_loop (Node l p es) = (if es \<noteq> [] then max_loop (snd (last es)) else l)"

definition Tree_Max :: "'v Tree \<Rightarrow> string \<times> 'v option \<times> bool" where
  "Tree_Max t = leaf_result (max_loop (root t))"

text \<open>
  A walk returns whether the callback asked to stop, and the leaves the callback was called on. Calling a
  nil callback panics.
\<close>

definition visit :: "(string \<Rightarrow> 'v \<Rightarrow> bool) option \<Rightarrow> 'v leafNode option \<Rightarrow> (bool \<times> 'v leafNode list) go" where
  "visit p l =
     (case l of
        None \<Rightarrow> Ret (False, [])
      | Some x \<Rightarrow> (case p of None \<Rightarrow> Panic NilDereference | Some f \<Rightarrow> Ret (f (leafKey x) (leafVal x), [x])))"

fun preorderWalk :: "(string \<Rightarrow> 'v \<Rightarrow> bool) option \<Rightarrow> 'v Node \<Rightarrow> (bool \<times> 'v leafNode list) go"
  and walk_edges :: "(string \<Rightarrow> 'v \<Rightarrow> bool) option \<Rightarrow> (char \<times> 'v Node) list \<Rightarrow> (bool \<times> 'v leafNode list) go" where
  "preorderWalk p (Node l pre es) =
     bind_go (visit p l) (\<lambda>(stop, vs).
       if stop then Ret (True, vs) else bind_go (walk_edges p es) (\<lambda>(stop', ws). Ret (stop', vs @ ws)))"
| "walk_edges p [] = Ret (False, [])"
| "walk_edges p ((c, m) # es) =
     bind_go (preorderWalk p m) (\<lambda>(stop, vs).
       if stop then Ret (True, vs) else bind_go (walk_edges p es) (\<lambda>(stop', ws). Ret (stop', vs @ ws)))"

definition Tree_Walk :: "'v Tree \<Rightarrow> 'v leafNode list go" where
  "Tree_Walk t = bind_go (preorderWalk (predicate t) (root t)) (\<lambda>(_, vs). Ret vs)"

fun walk_prefix_loop :: "(string \<Rightarrow> 'v \<Rightarrow> bool) option \<Rightarrow> 'v Node \<Rightarrow> string \<Rightarrow> 'v leafNode list go" where
  "walk_prefix_loop p subTree [] = bind_go (preorderWalk p subTree) (\<lambda>(_, vs). Ret vs)"
| "walk_prefix_loop p subTree (c # search) =
     (case getEdge c subTree of
        None \<Rightarrow> Ret []
      | Some m \<Rightarrow>
          if HasPrefix (c # search) (node_prefix m) then walk_prefix_loop p m (drop (length (node_prefix m)) (c # search))
          else if HasPrefix (node_prefix m) (c # search) then bind_go (preorderWalk p m) (\<lambda>(_, vs). Ret vs)
          else Ret [])"

definition Tree_WalkPrefix :: "string \<Rightarrow> 'v Tree \<Rightarrow> 'v leafNode list go" where
  "Tree_WalkPrefix pre t = walk_prefix_loop (predicate t) (root t) pre"

fun path_loop :: "(string \<Rightarrow> 'v \<Rightarrow> bool) option \<Rightarrow> 'v Node \<Rightarrow> string \<Rightarrow> 'v leafNode list go" where
  "path_loop p subTree query =
     bind_go (visit p (leaf subTree)) (\<lambda>(stop, vs).
       if stop then Ret vs
       else case query of
         [] \<Rightarrow> Ret vs
       | c # _ \<Rightarrow>
           (case getEdge c subTree of
              None \<Rightarrow> Ret vs
            | Some m \<Rightarrow>
                if HasPrefix query (node_prefix m)
                then bind_go (path_loop p m (drop (length (node_prefix m)) query)) (\<lambda>ws. Ret (vs @ ws))
                else Ret vs))"

declare path_loop.simps [simp del]

definition Tree_PreorderWalk :: "string \<Rightarrow> 'v Tree \<Rightarrow> 'v leafNode list go" where
  "Tree_PreorderWalk path t = path_loop (predicate t) (root t) path"

section \<open>Writing operations\<close>

definition addNode :: "string \<Rightarrow> 'v \<Rightarrow> 'v Node option \<Rightarrow> 'v Node go" where
  "addNode s v parent =
     bind_go (go_index s 0) (\<lambda>bits.
       case parent of
         None \<Rightarrow> Panic NilDereference
       | Some p \<Rightarrow> Ret (Node_add (bits, Node (Some \<lparr>leafKey = s, leafVal = v\<rparr>) s []) p))"

text \<open>
  The result of \<open>Insert\<close> on a subtree: the subtree, the old value if the key was there, and by how much
  the size grows. The variable \<open>subTree\<close> is nil where the code passes it to \<open>addNode\<close>.
\<close>

definition split_node :: "string \<Rightarrow> 'v \<Rightarrow> string \<Rightarrow> nat \<Rightarrow> 'v Node \<Rightarrow> 'v Node" where
  "split_node s v query common subTree =
     (let child = Node None (take common query) [];
          child1 = Node_add (node_prefix subTree ! common, set_prefix (drop common (node_prefix subTree)) subTree) child;
          lf = \<lparr>leafKey = s, leafVal = v\<rparr>;
          query1 = drop common query
      in case query1 of
           [] \<Rightarrow> set_leaf (Some lf) child1
         | c # _ \<Rightarrow> Node_add (c, Node (Some lf) query1 []) child1)"

fun insert_loop :: "string \<Rightarrow> 'v \<Rightarrow> 'v Node \<Rightarrow> string \<Rightarrow> ('v Node \<times> 'v option \<times> int) go" where
  "insert_loop s v subTree [] =
     (case leaf subTree of
        Some l \<Rightarrow> Ret (set_leaf (Some (l\<lparr>leafVal := v\<rparr>)) subTree, Some (leafVal l), 0)
      | None \<Rightarrow> Ret (set_leaf (Some \<lparr>leafKey = s, leafVal = v\<rparr>) subTree, None, 1))"
| "insert_loop s v parent (c # query) =
     (case getEdge c parent of
        None \<Rightarrow> bind_go (addNode s v None) (\<lambda>p. Ret (p, None, 1))
      | Some subTree \<Rightarrow>
          let common = longestMatch (c # query) (node_prefix subTree) in
          if common = length (node_prefix subTree) then
            bind_go (insert_loop s v subTree (drop common (c # query))) (\<lambda>(m, old, d).
              Ret (put_child c m parent, old, d))
          else
            bind_go (Node_update c (split_node s v (c # query) common subTree) parent) (\<lambda>p. Ret (p, None, 1)))"

definition Tree_Insert :: "string \<Rightarrow> 'v \<Rightarrow> 'v Tree \<Rightarrow> ('v Tree \<times> 'v option \<times> bool) go" where
  "Tree_Insert s v t =
     bind_go (insert_loop s v (root t) s) (\<lambda>(n, old, d).
       Ret (t\<lparr>root := n, tree_size := tree_size t + d\<rparr>, old, old \<noteq> None))"

definition insert_all :: "(string \<times> 'v) list \<Rightarrow> 'v Tree \<Rightarrow> 'v Tree go" where
  "insert_all m t = fold_go (\<lambda>(k, v) t. bind_go (Tree_Insert k v t) (\<lambda>(t1, _). Ret t1)) m t"

definition Tree_NewFromMap :: "(string \<times> 'v) list \<Rightarrow> 'v Tree go" where
  "Tree_NewFromMap m = insert_all m \<lparr>root = Node None [] [], tree_size = 0, predicate = None\<rparr>"

definition Tree_New :: "'v Tree go" where
  "Tree_New = Tree_NewFromMap []"

text \<open>
  \<open>removeNode\<close> yields the node, whether its edge in the parent is deleted, and the value. The root has no
  parent and is not merged with its child.
\<close>

definition removeNode :: "bool \<Rightarrow> 'v Node \<Rightarrow> ('v Node \<times> bool \<times> 'v) go" where
  "removeNode is_root n =
     (let n1 = set_leaf None n in
      bind_go (if \<not> is_root \<and> length (edges n1) = 1 then join n1 else Ret n1) (\<lambda>n2.
      case leaf n of
        None \<Rightarrow> Panic NilDereference
      | Some l \<Rightarrow> Ret (n2, \<not> is_root \<and> length (edges n1) = 0, leafVal l)))"

text \<open>
  The loop of \<open>remove\<close> on a subtree. Its test reads \<open>searchLen\<close>, the length of the whole key, which the
  loop does not change: for a non-empty key the first branch is never taken.
\<close>

fun remove_loop :: "nat \<Rightarrow> bool \<Rightarrow> 'v Node \<Rightarrow> string \<Rightarrow> ('v Node \<times> bool \<times> 'v option) go" where
  "remove_loop searchLen is_root subTree query =
     (if searchLen = 0 then
        if \<not> isLeaf subTree then Ret (subTree, False, None)
        else bind_go (removeNode is_root subTree) (\<lambda>(n, del, v). Ret (n, del, Some v))
      else
        (case query of
           [] \<Rightarrow> Panic IndexOutOfRange
         | c # _ \<Rightarrow>
             (case getEdge c subTree of
                None \<Rightarrow> Ret (subTree, False, None)
              | Some m \<Rightarrow>
                  if \<not> HasPrefix query (node_prefix m) then Ret (subTree, False, None)
                  else
                    bind_go (remove_loop searchLen False m (drop (length (node_prefix m)) query)) (\<lambda>(m1, del, v).
                      let parent = put_child c m1 subTree in Ret (if del then delEdge c parent else parent, False, v)))))"

declare remove_loop.simps [simp del]

definition Tree_remove :: "string \<Rightarrow> 'v Tree \<Rightarrow> ('v Tree \<times> 'v option \<times> bool) go" where
  "Tree_remove s t =
     bind_go (remove_loop (length s) True (root t) s) (\<lambda>(n, _, v).
       Ret (t\<lparr>root := n, tree_size := (if v = None then tree_size t else tree_size t - 1)\<rparr>, v, v \<noteq> None))"

text \<open>
  \<open>removePrefix\<close> on a subtree: the subtree, how many leaves are removed, and whether this call was the one
  that removed them. In that case its caller's node, the \<open>parent\<close> of the code, may be merged.
\<close>

fun remove_prefix_loop :: "bool \<Rightarrow> 'v Node \<Rightarrow> string \<Rightarrow> ('v Node \<times> nat \<times> bool) go" where
  "remove_prefix_loop is_root n [] =
     bind_go (preorderWalk (Some (\<lambda>_ _. False)) n) (\<lambda>(_, vs). Ret (Node None (node_prefix n) [], length vs, True))"
| "remove_prefix_loop is_root n (c # pre) =
     (case getEdge c n of
        None \<Rightarrow> Ret (n, 0, False)
      | Some child \<Rightarrow>
          if \<not> HasPrefix (node_prefix child) (c # pre) \<and> \<not> HasPrefix (c # pre) (node_prefix child) then Ret (n, 0, False)
          else
            let childLen = length (node_prefix child); prefixLen = length (c # pre);
                prefix1 = (if childLen > prefixLen then drop prefixLen (c # pre) else drop childLen (c # pre))
            in bind_go (remove_prefix_loop False child prefix1) (\<lambda>(m, count, here).
               let n1 = put_child c m n in
               bind_go (if here \<and> \<not> is_root \<and> length (edges n1) = 1 \<and> \<not> isLeaf n1 then join n1 else Ret n1) (\<lambda>n2.
                 Ret (n2, count, False))))"

definition Tree_RemovePrefix :: "string \<Rightarrow> 'v Tree \<Rightarrow> ('v Tree \<times> int) go" where
  "Tree_RemovePrefix s t =
     bind_go (remove_prefix_loop True (root t) s) (\<lambda>(n, count, _).
       Ret (t\<lparr>root := n, tree_size := tree_size t - int count\<rparr>, int count))"

end
