(* ===== verification/Radix_Read.thy ===== *)
theory Radix_Read
  imports Radix
begin

text \<open>
  The reading operations of the radix tree on well-formed trees: the leaves in walking order are sorted by
  key, and every operation is determined by that list.
\<close>

section \<open>Well-formed trees and their leaves\<close>

lemma node_induct [case_names Node]:
  "(\<And>l p es. (\<And>c m. (c, m) \<in> set es \<Longrightarrow> P m) \<Longrightarrow> P (Node l p es)) \<Longrightarrow> P (n :: 'v Node)"
  by induction_schema (pat_completeness, lexicographic_order)

fun entries :: "'v Node \<Rightarrow> 'v leafNode list" where
  "entries (Node l p es) = (case l of None \<Rightarrow> [] | Some x \<Rightarrow> [x]) @ concat (map (\<lambda>e. entries (snd e)) es)"

text \<open>
  \<open>path\<close> is the string spelled by the edges from the root: a leaf holds it as its key, an edge has the
  first character of the prefix of its node, and the edges are sorted.
\<close>

fun node_wf :: "string \<Rightarrow> 'v Node \<Rightarrow> bool" where
  "node_wf path (Node l p es) \<longleftrightarrow>
     (case l of None \<Rightarrow> True | Some x \<Rightarrow> leafKey x = path) \<and> sorted_wrt (<) (map fst es) \<and>
     (\<forall>e \<in> set es. node_prefix (snd e) \<noteq> [] \<and> hd (node_prefix (snd e)) = fst e \<and>
        node_wf (path @ node_prefix (snd e)) (snd e))"

text \<open>No branch ends without a leaf.\<close>

fun node_full :: "'v Node \<Rightarrow> bool" where
  "node_full (Node l p es) \<longleftrightarrow>
     (\<forall>e \<in> set es. (leaf (snd e) \<noteq> None \<or> edges (snd e) \<noteq> []) \<and> node_full (snd e))"

lemma node_wf_ordered: "node_wf path n \<Longrightarrow> ordered n"
  by (cases n) (simp add: ordered_def)

lemma node_wf_leaf: "node_wf path n \<Longrightarrow> leaf n = Some x \<Longrightarrow> leafKey x = path"
  by (cases n) simp

lemma node_wf_child:
  "node_wf path n \<Longrightarrow> (c, m) \<in> set (edges n) \<Longrightarrow> \<exists>p. node_prefix m = c # p \<and> node_wf (path @ node_prefix m) m"
  by (cases n) (fastforce simp: neq_Nil_conv)

lemma set_entries: "set (entries n) = set_option (leaf n) \<union> (\<Union>(c, m) \<in> set (edges n). set (entries m))"
  by (cases n) (auto split: option.splits)

lemma leaf_entry: "leaf n = Some x \<Longrightarrow> x \<in> set (entries n)"
  by (simp add: set_entries [of n])

lemma entries_cases [consumes 2, case_names leaf child]:
  assumes "node_wf path n" "x \<in> set (entries n)"
  obtains "leaf n = Some x" "leafKey x = path"
  | c m where "(c, m) \<in> set (edges n)" "x \<in> set (entries m)"
  using assms by (auto simp: set_entries [of n] dest: node_wf_leaf)

lemma entries_path: "node_wf path n \<Longrightarrow> x \<in> set (entries n) \<Longrightarrow> prefix path (leafKey x)"
proof (induction n arbitrary: path rule: node_induct)
  case (Node l p es)
  from Node.prems show ?case
  proof (cases rule: entries_cases)
    case (child c m)
    then have "prefix (path @ node_prefix m) (leafKey x)"
      using Node.IH [of c m] Node.prems(1) by fastforce
    then show ?thesis by (rule append_prefixD)
  qed simp
qed

lemma child_key:
  assumes "node_wf path n" "(c, m) \<in> set (edges n)" "x \<in> set (entries m)"
  shows "\<exists>u. leafKey x = path @ c # u"
proof -
  from node_wf_child [OF assms(1,2)] obtain p where "node_prefix m = c # p" "node_wf (path @ node_prefix m) m" by blast
  then show ?thesis using entries_path [of "path @ node_prefix m" m x] assms(3) by (auto simp: prefix_def)
qed

section \<open>Lookup\<close>

lemma HasPrefix_prefix: "HasPrefix s p \<longleftrightarrow> prefix p s"
  by (metis HasPrefix_def append_eq_conv_conj append_take_drop_id prefix_def)

text \<open>A key that continues with \<open>c\<close> is below the edge \<open>c\<close>.\<close>

lemma entry_below:
  assumes "node_wf path n" "x \<in> set (entries n)" "leafKey x = path @ c # u"
  shows "\<exists>m. getEdge c n = Some m \<and> x \<in> set (entries m) \<and> prefix (node_prefix m) (c # u)"
  using assms(1,2)
proof (cases rule: entries_cases)
  case (child c' m)
  from child_key [OF assms(1) child] assms(3) have c: "c' = c" by auto
  from node_wf_child [OF assms(1) child(1)] have "prefix (path @ node_prefix m) (leafKey x)"
    using entries_path child(2) by blast
  then show ?thesis using assms(3) child c getEdge_iff [OF node_wf_ordered [OF assms(1)]] by auto
qed (use assms(3) in simp)

lemma lookup_loop_iff:
  "node_wf path n \<Longrightarrow> lookup_loop n q = Some v \<longleftrightarrow> (\<exists>x \<in> set (entries n). leafKey x = path @ q \<and> leafVal x = v)"
proof (induction n q arbitrary: path rule: lookup_loop.induct)
  case (1 n)
  have "leaf n = Some x" if "x \<in> set (entries n)" "leafKey x = path" for x
    using 1 that(1)
  proof (cases rule: entries_cases)
    case (child c m)
    then show ?thesis using child_key [OF 1] that(2) by fastforce
  qed
  moreover have "lookup_loop n [] = Some v \<longleftrightarrow> (\<exists>x. leaf n = Some x \<and> leafVal x = v)" by auto
  ultimately show ?case using node_wf_leaf [OF 1] leaf_entry [of n] by (metis append_Nil2)
next
  case (2 n c q)
  show ?case
  proof (cases "\<exists>m. getEdge c n = Some m \<and> prefix (node_prefix m) (c # q)")
    case True
    then obtain m w where m: "getEdge c n = Some m" "c # q = node_prefix m @ w" by (auto simp: prefix_def)
    then have pre: "HasPrefix (c # q) (node_prefix m)" by (simp add: HasPrefix_def)
    from node_wf_child [OF "2.prems" getEdge_in [OF m(1)]] have wf: "node_wf (path @ node_prefix m) m" by blast
    have w: "drop (length (node_prefix m)) (c # q) = w" using m(2) by simp
    then have "lookup_loop n (c # q) = lookup_loop m w" using m(1) pre by simp
    moreover have "lookup_loop m w = Some v \<longleftrightarrow> (\<exists>x \<in> set (entries m). leafKey x = path @ c # q \<and> leafVal x = v)"
      using "2.IH" [OF m(1) pre wf] w m(2) by simp
    moreover have "x \<in> set (entries m)" if "x \<in> set (entries n)" "leafKey x = path @ c # q" for x
      using entry_below [OF "2.prems" that] m(1) by simp
    moreover have "set (entries m) \<subseteq> set (entries n)" using getEdge_in [OF m(1)] set_entries [of n] by auto
    ultimately show ?thesis by auto
  next
    case False
    then have "lookup_loop n (c # q) = None" by (auto simp: HasPrefix_prefix split: option.splits)
    moreover have "\<not> (\<exists>x \<in> set (entries n). leafKey x = path @ c # q)"
      using entry_below [OF "2.prems"] False by blast
    ultimately show ?thesis by auto
  qed
qed

section \<open>Order\<close>

lemma append_less_append: "p @ u < p @ w \<longleftrightarrow> u < (w :: string)"
  by (induction p) simp_all

lemma sorted_concat:
  assumes "sorted_wrt (<) (map fst es)" "\<forall>e \<in> set es. sorted_wrt (<) (map leafKey (g e))"
    and "\<forall>e \<in> set es. \<forall>x \<in> set (g e). \<exists>u. leafKey x = path @ fst e # u"
  shows "sorted_wrt (<) (map leafKey (concat (map g es)))"
  using assms
proof (induction es)
  case (Cons e es)
  have "leafKey x < leafKey y" if *: "x \<in> set (g e)" "e' \<in> set es" "y \<in> set (g e')" for x e' y
  proof -
    have "\<exists>u. leafKey x = path @ fst e # u" "\<exists>w. leafKey y = path @ fst e' # w"
      using Cons.prems(3) * by simp_all
    then obtain u w where "leafKey x = path @ fst e # u" "leafKey y = path @ fst e' # w" by blast
    moreover have "fst e < fst e'" using Cons.prems(1) *(2) by simp
    ultimately show ?thesis by (simp add: append_less_append)
  qed
  then show ?case using Cons by (auto simp: sorted_wrt_append)
qed simp

lemma entries_sorted: "node_wf path n \<Longrightarrow> sorted_wrt (<) (map leafKey (entries n))"
proof (induction n arbitrary: path rule: node_induct)
  case (Node l p es)
  have "sorted_wrt (<) (map leafKey (concat (map (\<lambda>e. entries (snd e)) es)))"
  proof (rule sorted_concat)
    show "\<forall>e \<in> set es. \<forall>x \<in> set (entries (snd e)). \<exists>u. leafKey x = path @ fst e # u"
      using child_key [OF Node.prems] by fastforce
    show "\<forall>e \<in> set es. sorted_wrt (<) (map leafKey (entries (snd e)))"
      using Node.IH Node.prems by (metis node_wf.simps prod.collapse)
  qed (use Node.prems in simp)
  moreover have "path < leafKey x" if "x \<in> set (entries (snd e))" "e \<in> set es" for x e
  proof -
    have "\<exists>u. leafKey x = path @ fst e # u" using child_key [OF Node.prems, of "fst e" "snd e" x] that by simp
    then obtain u where "leafKey x = path @ fst e # u" ..
    then show ?thesis using append_less_append [of path "[]" "fst e # u"] by simp
  qed
  ultimately show ?case using Node.prems by (auto split: option.splits)
qed

lemma entries_distinct: "node_wf path n \<Longrightarrow> distinct (map leafKey (entries n))"
  using entries_sorted [of path n] by (simp add: strict_sorted_iff)

section \<open>Filters on the leaves\<close>

definition leaf_list :: "'v Node \<Rightarrow> 'v leafNode list" where
  "leaf_list n = (case leaf n of None \<Rightarrow> [] | Some x \<Rightarrow> [x])"

lemma entries_split: "entries n = leaf_list n @ concat (map (\<lambda>e. entries (snd e)) (edges n))"
  by (cases n) (simp add: leaf_list_def)

lemma set_leaf_list: "x \<in> set (leaf_list n) \<longleftrightarrow> leaf n = Some x"
  by (auto simp: leaf_list_def split: option.splits)

lemma getEdge_map_of: "ordered n \<Longrightarrow> getEdge c n = map_of (edges n) c"
proof -
  assume "ordered n"
  then show ?thesis
    by (intro option_eqI) (simp add: getEdge_iff, simp add: ordered_def strict_sorted_iff map_of_eq_Some_iff)
qed

lemma filter_concat_key:
  assumes "distinct (map fst es)" "\<forall>e \<in> set es. fst e \<noteq> c \<longrightarrow> filter P (g (snd e)) = []"
  shows "filter P (concat (map (\<lambda>e. g (snd e)) es)) = (case map_of es c of None \<Rightarrow> [] | Some m \<Rightarrow> filter P (g m))"
  using assms
proof (induction es)
  case (Cons e es)
  then show ?case by (cases "fst e = c") (auto simp: map_of_eq_None_iff [THEN iffD2] split: option.splits)
qed simp

text \<open>A predicate that selects no key that continues with another character than \<open>c\<close>.\<close>

lemma filter_entries:
  assumes "node_wf path n" "\<And>x d u. x \<in> set (entries n) \<Longrightarrow> P x \<Longrightarrow> leafKey x = path @ d # u \<Longrightarrow> d = c"
  shows "filter P (entries n) =
    filter P (leaf_list n) @ (case getEdge c n of None \<Rightarrow> [] | Some m \<Rightarrow> filter P (entries m))"
proof -
  have "filter P (entries (snd e)) = []" if e: "e \<in> set (edges n)" "fst e \<noteq> c" for e
  proof -
    have "\<not> P x" if "x \<in> set (entries (snd e))" for x
    proof -
      have "\<exists>u. leafKey x = path @ fst e # u" using child_key [OF assms(1), of "fst e" "snd e" x] e(1) that by simp
      moreover have "x \<in> set (entries n)" using that e(1) by (cases e) (auto simp: set_entries [of n])
      ultimately show ?thesis using assms(2) e(2) by blast
    qed
    then show ?thesis by (simp add: filter_empty_conv)
  qed
  then show ?thesis
    using node_wf_ordered [OF assms(1)]
    by (simp add: entries_split [of n] getEdge_map_of filter_concat_key [of _ c] ordered_def strict_sorted_iff)
qed

text \<open>Keys that are prefixes of \<open>path @ c # q\<close>: the leaf of the node and those below the edge \<open>c\<close>.\<close>

definition along :: "string \<Rightarrow> 'v Node \<Rightarrow> 'v leafNode list" where
  "along s n = filter (\<lambda>x. prefix (leafKey x) s) (entries n)"

lemma along_Nil: "node_wf path n \<Longrightarrow> along path n = leaf_list n"
proof -
  assume wf: "node_wf path n"
  have "along path n = filter (\<lambda>x. prefix (leafKey x) path) (leaf_list n) @ (case getEdge (CHR ''a'') n of None \<Rightarrow> []
      | Some m \<Rightarrow> filter (\<lambda>x. prefix (leafKey x) path) (entries m))"
    unfolding along_def by (rule filter_entries [OF wf]) auto
  moreover have "filter (\<lambda>x. prefix (leafKey x) path) (entries m) = []" if "getEdge c n = Some m" for c m
    using child_key [OF wf getEdge_in [OF that]] by (fastforce simp: filter_empty_conv)
  ultimately show ?thesis
    using node_wf_leaf [OF wf] by (auto simp: leaf_list_def split: option.splits)
qed

lemma along_Cons:
  assumes "node_wf path n"
  shows "along (path @ c # q) n = leaf_list n @
    (case getEdge c n of
       None \<Rightarrow> []
     | Some m \<Rightarrow> if HasPrefix (c # q) (node_prefix m)
         then along ((path @ node_prefix m) @ drop (length (node_prefix m)) (c # q)) m else [])"
proof -
  let ?P = "\<lambda>x. prefix (leafKey x) (path @ c # q)"
  have "along (path @ c # q) n = filter ?P (leaf_list n) @ (case getEdge c n of None \<Rightarrow> [] | Some m \<Rightarrow> filter ?P (entries m))"
    unfolding along_def by (rule filter_entries [OF assms]) auto
  moreover have "filter ?P (leaf_list n) = leaf_list n"
    using node_wf_leaf [OF assms] by (auto simp: leaf_list_def split: option.splits)
  moreover have "filter ?P (entries m) = (if HasPrefix (c # q) (node_prefix m)
      then along ((path @ node_prefix m) @ drop (length (node_prefix m)) (c # q)) m else [])"
    if m: "getEdge c n = Some m" for m
  proof -
    from node_wf_child [OF assms getEdge_in [OF m]] have wf: "node_wf (path @ node_prefix m) m" by blast
    show ?thesis
    proof (cases "HasPrefix (c # q) (node_prefix m)")
      case True
      then have "node_prefix m @ drop (length (node_prefix m)) (c # q) = c # q"
        unfolding HasPrefix_def by (metis append_take_drop_id)
      then show ?thesis using True by (simp add: along_def)
    next
      case False
      have "\<not> ?P x" if "x \<in> set (entries m)" for x
        using entries_path [OF wf that] False by (auto simp: HasPrefix_prefix dest: prefix_order.trans)
      then show ?thesis using False by (simp add: filter_empty_conv)
    qed
  qed
  ultimately show ?thesis by (simp split: option.splits)
qed

section \<open>Longest prefix\<close>

lemma longest_loop_along:
  "node_wf path n \<Longrightarrow> longest_loop n q acc = (if along (path @ q) n = [] then acc else Some (last (along (path @ q) n)))"
proof (induction n q acc arbitrary: path rule: longest_loop.induct)
  case (1 n q acc)
  show ?case
  proof (cases q)
    case Nil
    then show ?thesis
      using along_Nil [OF "1.prems"] by (auto simp: longest_loop.simps [of n] isLeaf_def leaf_list_def split: option.splits)
  next
    case (Cons c q')
    show ?thesis
    proof (cases "getEdge c n")
      case None
      then show ?thesis
        using along_Cons [OF "1.prems", of c q'] Cons
        by (auto simp: longest_loop.simps [of n] isLeaf_def leaf_list_def split: option.splits)
    next
      case (Some m)
      from node_wf_child [OF "1.prems" getEdge_in [OF Some]] have wf: "node_wf (path @ node_prefix m) m" by blast
      show ?thesis
        using along_Cons [OF "1.prems", of c q'] Cons Some "1.IH" [OF refl Cons Some _ wf]
        by (auto simp: longest_loop.simps [of n] isLeaf_def leaf_list_def split: option.splits)
    qed
  qed
qed

lemma strict_prefix_less: "strict_prefix b a \<Longrightarrow> b < (a :: string)"
proof -
  assume "strict_prefix b a"
  then obtain z zs where "a = b @ z # zs" by (rule strict_prefixE')
  then show ?thesis using append_less_append [of b "[]" "z # zs"] by simp
qed

lemma prefix_le_length: "a \<le> b \<Longrightarrow> prefix a s \<Longrightarrow> prefix b s \<Longrightarrow> length a \<le> length (b :: string)"
proof (rule ccontr)
  assume le: "a \<le> b" and pre: "prefix a s" "prefix b s" and "\<not> length a \<le> length b"
  then have "prefix b a" by (intro prefix_length_prefix [OF pre(2,1)]) simp
  then have "strict_prefix b a" using \<open>\<not> length a \<le> length b\<close> by (auto simp: strict_prefix_def)
  then have "b < a" by (rule strict_prefix_less)
  then show False using le by (simp add: leD)
qed

text \<open>The last of the sorted leaves along a string is the longest.\<close>

lemma last_along_longest:
  assumes "node_wf path n" "x \<in> set (along s n)"
  shows "length (leafKey x) \<le> length (leafKey (last (along s n)))"
proof -
  have "sorted_wrt (<) (map leafKey (along s n))"
    unfolding along_def using sorted_wrt_filter [OF entries_sorted [OF assms(1), unfolded sorted_wrt_map]]
    by (simp add: sorted_wrt_map)
  then have "leafKey x \<le> last (map leafKey (along s n))"
    using assms(2) by (intro le_last_sorted) (simp_all add: strict_sorted_iff)
  moreover have ne: "along s n \<noteq> []" using assms(2) by auto
  ultimately have "leafKey x \<le> leafKey (last (along s n))" by (simp add: last_map)
  moreover have "prefix (leafKey y) s" if "y \<in> set (along s n)" for y using that by (simp add: along_def)
  then have "prefix (leafKey x) s" "prefix (leafKey (last (along s n))) s"
    using assms(2) last_in_set [OF ne] by blast+
  ultimately show ?thesis by (rule prefix_le_length)
qed

section \<open>Walks\<close>

fun visited :: "(string \<Rightarrow> 'v \<Rightarrow> bool) \<Rightarrow> 'v leafNode list \<Rightarrow> 'v leafNode list" where
  "visited f [] = []"
| "visited f (x # xs) = x # (if f (leafKey x) (leafVal x) then [] else visited f xs)"

definition stops :: "(string \<Rightarrow> 'v \<Rightarrow> bool) \<Rightarrow> 'v leafNode list \<Rightarrow> bool" where
  "stops f xs \<longleftrightarrow> (\<exists>x \<in> set xs. f (leafKey x) (leafVal x))"

lemma visited_append: "visited f (xs @ ys) = visited f xs @ (if stops f xs then [] else visited f ys)"
  by (induction xs) (auto simp: stops_def)

lemma visited_all: "\<not> stops f xs \<Longrightarrow> visited f xs = xs"
  by (induction xs) (auto simp: stops_def)

lemma stops_append [simp]: "stops f (xs @ ys) \<longleftrightarrow> stops f xs \<or> stops f ys" "stops f [] \<longleftrightarrow> False"
  by (auto simp: stops_def)

lemma visit_Some: "visit (Some f) l = Ret (stops f (case l of None \<Rightarrow> [] | Some x \<Rightarrow> [x]), visited f (case l of None \<Rightarrow> [] | Some x \<Rightarrow> [x]))"
  by (auto simp: visit_def stops_def split: option.splits)

lemma preorderWalk_visits:
  "preorderWalk (Some f) n = Ret (stops f (entries n), visited f (entries n))"
  "walk_edges (Some f) es = Ret (stops f (concat (map (\<lambda>e. entries (snd e)) es)), visited f (concat (map (\<lambda>e. entries (snd e)) es)))"
proof (induction "Some f" n and "Some f" es rule: preorderWalk_walk_edges.induct)
  case (1 l pre es)
  then show ?case by (simp add: visit_Some visited_append)
qed (simp_all add: visited_append)

lemma walk_prefix_visits:
  "node_wf path n \<Longrightarrow> walk_prefix_loop (Some f) n q = Ret (visited f (filter (\<lambda>x. prefix (path @ q) (leafKey x)) (entries n)))"
proof (induction "Some f" n q arbitrary: path rule: walk_prefix_loop.induct)
  case (1 n)
  then have "filter (\<lambda>x. prefix path (leafKey x)) (entries n) = entries n"
    using entries_path by (fastforce simp: filter_id_conv)
  then show ?case by (simp add: preorderWalk_visits)
next
  case (2 n c q)
  let ?P = "\<lambda>x. prefix (path @ c # q) (leafKey x)"
  have "filter ?P (entries n) = filter ?P (leaf_list n) @ (case getEdge c n of None \<Rightarrow> [] | Some m \<Rightarrow> filter ?P (entries m))"
    by (rule filter_entries [OF "2.prems"]) auto
  moreover have "filter ?P (leaf_list n) = []"
    using node_wf_leaf [OF "2.prems"] by (auto simp: leaf_list_def split: option.splits)
  ultimately have split: "filter ?P (entries n) = (case getEdge c n of None \<Rightarrow> [] | Some m \<Rightarrow> filter ?P (entries m))" by simp
  show ?case
  proof (cases "getEdge c n")
    case (Some m)
    from node_wf_child [OF "2.prems" getEdge_in [OF Some]] have wf: "node_wf (path @ node_prefix m) m" by blast
    consider (down) "HasPrefix (c # q) (node_prefix m)"
      | (inside) "\<not> HasPrefix (c # q) (node_prefix m)" "HasPrefix (node_prefix m) (c # q)"
      | (apart) "\<not> HasPrefix (c # q) (node_prefix m)" "\<not> HasPrefix (node_prefix m) (c # q)" by blast
    then show ?thesis
    proof cases
      case down
      then have "node_prefix m @ drop (length (node_prefix m)) (c # q) = c # q"
        unfolding HasPrefix_def by (metis append_take_drop_id)
      then show ?thesis using "2.hyps" [OF Some down wf] Some down split by simp
    next
      case inside
      have "?P x" if "x \<in> set (entries m)" for x
        using entries_path [OF wf that] inside(2) by (metis HasPrefix_prefix prefix_order.trans same_prefix_prefix)
      then have "filter ?P (entries m) = entries m" by (simp add: filter_id_conv)
      then show ?thesis using inside Some split by (simp add: preorderWalk_visits)
    next
      case apart
      have "\<not> ?P x" if "x \<in> set (entries m)" for x
        using entries_path [OF wf that] apart prefix_same_cases [of "path @ c # q" "leafKey x" "path @ node_prefix m"]
        by (auto simp: HasPrefix_prefix)
      then have "filter ?P (entries m) = []" by (simp add: filter_empty_conv)
      then show ?thesis using apart Some split by simp
    qed
  qed (simp add: split)
qed

lemma path_loop_visits: "node_wf path n \<Longrightarrow> path_loop (Some f) n q = Ret (visited f (along (path @ q) n))"
proof (induction "Some f" n q arbitrary: path rule: path_loop.induct)
  case (1 n q)
  note unfold = path_loop.simps [of "Some f" n] visit_Some leaf_list_def [symmetric]
  show ?case
  proof (cases q)
    case Nil
    then show ?thesis using along_Nil [OF "1.prems"] by (simp add: unfold)
  next
    case (Cons c q')
    show ?thesis
    proof (cases "getEdge c n")
      case None
      then show ?thesis using along_Cons [OF "1.prems", of c q'] Cons by (simp add: unfold)
    next
      case (Some m)
      from node_wf_child [OF "1.prems" getEdge_in [OF Some]] have wf: "node_wf (path @ node_prefix m) m" by blast
      show ?thesis
        using along_Cons [OF "1.prems", of c q'] Cons Some "1.hyps" [OF _ Cons Some _ wf]
        by (simp add: unfold visited_append)
    qed
  qed
qed

section \<open>Minimum and maximum\<close>

lemma min_loop_first: "node_full n \<Longrightarrow> leaf n \<noteq> None \<or> edges n \<noteq> [] \<Longrightarrow> entries n \<noteq> [] \<and> min_loop n = Some (hd (entries n))"
proof (induction n rule: node_induct)
  case (Node l p es)
  then show ?case by (cases es) (fastforce split: option.splits)+
qed

lemma max_loop_last: "node_full n \<Longrightarrow> leaf n \<noteq> None \<or> edges n \<noteq> [] \<Longrightarrow> entries n \<noteq> [] \<and> max_loop n = Some (last (entries n))"
proof (induction n rule: node_induct)
  case (Node l p es)
  then show ?case by (cases es rule: rev_cases) (fastforce split: option.splits)+
qed

end
