(* ===== verification/Radix_Write.thy ===== *)
theory Radix_Write
  imports Radix_Read
begin

text \<open>
  The writing operations of the radix tree on well-formed trees: what \<open>Insert\<close>, \<open>remove\<close> and
  \<open>RemovePrefix\<close> do to the leaves and to the size, and where they panic.
\<close>

section \<open>Replacing a child\<close>

lemma labels_put_child [simp]:
  assumes "getEdge c n = Some m"
  shows "labels (put_child c m' n) = labels n"
proof -
  from getEdge_nth [OF assms] have "labels n ! edge_index c n = c" "edge_index c n < length (labels n)" by simp_all
  then show ?thesis by (simp add: put_child_def set_edges_def map_update list_update_same_conv)
qed

lemma put_child_simps [simp]:
  "leaf (put_child c m n) = leaf n" "node_prefix (put_child c m n) = node_prefix n"
  by (simp_all add: put_child_def set_edges_def)

lemma Node_update_child: "getEdge c n = Some m \<Longrightarrow> Node_update c m' n = Ret (put_child c m' n)"
  using getEdge_nth [of c n m] by (simp add: Node_update_def put_child_def go_index_def Let_def)

text \<open>The leaves of a node around those of one child.\<close>

lemma put_child_around:
  assumes wf: "node_wf path n" and m: "getEdge c n = Some m"
  obtains A B where "entries n = A @ entries m @ B" "\<And>m'. entries (put_child c m' n) = A @ entries m' @ B"
    "\<And>x u. x \<in> set (A @ B) \<Longrightarrow> leafKey x \<noteq> path @ c # u"
proof -
  let ?i = "edge_index c n" and ?g = "\<lambda>e. entries (snd e)"
  let ?xs = "take ?i (edges n)" and ?ys = "drop (Suc ?i) (edges n)"
  from getEdge_nth [OF m] have i: "?i < length (edges n)" "edges n ! ?i = (c, m)" by simp_all
  then have es: "edges n = ?xs @ (c, m) # ?ys" by (metis id_take_nth_drop)
  have es': "edges (put_child c m' n) = ?xs @ (c, m') # ?ys" for m'
    using i(1) by (simp add: put_child_def set_edges_def upd_conv_take_nth_drop)
  have "distinct (labels n)" using node_wf_ordered [OF wf] by (simp add: ordered_def strict_sorted_iff)
  then have "c \<notin> fst ` set (?xs @ ?ys)" by (subst (asm) es) auto
  moreover have "set (?xs @ ?ys) \<subseteq> set (edges n)" using set_take_subset set_drop_subset by fastforce
  ultimately have other: "leafKey x \<noteq> path @ c # u" if "e \<in> set (?xs @ ?ys)" "x \<in> set (?g e)" for e x u
    using child_key [OF wf, of "fst e" "snd e" x] that by (metis imageI list.inject prod.collapse same_append_eq subsetD)
  have lead: "leafKey x \<noteq> path @ c # u" if "x \<in> set (leaf_list n)" for x u
    using node_wf_leaf [OF wf] that by (auto simp: set_leaf_list)
  show ?thesis
  proof (rule that)
    show "entries n = (leaf_list n @ concat (map ?g ?xs)) @ entries m @ concat (map ?g ?ys)"
      by (subst entries_split, subst es) simp
    show "entries (put_child c m' n) = (leaf_list n @ concat (map ?g ?xs)) @ entries m' @ concat (map ?g ?ys)" for m'
      by (subst entries_split, subst es') (simp add: leaf_list_def)
    show "leafKey x \<noteq> path @ c # u" if "x \<in> set ((leaf_list n @ concat (map ?g ?xs)) @ concat (map ?g ?ys))" for x u
    proof -
      from that consider "x \<in> set (leaf_list n)" | e where "e \<in> set (?xs @ ?ys)" "x \<in> set (?g e)" by auto
      then show ?thesis using lead other by cases blast+
    qed
  qed
qed

lemma node_wf_put_child:
  assumes wf: "node_wf path n" and m: "getEdge c n = Some m"
    and m': "node_prefix m' = c # p" "node_wf (path @ node_prefix m') m'"
  shows "node_wf path (put_child c m' n)"
proof -
  obtain l pre es where n: "n = Node l pre es" by (cases n)
  let ?i = "edge_index c n"
  have put: "put_child c m' n = Node l pre (es[?i := (c, m')])" by (simp add: n put_child_def set_edges_def)
  have "sorted_wrt (<) (map fst (es[?i := (c, m')]))"
    using labels_put_child [OF m, of m'] wf put by (simp add: n)
  moreover have "node_prefix (snd e) \<noteq> [] \<and> hd (node_prefix (snd e)) = fst e \<and> node_wf (path @ node_prefix (snd e)) (snd e)"
    if "e \<in> set (es[?i := (c, m')])" for e
    using set_update_subset_insert [of es ?i "(c, m')"] that wf m' by (auto simp: n)
  ultimately show ?thesis using wf unfolding put by (simp add: n)
qed

section \<open>Insert\<close>

lemma longestMatch_spec:
  "longestMatch q p \<le> length q \<and> longestMatch q p \<le> length p \<and> take (longestMatch q p) q = take (longestMatch q p) p \<and>
   (longestMatch q p < length q \<longrightarrow> longestMatch q p < length p \<longrightarrow> q ! longestMatch q p \<noteq> p ! longestMatch q p)"
  by (induction q p rule: longestMatch.induct) auto

lemma longestMatch_whole: "longestMatch q p = length p \<longleftrightarrow> HasPrefix q p"
  using longestMatch_spec [of q p] unfolding HasPrefix_def
  by (metis append_take_drop_id nth_append order_le_imp_less_or_eq order_refl take_all_iff nth_take)

text \<open>The key leads to a node that has no edge for its next character.\<close>

fun missing_edge :: "'v Node \<Rightarrow> string \<Rightarrow> bool" where
  "missing_edge n [] \<longleftrightarrow> False"
| "missing_edge n (c # q) \<longleftrightarrow>
     (case getEdge c n of
        None \<Rightarrow> True
      | Some m \<Rightarrow> HasPrefix (c # q) (node_prefix m) \<and> missing_edge m (drop (length (node_prefix m)) (c # q)))"

lemma insert_loop_outcome:
  "s \<noteq> [] \<or> q = [] \<Longrightarrow>
   (if missing_edge n q then insert_loop s v n q = Panic NilDereference else \<exists>res. insert_loop s v n q = Ret res)"
proof (induction s v n q rule: insert_loop.induct)
  case (2 s v n c q)
  show ?case
  proof (cases "getEdge c n")
    case None
    then show ?thesis using "2.prems" by (simp add: addNode_def go_index_def)
  next
    case (Some m)
    show ?thesis
    proof (cases "HasPrefix (c # q) (node_prefix m)")
      case True
      then have common: "longestMatch (c # q) (node_prefix m) = length (node_prefix m)" by (simp add: longestMatch_whole)
      then show ?thesis
        using "2.IH" [OF Some refl common] "2.prems" Some True by (auto simp: Let_def split: if_splits)
    next
      case False
      then show ?thesis
        using Some longestMatch_whole [of "c # q" "node_prefix m"] by (simp add: Let_def Node_update_child)
    qed
  qed
qed (simp split: option.splits)

lemma node_wf_set_prefix [simp]: "node_wf path (set_prefix p n) = node_wf path n" "entries (set_prefix p n) = entries n"
  by (cases n; simp add: set_prefix_def)+

lemma set_prefix_simps [simp]:
  "node_prefix (set_prefix p n) = p" "leaf (set_prefix p n) = leaf n" "edges (set_prefix p n) = edges n"
  by (simp_all add: set_prefix_def)

text \<open>A node split for a key that leaves its prefix.\<close>

lemma split_node_spec:
  fixes path c q m s v
  defines "k \<equiv> longestMatch (c # q) (node_prefix m)"
  defines "ch \<equiv> split_node s v (c # q) k m"
  assumes p: "node_prefix m = c # p" and wf: "node_wf (path @ node_prefix m) m"
    and k: "k \<noteq> length (node_prefix m)" and s: "s = path @ c # q"
  shows "\<exists>p'. node_prefix ch = c # p'" "node_wf (path @ node_prefix ch) ch"
    "set (entries ch) = insert \<lparr>leafKey = s, leafVal = v\<rparr> (set (entries m))"
    "length (entries ch) = Suc (length (entries m))"
proof -
  let ?lf = "\<lparr>leafKey = s, leafVal = v\<rparr>" and ?pm = "node_prefix m" and ?q = "c # q"
  let ?m = "set_prefix (drop k ?pm) m"
  have lm: "k \<le> length ?q" "k < length ?pm" "take k ?q = take k ?pm" "k < length ?q \<Longrightarrow> ?q ! k \<noteq> ?pm ! k"
    using longestMatch_spec [of ?q ?pm] k by (auto simp: k_def)
  have "0 < k" using p by (simp add: k_def)
  then have pre: "\<exists>p'. take k ?q = c # p'" by (cases k) auto
  have pm: "take k ?q @ drop k ?pm = ?pm" unfolding lm(3) by simp
  have hd_pm: "drop k ?pm = ?pm ! k # drop (Suc k) ?pm" using lm(2) by (simp add: Cons_nth_drop_Suc)
  have m2: "node_wf ((path @ take k ?q) @ drop k ?pm) ?m" using wf pm by simp
  have "(\<exists>p'. node_prefix ch = c # p') \<and> node_wf (path @ node_prefix ch) ch \<and>
      set (entries ch) = insert ?lf (set (entries m)) \<and> length (entries ch) = Suc (length (entries m))"
  proof (cases "drop k ?q")
    case Nil
    then have ch: "ch = Node (Some ?lf) (take k ?q) [(?pm ! k, ?m)]" and "take k ?q = ?q"
      by (simp_all add: ch_def split_node_def Let_def Node_add_def edges_Sort_def set_edges_def set_leaf_def)
    then show ?thesis using pre m2 hd_pm s by simp
  next
    case (Cons d r)
    then have "k < length ?q" using lm(1) by (metis drop_all leI list.distinct(1))
    then have "d \<noteq> ?pm ! k" using lm(4) Cons by (metis hd_drop_conv_nth list.sel(1))
    moreover have "s = (path @ take k ?q) @ d # r" using s Cons append_take_drop_id [of k ?q] by simp
    moreover have "ch = Node None (take k ?q) (sort_key fst [(?pm ! k, ?m), (d, Node (Some ?lf) (d # r) [])])"
      using Cons by (simp add: ch_def split_node_def Let_def Node_add_def edges_Sort_def set_edges_def)
    ultimately show ?thesis using pre m2 hd_pm by auto
  qed
  then show "\<exists>p'. node_prefix ch = c # p'" "node_wf (path @ node_prefix ch) ch"
    "set (entries ch) = insert ?lf (set (entries m))" "length (entries ch) = Suc (length (entries m))" by blast+
qed

text \<open>What \<open>Insert\<close> does to the leaves of a subtree.\<close>

definition inserted :: "string \<Rightarrow> 'v \<Rightarrow> 'v Node \<Rightarrow> 'v Node \<Rightarrow> int \<Rightarrow> bool" where
  "inserted s v n n' d \<longleftrightarrow>
     set (entries n') = insert \<lparr>leafKey = s, leafVal = v\<rparr> {x \<in> set (entries n). leafKey x \<noteq> s} \<and>
     int (length (entries n')) = int (length (entries n)) + d"

lemma inserted_put_child:
  assumes wf: "node_wf path n" and m: "getEdge c n = Some m" and s: "s = path @ c # q" and ins: "inserted s v m m' d"
  shows "inserted s v n (put_child c m' n) d"
proof -
  from put_child_around [OF wf m] obtain A B where AB: "entries n = A @ entries m @ B"
    "entries (put_child c m' n) = A @ entries m' @ B" "\<And>x u. x \<in> set (A @ B) \<Longrightarrow> leafKey x \<noteq> path @ c # u" by metis
  then have "\<forall>x \<in> set A \<union> set B. leafKey x \<noteq> s" using s by auto
  then show ?thesis using ins unfolding inserted_def AB(1,2) by auto
qed

lemma update_leaf: "x\<lparr>leafVal := v\<rparr> = \<lparr>leafKey = leafKey x, leafVal = v\<rparr>" for x :: "'v leafNode"
  by simp

lemma insert_loop_spec:
  assumes "node_wf path n" "s = path @ q" "insert_loop s v n q = Ret (n', old, d)"
  shows "node_prefix n' = node_prefix n \<and> node_wf path n' \<and> old = lookup_loop n q \<and>
    d = (if old = None then 1 else 0) \<and> inserted s v n n' d"
  using assms
proof (induction s v n q arbitrary: path n' rule: insert_loop.induct)
  case (1 s v n)
  obtain l p es where n: "n = Node l p es" by (cases n)
  define C where "C = concat (map (\<lambda>e. entries (snd e)) es)"
  have C: "entries (Node l' p es) = (case l' of None \<Rightarrow> [] | Some x \<Rightarrow> [x]) @ C" for l' by (simp add: C_def)
  have "\<forall>x \<in> set C. leafKey x \<noteq> path"
    using child_key [OF "1.prems"(1)] by (fastforce simp: n C_def)
  then show ?case
    using 1 by (cases l) (auto simp: n set_leaf_def inserted_def C update_leaf simp del: entries.simps)
next
  case (2 s v n c q)
  note wf = "2.prems"(1) and s = "2.prems"(2)
  from "2.prems"(3) obtain m where m: "getEdge c n = Some m"
    by (cases "getEdge c n") (simp_all add: addNode_def go_index_def bind_go_Ret_iff split: if_splits)
  from node_wf_child [OF wf getEdge_in [OF m]] obtain p where
    p: "node_prefix m = c # p" and wfm: "node_wf (path @ node_prefix m) m" by blast
  let ?k = "longestMatch (c # q) (node_prefix m)"
  show ?case
  proof (cases "?k = length (node_prefix m)")
    case True
    then have pre: "HasPrefix (c # q) (node_prefix m)" by (simp add: longestMatch_whole)
    then have q: "c # q = node_prefix m @ drop ?k (c # q)" unfolding True HasPrefix_def by (metis append_take_drop_id)
    from "2.prems"(3) m True obtain m' where m': "insert_loop s v m (drop ?k (c # q)) = Ret (m', old, d)"
      "n' = put_child c m' n" by (auto simp: bind_go_Ret_iff Let_def)
    have "s = (path @ node_prefix m) @ drop ?k (c # q)" using s q by simp
    note IH = "2.IH" [OF m refl True wfm this m'(1)]
    have look: "lookup_loop n (c # q) = lookup_loop m (drop ?k (c # q))" using m pre True by simp
    have "inserted s v n n' d" using inserted_put_child [OF wf m s] IH m'(2) by blast
    moreover have "node_wf path n'" using node_wf_put_child [OF wf m, of m' p] IH p m'(2) by simp
    ultimately show ?thesis unfolding look using IH m'(2) by simp
  next
    case False
    let ?ch = "split_node s v (c # q) ?k m"
    note ch = split_node_spec [OF p wfm False s, of v]
    from "2.prems"(3) m False have n': "n' = put_child c ?ch n" and od: "old = None" "d = 1"
      by (auto simp: Let_def Node_update_child bind_go_Ret_iff)
    have look: "lookup_loop n (c # q) = None" using m False by (simp add: longestMatch_whole)
    have "leafKey x \<noteq> s" if "x \<in> set (entries m)" for x
      using entries_path [OF wfm that] False s by (auto simp: longestMatch_whole HasPrefix_prefix)
    then have "inserted s v m ?ch 1" using ch(3,4) by (auto simp: inserted_def)
    then show ?thesis
      using ch(1,2) node_wf_put_child [OF wf m] inserted_put_child [OF wf m s] n' od look by auto
  qed
qed

section \<open>remove\<close>

text \<open>For a non-empty key the loop either reports the key as absent or runs past its end.\<close>

lemma remove_loop_nonempty:
  assumes "len \<noteq> 0" "node_wf path n"
  shows "remove_loop len is_root n q = Panic IndexOutOfRange \<or>
    (remove_loop len is_root n q = Ret (n, False, None) \<and> lookup_loop n q = None)"
  using assms
proof (induction len is_root n q arbitrary: path rule: remove_loop.induct)
  case (1 len is_root n q)
  note step = remove_loop.simps [of len is_root n]
  show ?case
  proof (cases q)
    case Nil
    then show ?thesis using 1 by (simp add: step)
  next
    case (Cons c q')
    show ?thesis
    proof (cases "\<exists>m. getEdge c n = Some m \<and> HasPrefix q (node_prefix m)")
      case True
      then obtain m where m: "getEdge c n = Some m" "HasPrefix q (node_prefix m)" by blast
      from node_wf_child [OF "1.prems"(2) getEdge_in [OF m(1)]] have wf: "node_wf (path @ node_prefix m) m" by blast
      have "put_child c m n = n"
        using getEdge_nth [OF m(1)] by (cases n) (simp add: put_child_def set_edges_def list_update_same_conv)
      then show ?thesis
        using "1.IH" [OF _ Cons m(1) _ _ wf] "1.prems"(1) m Cons by (auto simp: step)
    next
      case False
      then show ?thesis using "1.prems"(1) Cons by (auto simp: step split: option.splits)
    qed
  qed
qed

section \<open>RemovePrefix\<close>

definition removed :: "string \<Rightarrow> 'v Node \<Rightarrow> 'v Node \<Rightarrow> nat \<Rightarrow> bool" where
  "removed pre n n' k \<longleftrightarrow>
     entries n' = filter (\<lambda>x. \<not> prefix pre (leafKey x)) (entries n) \<and>
     k = length (filter (\<lambda>x. prefix pre (leafKey x)) (entries n))"

lemma removed_none: "(\<And>x. x \<in> set (entries n) \<Longrightarrow> \<not> prefix pre (leafKey x)) \<Longrightarrow> removed pre n n 0"
  by (simp add: removed_def filter_id_conv filter_empty_conv)

lemma removed_put_child:
  assumes wf: "node_wf path n" and m: "getEdge c n = Some m" and rem: "removed (path @ c # q) m m' k"
  shows "removed (path @ c # q) n (put_child c m' n) k"
proof -
  let ?P = "\<lambda>x. prefix (path @ c # q) (leafKey x)"
  from put_child_around [OF wf m] obtain A B where AB: "entries n = A @ entries m @ B"
    "entries (put_child c m' n) = A @ entries m' @ B" "\<And>x u. x \<in> set (A @ B) \<Longrightarrow> leafKey x \<noteq> path @ c # u" by metis
  have "\<not> ?P x" if "x \<in> set A \<union> set B" for x
    using AB(3) [of x] that by (auto simp: prefix_def)
  then have "filter ?P A = []" "filter ?P B = []" "filter (\<lambda>x. \<not> ?P x) A = A" "filter (\<lambda>x. \<not> ?P x) B = B"
    by (simp_all add: filter_empty_conv filter_id_conv)
  then show ?thesis using rem unfolding removed_def AB(1,2) by simp
qed

text \<open>Merging a node with its only child keeps the leaves.\<close>

lemma join_single:
  assumes "node_wf path n" "length (edges n) = 1" "\<not> isLeaf n"
  obtains m x where "join n = Ret m" "node_prefix m = node_prefix n @ x" "node_wf (path @ x) m" "entries m = entries n"
proof -
  from assms(2) obtain c e where es: "edges n = [(c, e)]" by (metis One_nat_def length_0_conv length_Suc_conv surj_pair)
  let ?m = "Node (leaf e) (node_prefix n @ node_prefix e) (edges e)"
  have m: "?m = set_prefix (node_prefix n @ node_prefix e) e" by (simp add: set_prefix_def)
  show ?thesis
  proof (rule that [of ?m "node_prefix e"])
    show "join n = Ret ?m" using es by (simp add: join_def go_index_def)
    show "node_wf (path @ node_prefix e) ?m" using node_wf_child [OF assms(1), of c e] es unfolding m by auto
    show "entries ?m = entries n"
      using es assms(3) unfolding m by (simp add: entries_split [of n] leaf_list_def isLeaf_def)
  qed simp
qed

lemma removed_absent:
  assumes wf: "node_wf path n"
    and no: "\<not> (\<exists>m. getEdge c n = Some m \<and> (HasPrefix (node_prefix m) (c # q) \<or> HasPrefix (c # q) (node_prefix m)))"
  shows "removed (path @ c # q) n n 0"
proof (rule removed_none, rule notI)
  fix x assume x: "x \<in> set (entries n)" and "prefix (path @ c # q) (leafKey x)"
  then obtain u where key: "leafKey x = path @ c # (q @ u)" by (auto simp: prefix_def)
  from entry_below [OF wf x key] no show False
    by (metis HasPrefix_prefix append_Cons prefixI prefix_same_cases)
qed

lemma removed_below:
  fixes path q m
  defines "r \<equiv> if length (node_prefix m) > length q then drop (length q) q else drop (length (node_prefix m)) q"
  assumes wf: "node_wf (path @ node_prefix m) m" and either: "HasPrefix (node_prefix m) q \<or> HasPrefix q (node_prefix m)"
    and rem: "removed ((path @ node_prefix m) @ r) m m' k"
  shows "removed (path @ q) m m' k"
proof (cases "HasPrefix q (node_prefix m)")
  case True
  then have "node_prefix m @ drop (length (node_prefix m)) q = q" unfolding HasPrefix_def by (metis append_take_drop_id)
  moreover have "\<not> length (node_prefix m) > length q" using True by (auto simp: HasPrefix_prefix dest: prefix_length_le)
  ultimately show ?thesis using rem by (simp add: r_def)
next
  case False
  then have sub: "prefix q (node_prefix m)" using either by (simp add: HasPrefix_prefix)
  then have "r = []" using prefix_length_le [OF sub] by (simp add: r_def)
  moreover have "prefix (path @ q) (leafKey x) \<and> prefix (path @ node_prefix m) (leafKey x)" if "x \<in> set (entries m)" for x
    using entries_path [OF wf that] sub by (metis prefix_order.trans same_prefix_prefix)
  ultimately show ?thesis using rem by (simp add: removed_def filter_id_conv filter_empty_conv)
qed

lemma remove_prefix_spec:
  "node_wf path n \<Longrightarrow> \<exists>n' k here x. remove_prefix_loop is_root n q = Ret (n', k, here) \<and>
     node_prefix n' = node_prefix n @ x \<and> node_wf (path @ x) n' \<and> (is_root \<longrightarrow> x = []) \<and> removed (path @ q) n n' k"
proof (induction is_root n q arbitrary: path rule: remove_prefix_loop.induct)
  case (1 is_root n)
  have "stops (\<lambda>_ _. False) (entries n) = False" by (simp add: stops_def)
  then have "visited (\<lambda>_ _. False) (entries n) = entries n" using visited_all by blast
  moreover have "removed path n (Node None (node_prefix n) []) (length (entries n))"
    using entries_path [OF 1] by (simp add: removed_def filter_id_conv filter_empty_conv)
  ultimately show ?case by (auto simp: preorderWalk_visits)
next
  case (2 is_root n c q)
  let ?q = "c # q"
  show ?case
  proof (cases "\<exists>m. getEdge c n = Some m \<and> (HasPrefix (node_prefix m) ?q \<or> HasPrefix ?q (node_prefix m))")
    case False
    then have "removed (path @ ?q) n n 0" by (rule removed_absent [OF "2.prems"])
    moreover have "remove_prefix_loop is_root n ?q = Ret (n, 0, False)" using False by (auto split: option.splits)
    ultimately show ?thesis using "2.prems" by auto
  next
    case True
    then obtain m where m: "getEdge c n = Some m" "HasPrefix (node_prefix m) ?q \<or> HasPrefix ?q (node_prefix m)" by blast
    from node_wf_child [OF "2.prems" getEdge_in [OF m(1)]] obtain p where
      p: "node_prefix m = c # p" and wf: "node_wf (path @ node_prefix m) m" by blast
    let ?r = "if length (node_prefix m) > length ?q then drop (length ?q) ?q else drop (length (node_prefix m)) ?q"
    have cond: "\<not> (\<not> HasPrefix (node_prefix m) ?q \<and> \<not> HasPrefix ?q (node_prefix m))" using m(2) by blast
    from "2.IH" [OF m(1) cond refl refl refl wf] obtain m' k here x where
      m': "remove_prefix_loop False m ?r = Ret (m', k, here)" "node_prefix m' = node_prefix m @ x"
      "node_wf ((path @ node_prefix m) @ x) m'" "removed ((path @ node_prefix m) @ ?r) m m' k" by blast
    have rem: "removed (path @ ?q) m m' k" by (rule removed_below [OF wf m(2) m'(4)])
    let ?n1 = "put_child c m' n"
    have wf1: "node_wf path ?n1" using node_wf_put_child [OF "2.prems" m(1), of m' "p @ x"] m'(2,3) p by simp
    have rem1: "removed (path @ ?q) n ?n1 k" by (rule removed_put_child [OF "2.prems" m(1) rem])
    have loop: "remove_prefix_loop is_root n ?q =
        bind_go (if here \<and> \<not> is_root \<and> length (edges ?n1) = 1 \<and> \<not> isLeaf ?n1 then join ?n1 else Ret ?n1) (\<lambda>n2. Ret (n2, k, False))"
      by (simp only: remove_prefix_loop.simps(2) m(1) option.case cond if_False Let_def m'(1) bind_go_simps prod.case)
    show ?thesis
    proof (cases "here \<and> \<not> is_root \<and> length (edges ?n1) = 1 \<and> \<not> isLeaf ?n1")
      case True
      then obtain n2 y where "join ?n1 = Ret n2" "node_prefix n2 = node_prefix ?n1 @ y" "node_wf (path @ y) n2"
        "entries n2 = entries ?n1" using join_single [OF wf1] by blast
      then show ?thesis using loop True rem1 by (auto simp: removed_def)
    next
      case False
      then have "remove_prefix_loop is_root n ?q = Ret (?n1, k, False)" using loop by (simp only: if_False bind_go_simps)
      then show ?thesis using wf1 rem1 by auto
    qed
  qed
qed

end
