(* ===== verification/Radix_Tree.thy ===== *)
theory Radix_Tree
  imports Radix_Write
begin

text \<open>
  The radix tree as a map from strings: the contract of \<open>Insert\<close> and \<open>lookup\<close> as a locale, its
  interpretation on the tree, and the trees the package can build.
\<close>

section \<open>The tree as a map\<close>

definition tree_wf :: "'v Tree \<Rightarrow> bool" where
  "tree_wf t \<longleftrightarrow> node_wf [] (root t) \<and> tree_size t = int (length (entries (root t)))"

definition contents :: "'v Tree \<Rightarrow> string \<Rightarrow> 'v option" where
  "contents t = map_of (map (\<lambda>x. (leafKey x, leafVal x)) (entries (root t)))"

lemma leaf_eta [simp]: "\<lparr>leafKey = leafKey x, leafVal = leafVal x\<rparr> = x" for x :: "'v leafNode"
  by simp

lemma contents_iff:
  "tree_wf t \<Longrightarrow> contents t k = Some v \<longleftrightarrow> \<lparr>leafKey = k, leafVal = v\<rparr> \<in> set (entries (root t))"
proof -
  assume "tree_wf t"
  then have "distinct (map fst (map (\<lambda>x. (leafKey x, leafVal x)) (entries (root t))))"
    using entries_distinct [of "[]" "root t"] by (simp add: tree_wf_def comp_def)
  then have "contents t k = Some v \<longleftrightarrow> (k, v) \<in> (\<lambda>x. (leafKey x, leafVal x)) ` set (entries (root t))"
    unfolding contents_def by (simp only: map_of_eq_Some_iff set_map)
  also have "\<dots> \<longleftrightarrow> \<lparr>leafKey = k, leafVal = v\<rparr> \<in> set (entries (root t))"
    by (auto intro!: rev_image_eqI)
  finally show ?thesis .
qed

lemma contents_entry: "tree_wf t \<Longrightarrow> x \<in> set (entries (root t)) \<Longrightarrow> contents t (leafKey x) = Some (leafVal x)"
  by (simp add: contents_iff)

lemma lookup_contents: "tree_wf t \<Longrightarrow> Tree_lookup s t = contents t s"
proof (rule option_eqI)
  fix v assume wf: "tree_wf t"
  have "Tree_lookup s t = Some v \<longleftrightarrow> (\<exists>x \<in> set (entries (root t)). leafKey x = s \<and> leafVal x = v)"
    using lookup_loop_iff [of "[]" "root t" s v] wf by (simp add: Tree_lookup_def tree_wf_def)
  also have "\<dots> \<longleftrightarrow> \<lparr>leafKey = s, leafVal = v\<rparr> \<in> set (entries (root t))" by force
  finally show "Tree_lookup s t = Some v \<longleftrightarrow> contents t s = Some v" using contents_iff [OF wf] by simp
qed

section \<open>The contract\<close>

locale string_index =
  fixes wf :: "'t \<Rightarrow> bool" and look :: "string \<Rightarrow> 't \<Rightarrow> 'v option"
    and ins :: "string \<Rightarrow> 'v \<Rightarrow> 't \<Rightarrow> ('t \<times> 'v option \<times> bool) go"
  assumes ins_wf: "wf t \<Longrightarrow> ins s v t = Ret (t', old, found) \<Longrightarrow> wf t'"
    and ins_old: "wf t \<Longrightarrow> ins s v t = Ret (t', old, found) \<Longrightarrow> old = look s t \<and> found = (look s t \<noteq> None)"
    and ins_look: "wf t \<Longrightarrow> ins s v t = Ret (t', old, found) \<Longrightarrow> look k t' = (if k = s then Some v else look k t)"
begin

lemma ins_all:
  "fold_go (\<lambda>(k, v) t. bind_go (ins k v t) (\<lambda>(t', _). Ret t')) kvs t = Ret t' \<Longrightarrow> wf t \<Longrightarrow>
     wf t' \<and> look k t' = (case map_of (rev kvs) k of Some v \<Rightarrow> Some v | None \<Rightarrow> look k t)"
proof (induction kvs arbitrary: t)
  case (Cons kv kvs)
  obtain k0 v0 where kv: "kv = (k0, v0)" by (cases kv)
  from Cons.prems(1) obtain t1 old found where step: "ins k0 v0 t = Ret (t1, old, found)"
    and rest: "fold_go (\<lambda>(k, v) t. bind_go (ins k v t) (\<lambda>(t', _). Ret t')) kvs t1 = Ret t'"
    by (auto simp: kv bind_go_Ret_iff)
  from Cons.IH [OF rest ins_wf [OF Cons.prems(2) step]] ins_look [OF Cons.prems(2) step, of k] show ?case
    by (auto simp: kv map_add_def split: option.splits)
qed simp

end

lemma Insert_spec:
  assumes "tree_wf t" "Tree_Insert s v t = Ret (t', old, found)"
  shows "tree_wf t' \<and> predicate t' = predicate t \<and> old = contents t s \<and> found = (contents t s \<noteq> None) \<and>
    contents t' = (contents t)(s \<mapsto> v)"
proof -
  from assms(2) obtain n' d where loop: "insert_loop s v (root t) s = Ret (n', old, d)"
    and t': "t' = t\<lparr>root := n', tree_size := tree_size t + d\<rparr>" "found = (old \<noteq> None)"
    by (auto simp: Tree_Insert_def bind_go_Ret_iff)
  have "node_wf [] (root t)" "s = [] @ s" using assms(1) by (simp_all add: tree_wf_def)
  note spec = insert_loop_spec [OF this loop]
  have wf': "tree_wf t'" using spec assms(1) t'(1) by (simp add: tree_wf_def inserted_def)
  have "contents t' k = Some w \<longleftrightarrow> ((contents t)(s \<mapsto> v)) k = Some w" for k w
    unfolding contents_iff [OF wf'] fun_upd_apply using spec contents_iff [OF assms(1), of k w]
    by (auto simp: t'(1) inserted_def)
  then have "contents t' = (contents t)(s \<mapsto> v)" by (intro ext option_eqI)
  moreover have "old = contents t s" using spec lookup_contents [OF assms(1), of s] by (simp add: Tree_lookup_def)
  ultimately show ?thesis using wf' t' by simp
qed

interpretation radix: string_index tree_wf Tree_lookup Tree_Insert
proof
  fix t t' :: "'a Tree" and s v old found
  assume t: "tree_wf t" "Tree_Insert s v t = Ret (t', old, found)"
  note spec = Insert_spec [OF t]
  show "tree_wf t'" using spec by blast
  show "old = Tree_lookup s t \<and> found = (Tree_lookup s t \<noteq> None)" using spec lookup_contents [OF t(1)] by simp
  show "Tree_lookup k t' = (if k = s then Some v else Tree_lookup k t)" for k
    using spec lookup_contents [OF t(1)] lookup_contents [of t'] by simp
qed

lemma Insert_outcome:
  assumes "s \<noteq> [] \<or> \<not> missing_edge (root t) s"
  shows "if missing_edge (root t) s then Tree_Insert s v t = Panic NilDereference else \<exists>res. Tree_Insert s v t = Ret res"
  using insert_loop_outcome [of s s "root t" v] by (auto simp: Tree_Insert_def split: if_splits)

text \<open>Trees built from a map.\<close>

lemma NewFromMap_lookup:
  assumes "Tree_NewFromMap m = Ret t" "map_wf m"
  shows "tree_wf t \<and> Tree_lookup k t = map_of m k"
proof -
  let ?t0 = "\<lparr>root = Node None [] [], tree_size = 0, predicate = None\<rparr>"
  have "tree_wf ?t0" "Tree_lookup k ?t0 = None" by (simp_all add: tree_wf_def lookup_contents contents_def)
  then show ?thesis
    using radix.ins_all [of m ?t0 t k] assms map_of_rev_wf [OF assms(2)]
    by (auto simp: Tree_NewFromMap_def insert_all_def split: option.splits)
qed

section \<open>Prefixes\<close>

lemma LongestPrefix_spec:
  assumes "tree_wf t"
  shows "case Tree_LongestPrefix s t of (k, v, found) \<Rightarrow>
    if found then prefix k s \<and> v \<noteq> None \<and> contents t k = v \<and>
      (\<forall>k'. prefix k' s \<and> contents t k' \<noteq> None \<longrightarrow> length k' \<le> length k)
    else \<forall>k'. prefix k' s \<longrightarrow> contents t k' = None"
proof -
  let ?xs = "along s (root t)"
  have wf: "node_wf [] (root t)" using assms by (simp add: tree_wf_def)
  have mem: "x \<in> set ?xs \<longleftrightarrow> x \<in> set (entries (root t)) \<and> prefix (leafKey x) s" for x by (auto simp: along_def)
  have key: "\<exists>x \<in> set ?xs. leafKey x = k" if "prefix k s" "contents t k \<noteq> None" for k
    using that contents_iff [OF assms, of k] mem by (metis leafNode.select_convs(1) not_Some_eq)
  have loop: "longest_loop (root t) s None = (if ?xs = [] then None else Some (last ?xs))"
    using longest_loop_along [OF wf, of s None] by simp
  show ?thesis
  proof (cases "?xs = []")
    case True
    then have "contents t k' = None" if "prefix k' s" for k' using key that by fastforce
    then show ?thesis using True loop by (simp add: Tree_LongestPrefix_def leaf_result_def)
  next
    case False
    then have "last ?xs \<in> set ?xs" by simp
    then have "prefix (leafKey (last ?xs)) s" "contents t (leafKey (last ?xs)) = Some (leafVal (last ?xs))"
      using mem contents_entry [OF assms] by blast+
    moreover have "length k' \<le> length (leafKey (last ?xs))" if "prefix k' s" "contents t k' \<noteq> None" for k'
      using key [OF that] last_along_longest [OF wf] by blast
    ultimately show ?thesis using False loop by (auto simp: Tree_LongestPrefix_def leaf_result_def)
  qed
qed

lemma RemovePrefix_spec:
  assumes "tree_wf t"
  obtains t' where "Tree_RemovePrefix s t = Ret (t', int (length (filter (\<lambda>x. prefix s (leafKey x)) (entries (root t)))))"
    "tree_wf t'" "contents t' = (\<lambda>k. if prefix s k then None else contents t k)"
proof -
  have wf: "node_wf [] (root t)" using assms by (simp add: tree_wf_def)
  obtain n' k here where loop: "remove_prefix_loop True (root t) s = Ret (n', k, here)" and n': "node_wf [] n'"
    and rem: "removed s (root t) n' k" using remove_prefix_spec [OF wf, of True s] by auto
  let ?t = "t\<lparr>root := n', tree_size := tree_size t - int k\<rparr>"
  have "length (filter (\<lambda>x. \<not> prefix s (leafKey x)) (entries (root t))) + k = length (entries (root t))"
    using rem sum_length_filter_compl [of "\<lambda>x. prefix s (leafKey x)" "entries (root t)"] by (simp add: removed_def)
  then have wf': "tree_wf ?t" using assms n' rem by (simp add: tree_wf_def removed_def)
  have "contents ?t = (\<lambda>k. if prefix s k then None else contents t k)"
  proof (intro ext option_eqI)
    fix k v
    show "contents ?t k = Some v \<longleftrightarrow> (if prefix s k then None else contents t k) = Some v"
      using rem contents_iff [OF wf', of k v] contents_iff [OF assms, of k v] by (auto simp: removed_def)
  qed
  moreover have "Tree_RemovePrefix s t = Ret (?t, int k)" using loop by (simp add: Tree_RemovePrefix_def)
  ultimately show ?thesis using that wf' rem by (simp add: removed_def)
qed

section \<open>The trees the package builds\<close>

inductive built :: "'v Tree \<Rightarrow> bool" where
  new: "Tree_New = Ret t \<Longrightarrow> built t"
| insert: "built t \<Longrightarrow> Tree_Insert s v t = Ret (t', old, found) \<Longrightarrow> built t'"
| remove: "built t \<Longrightarrow> Tree_remove s t = Ret (t', old, found) \<Longrightarrow> built t'"
| remove_prefix: "built t \<Longrightarrow> Tree_RemovePrefix s t = Ret (t', k) \<Longrightarrow> built t'"

lemma no_edges_getEdge: "edges n = [] \<Longrightarrow> getEdge c n = None"
  by (simp add: getEdge_def)

text \<open>The root never gets an edge.\<close>

lemma built_no_edges: "built t \<Longrightarrow> edges (root t) = [] \<and> tree_wf t"
proof (induction rule: built.induct)
  case (new t)
  then show ?case by (auto simp: Tree_New_def Tree_NewFromMap_def insert_all_def tree_wf_def)
next
  case (insert t s v t' old found)
  have "tree_wf t'" using Insert_spec [OF _ insert.hyps(2)] insert.IH by simp
  moreover have "edges (root t') = []"
    using insert
    by (cases s) (auto simp: Tree_Insert_def bind_go_Ret_iff set_leaf_def no_edges_getEdge addNode_def go_index_def split: option.splits)
  ultimately show ?case by simp
next
  case (remove t s t' old found)
  show ?case
  proof (cases s)
    case Nil
    obtain l p where n: "root t = Node l p []" using remove.IH by (cases "root t") auto
    note step = remove_loop.simps [of 0 True "Node l' p []" "[]" for l']
    show ?thesis
      using remove.hyps(2) remove.IH Nil n
      by (cases l) (auto simp: Tree_remove_def step removeNode_def set_leaf_def isLeaf_def tree_wf_def)
  next
    case (Cons c q)
    have "remove_loop (Suc (length q)) True (root t) (c # q) = Ret (root t, False, None)"
      using remove.IH by (simp add: remove_loop.simps [of "Suc (length q)"] no_edges_getEdge)
    then show ?thesis using remove.hyps(2) remove.IH Cons by (auto simp: Tree_remove_def tree_wf_def)
  qed
next
  case (remove_prefix t s t' k)
  then have "tree_wf t'" using RemovePrefix_spec [of t s] by (metis go.inject(1) prod.inject)
  moreover have "edges (root t') = []"
    using remove_prefix
    by (cases s) (auto simp: Tree_RemovePrefix_def bind_go_Ret_iff no_edges_getEdge split: option.splits)
  ultimately show ?case by blast
qed

end
