(* ===== verification/Log_Matching.thy ===== *)
theory Log_Matching
  imports Cluster Raft_CatchUp
begin

text \<open>
  Log Matching for a whole cluster. The voting rule of the code allows two leaders in a term, and then
  logs diverge, and so does a request that is encoded after the log of its sender was overwritten. Here the runs
  are those in which every term is won at most once and no request changes after it was built; in those runs the
  logs of all nodes satisfy Log Matching whatever is lost, delayed or reordered. The argument uses a history:
  for each term that was won, the log of its leader, which only grows. Every log, and every log a request
  in flight was cut from, agrees up to each of its entries with the leader's log of the term of that entry.
\<close>

section \<open>Terms won\<close>

definition leads_at :: "u64 \<Rightarrow> cluster \<Rightarrow> bool" where
  "leads_at i c \<longleftrightarrow> (case map_of (nodes c) i of None \<Rightarrow> False | Some r \<Rightarrow> state r = Leader)"

text \<open>The terms of the nodes that lead after an event and did not lead before.\<close>

definition newly_won :: "cluster \<Rightarrow> cluster \<Rightarrow> u64 list" where
  "newly_won c c' = map (\<lambda>(i, r). currentTerm r) (filter (\<lambda>(i, r). state r = Leader \<and> \<not> leads_at i c) (nodes c'))"

fun terms_won :: "event list \<Rightarrow> cluster \<Rightarrow> u64 list" where
  "terms_won [] c = []"
| "terms_won (e # es) c =
     (case cluster_event e c of Ret c' \<Rightarrow> newly_won c c' @ terms_won es c' | _ \<Rightarrow> [])"

text \<open>Runs in which every request leaves its sender with the entries it was built with.\<close>

fun is_Reread :: "event \<Rightarrow> bool" where
  "is_Reread (Reread k j) = True"
| "is_Reread e = False"

fun requests_intact :: "event list \<Rightarrow> cluster \<Rightarrow> bool" where
  "requests_intact [] c \<longleftrightarrow> True"
| "requests_intact (e # es) c \<longleftrightarrow>
     (case cluster_event e c of
        Ret c' \<Rightarrow> (is_Reread e \<longrightarrow> net c' = net c) \<and> requests_intact es c'
      | _ \<Rightarrow> True)"

lemma Reread_intact: "cluster_event (Reread k j) c = Ret c' \<Longrightarrow> net c' = net c \<Longrightarrow> c' = c"
  by (cases c; cases c') (auto simp: with_node_def split: if_splits option.splits)

lemma newly_wonI:
  assumes "map_of (nodes c') i = Some r" "state r = Leader" "\<not> leads_at i c"
  shows "currentTerm r \<in> set (newly_won c c')"
proof -
  have "(i, r) \<in> set (nodes c')" using assms(1) by (rule map_of_SomeD)
  then show ?thesis using assms(2,3) unfolding newly_won_def by force
qed

section \<open>Logs backed by the leaders\<close>

definition backed :: "(u64 \<Rightarrow> LogEntry list) \<Rightarrow> LogEntry list \<Rightarrow> bool" where
  "backed L l \<longleftrightarrow> (\<forall>k < length l. take (Suc k) l = take (Suc k) (L (eTerm (l ! k))))"

lemma backed_Nil [simp]: "backed L []"
  by (simp add: backed_def)

lemma backed_match: "backed L xs \<Longrightarrow> backed L ys \<Longrightarrow> logs_match xs ys"
  by (simp add: backed_def logs_match_def)

lemma backed_term_won: "backed L l \<Longrightarrow> e \<in> set l \<Longrightarrow> L (eTerm e) \<noteq> []"
  by (force simp: backed_def in_set_conv_nth)

text \<open>A new leader, and one more entry in the log of a leader.\<close>

lemma backed_win:
  assumes "backed L l" "L t = []"
  shows "backed (L(t := x)) l"
proof -
  have "eTerm (l ! k) \<noteq> t" if "k < length l" for k
    using backed_term_won [OF assms(1), of "l ! k"] assms(2) that by auto
  then show ?thesis using assms(1) by (simp add: backed_def)
qed

lemma backed_grow: "backed L l \<Longrightarrow> backed (L(t := L t @ es)) l"
  unfolding backed_def
proof (intro allI impI)
  fix k
  assume "\<forall>k < length l. take (Suc k) l = take (Suc k) (L (eTerm (l ! k)))" and k: "k < length l"
  then have eq: "take (Suc k) l = take (Suc k) (L (eTerm (l ! k)))" by blast
  have "Suc k \<le> length (L (eTerm (l ! k)))" using arg_cong [OF eq, of length] k by simp
  then show "take (Suc k) l = take (Suc k) ((L(t := L t @ es)) (eTerm (l ! k)))" using eq by auto
qed

lemma backed_append:
  assumes "backed L l" "L t = l" "eTerm e = t"
  shows "backed (L(t := l @ [e])) (l @ [e])"
proof -
  have old: "backed (L(t := l @ [e])) l" using backed_grow [OF assms(1), of t "[e]"] assms(2) by simp
  show ?thesis
    unfolding backed_def
  proof (intro allI impI)
    fix k
    assume "k < length (l @ [e])"
    then consider "k < length l" | "k = length l" by fastforce
    then show "take (Suc k) (l @ [e]) = take (Suc k) ((L(t := l @ [e])) (eTerm ((l @ [e]) ! k)))"
    proof cases
      case 1
      then show ?thesis using old unfolding backed_def by (simp add: nth_append)
    qed (simp add: assms(3))
  qed
qed

text \<open>The merge of two backed logs at a common prefix is one of them.\<close>

lemma merge_log_choice:
  assumes m: "logs_match xs ys" and n: "n \<le> length xs" "n \<le> length ys" and pre: "take n xs = take n ys"
  shows "merge_log xs n (drop n ys) = xs \<or> merge_log xs n (drop n ys) = ys"
proof -
  let ?k = "agree (drop n xs) (drop n ys)" and ?m = "merge_log xs n (drop n ys)"
  have ys: "take (length ys) ?m = ys" by (rule merge_log_adopts [OF assms])
  show ?thesis
  proof (cases "?k < length (drop n ys)")
    case True
    then have "length ?m = length ys"
      using agree_le_left [of "drop n xs" "drop n ys"] n by (simp add: merge_log_def Let_def)
    then show ?thesis using ys by simp
  qed (simp add: merge_log_def Let_def)
qed


section \<open>The invariant\<close>

text \<open>A request is cut from a backed log at some position; \<open>n\<close> bounds the length of the logs.\<close>

definition held :: "(u64 \<Rightarrow> LogEntry list) \<Rightarrow> nat \<Rightarrow> LogEntry list \<Rightarrow> bool" where
  "held L n l \<longleftrightarrow> backed L l \<and> length l \<le> n"

definition cut_from :: "LogEntry list \<Rightarrow> nat \<Rightarrow> AppendEntriesMsg \<Rightarrow> bool" where
  "cut_from l k m \<longleftrightarrow> k \<le> length l \<and> aeEntries m = drop k l \<and> aePrevLogIndex m = of_nat k - 1 \<and>
     (0 < k \<longrightarrow> aePrevLogTerm m = eTerm (l ! (k - 1)))"

fun packet_backed :: "(u64 \<Rightarrow> LogEntry list) \<Rightarrow> nat \<Rightarrow> packet \<Rightarrow> bool" where
  "packet_backed L n (AppReq leader to nx m) = (\<exists>l k. held L n l \<and> cut_from l k m)"
| "packet_backed L n _ = True"

definition node_backed :: "(u64 \<Rightarrow> LogEntry list) \<Rightarrow> u64 set \<Rightarrow> nat \<Rightarrow> raft \<Rightarrow> bool" where
  "node_backed L W n r \<longleftrightarrow> held L n (stateLog r) \<and>
     (state r = Leader \<longrightarrow> currentTerm r \<in> W \<and> stateLog r = L (currentTerm r))"

definition log_inv :: "(u64 \<Rightarrow> LogEntry list) \<Rightarrow> u64 set \<Rightarrow> cluster \<Rightarrow> bool" where
  "log_inv L W c \<longleftrightarrow>
     (\<forall>t. t \<notin> W \<longrightarrow> L t = []) \<and>
     (\<forall>i r. map_of (nodes c) i = Some r \<longrightarrow> node_backed L W (length (submitted c)) r) \<and>
     (\<forall>i j r s. map_of (nodes c) i = Some r \<longrightarrow> map_of (nodes c) j = Some s \<longrightarrow>
        state r = Leader \<longrightarrow> state s = Leader \<longrightarrow> currentTerm r = currentTerm s \<longrightarrow> i = j) \<and>
     (\<forall>p \<in> set (net c). packet_backed L (length (submitted c)) p)"

lemma log_inv_nodeD:
  "log_inv L W c \<Longrightarrow> map_of (nodes c) i = Some r \<Longrightarrow> node_backed L W (length (submitted c)) r"
  by (simp add: log_inv_def)

lemma log_inv_mono: "log_inv L W c \<Longrightarrow> W \<subseteq> W' \<Longrightarrow> log_inv L W' c"
  by (auto simp: log_inv_def node_backed_def)

lemma log_inv_net: "log_inv L W c \<Longrightarrow> set ps \<subseteq> set (net c) \<Longrightarrow> log_inv L W (c\<lparr>net := ps\<rparr>)"
  by (simp add: log_inv_def) blast

lemma log_inv_send:
  "log_inv L W c \<Longrightarrow> \<forall>p \<in> set ps. packet_backed L (length (submitted c)) p \<Longrightarrow> log_inv L W (send ps c)"
  by (auto simp: log_inv_def send_def)

lemma log_inv_history [simp]:
  "log_inv L W (c\<lparr>elections := es\<rparr>) = log_inv L W c" "log_inv L W (c\<lparr>applied := as\<rparr>) = log_inv L W c"
  by (simp_all add: log_inv_def)

text \<open>A node that does not start to lead may change anything but its log, or take over a held log.\<close>

lemma log_inv_set_node:
  assumes "log_inv L W c" "map_of (nodes c) i = Some r" "held L (length (submitted c)) (stateLog r')"
    and "state r' = Leader \<Longrightarrow> state r = Leader \<and> currentTerm r' = currentTerm r \<and> stateLog r' = stateLog r"
  shows "log_inv L W (set_node i r' c)"
  using assms unfolding log_inv_def set_node_def node_backed_def
  by (simp add: map_of_map_set) metis

lemma held_win: "held L n l \<Longrightarrow> L t = [] \<Longrightarrow> held (L(t := x)) n l"
  by (simp add: held_def backed_win)

lemma packet_backed_win: "packet_backed L n p \<Longrightarrow> L t = [] \<Longrightarrow> packet_backed (L(t := x)) n p"
  by (cases p) (auto intro: held_win)

lemma log_inv_win:
  assumes inv: "log_inv L W c" and r: "map_of (nodes c) i = Some r"
    and r': "stateLog r' = stateLog r" "currentTerm r' \<notin> W"
  defines "t \<equiv> currentTerm r'"
  shows "log_inv (L(t := stateLog r)) (insert t W) (set_node i r' c)"
proof -
  have none: "L t = []" using inv r'(2) by (simp add: log_inv_def t_def)
  have other: "currentTerm s \<noteq> t" if "map_of (nodes c) j = Some s" "state s = Leader" for j s
    using log_inv_nodeD [OF inv that(1)] that(2) r'(2) by (auto simp: node_backed_def t_def)
  have "node_backed (L(t := stateLog r)) (insert t W) (length (submitted c)) s"
    if "map_of (nodes c) j = Some s" for j s
    using log_inv_nodeD [OF inv that] other [OF that] none
    by (auto simp: node_backed_def intro: held_win)
  moreover have "node_backed (L(t := stateLog r)) (insert t W) (length (submitted c)) r'"
    using log_inv_nodeD [OF inv r] r'(1) none by (auto simp: node_backed_def t_def intro: held_win)
  moreover have "\<forall>p \<in> set (net c). packet_backed (L(t := stateLog r)) (length (submitted c)) p"
    using inv none by (auto simp: log_inv_def intro: packet_backed_win)
  ultimately show ?thesis
    using inv other unfolding log_inv_def set_node_def t_def
    by (simp add: map_of_map_set) metis
qed

lemma held_grow: "held L n l \<Longrightarrow> n \<le> m \<Longrightarrow> held (L(t := L t @ es)) m l"
  by (simp add: held_def backed_grow)

lemma packet_backed_grow: "packet_backed L n p \<Longrightarrow> n \<le> m \<Longrightarrow> packet_backed (L(t := L t @ es)) m p"
  by (cases p) (auto intro: held_grow)

lemma log_inv_submit:
  assumes inv: "log_inv L W c" and r: "map_of (nodes c) i = Some r" "state r = Leader"
    and r': "state r' = Leader" "currentTerm r' = currentTerm r" "stateLog r' = stateLog r @ [e]"
    and e: "eTerm e = currentTerm r"
  defines "t \<equiv> currentTerm r"
  shows "log_inv (L(t := L t @ [e])) W ((set_node i r' c)\<lparr>submitted := kv # submitted c\<rparr>)"
proof -
  let ?L = "L(t := L t @ [e])" and ?n = "Suc (length (submitted c))"
  have mine: "t \<in> W" "L t = stateLog r" "held L (length (submitted c)) (stateLog r)"
    using log_inv_nodeD [OF inv r(1)] r(2) by (auto simp: node_backed_def t_def)
  have other: "node_backed ?L W ?n s" if s: "map_of (nodes c) j = Some s" "j \<noteq> i" for j s
  proof -
    have "state s = Leader \<Longrightarrow> currentTerm s \<noteq> t"
      using inv s r unfolding log_inv_def t_def by metis
    then show ?thesis using log_inv_nodeD [OF inv s(1)] held_grow [of L "length (submitted c)"] by (auto simp: node_backed_def)
  qed
  have "backed ?L (stateLog r @ [e])"
    using backed_append [of L "stateLog r" t e] mine e by (simp add: held_def t_def)
  then have "node_backed ?L W ?n r'"
    using mine r' by (simp add: node_backed_def held_def t_def)
  moreover have "\<forall>p \<in> set (net c). packet_backed ?L ?n p"
    using inv packet_backed_grow [of L "length (submitted c)"] by (simp add: log_inv_def)
  moreover have "\<forall>u. u \<notin> W \<longrightarrow> ?L u = []" using inv mine(1) by (auto simp: log_inv_def)
  ultimately show ?thesis
    using inv other r r' unfolding log_inv_def set_node_def
    by (simp add: map_of_map_set) metis
qed

section \<open>Every event keeps the invariant\<close>

text \<open>Which methods can leave a node a leader: apart from the vote count, only a leader that stays in its term.\<close>

definition stays :: "raft \<Rightarrow> raft \<Rightarrow> bool" where
  "stays r r' \<longleftrightarrow> stateLog r' = stateLog r \<and>
     (state r' = Leader \<longrightarrow> state r = Leader \<and> currentTerm r' = currentTerm r)"

lemma RequestVote_run_stays: "RequestVote_run now m r = (r', res) \<Longrightarrow> stays r r'"
  by (auto simp: stays_def RequestVote_run_def RequestVote_decide_def Let_def split: if_splits prod.splits)

lemma startElection_stays: "startElection now dis r = (et, ms, r') \<Longrightarrow> stays r r'"
  by (auto simp: stays_def startElection_def startElection_begin_def split: prod.splits if_splits)

lemma broadcastMsg_reply_stays:
  "log_fits r \<Longrightarrow> broadcastMsg_reply now p nx k t reply r = Ret r' \<Longrightarrow> stays r r'"
  by (auto simp: stays_def broadcastMsg_reply_def dest: broadcastMsg_locked_frame split: if_splits)

lemma commitChannel_iter_stays: "commitChannel_iter r = Ret (Some (cs, r')) \<Longrightarrow> stays r r'"
  by (auto simp: stays_def commitChannel_iter_def commitChannel_round_def commitChannel_section_def bind_go_Ret_iff
      split: option.splits if_splits)

lemma Raft_Shutdown_stays: "Raft_Shutdown r = Ret r' \<Longrightarrow> stays r r'"
  by (auto simp: stays_def Raft_Shutdown_def bind_go_Ret_iff split: if_splits)

lemma startElection_reply_wins:
  assumes "startElection_reply now et reply votes r = (votes', r')"
  shows "stays r r' \<or> (stateLog r' = stateLog r \<and> state r' = Leader \<and> state r \<noteq> Leader)"
  using assms by (auto simp: stays_def startElection_reply_def isCandidate_def Let_def split: if_splits)

lemmas node_stays = RequestVote_run_stays startElection_stays broadcastMsg_reply_stays commitChannel_iter_stays Raft_Shutdown_stays

lemma log_inv_stays:
  "log_inv L W c \<Longrightarrow> map_of (nodes c) i = Some r \<Longrightarrow> stays r r' \<Longrightarrow> log_inv L W (set_node i r' c)"
  using log_inv_nodeD [of L W c i r] by (intro log_inv_set_node [of L W c i r]) (auto simp: stays_def node_backed_def)

text \<open>A request taken from the network.\<close>

lemma cut_from_prev:
  assumes "cut_from l k m" "length l < 2 ^ 63" "prev_matches m r" "logs_match (stateLog r) l"
  shows "count_of (aePrevLogIndex m) = k" "k \<le> length (stateLog r)" "take k (stateLog r) = take k l"
proof -
  have k: "k \<le> length l" "aePrevLogIndex m = of_nat k - 1" using assms(1) by (simp_all add: cut_from_def)
  have small: "unat (of_nat k :: u64) = k" using k(1) assms(2) by (intro unat_of_nat_small) simp
  show c: "count_of (aePrevLogIndex m) = k" using small by (simp add: k count_of_def)
  show le: "k \<le> length (stateLog r)" using prev_matches_count [OF assms(3)] by (simp add: c)
  show "take k (stateLog r) = take k l"
  proof (cases "k = 0")
    case False
    then have nm: "aePrevLogIndex m \<noteq> MaxUint64" using c by auto
    then have "unat (aePrevLogIndex m) = k - 1" using c count_of_Suc [OF nm] by simp
    then have "eTerm (stateLog r ! (k - 1)) = eTerm (l ! (k - 1))"
      using assms(1,3) nm False by (simp add: prev_matches_def cut_from_def)
    then show ?thesis using logs_match_prefix [OF assms(4), of k] False le k(1) by simp
  qed simp
qed

lemma AppendEntries_run_held:
  assumes held: "held L n (stateLog r)" "held L n l" and n: "n < 2 ^ 63"
    and cut: "cut_from l k m" and run: "AppendEntries_run now m r = Ret (r', res)"
  shows "r' = r \<or> (state r' = Follower \<and> held L n (stateLog r'))"
proof -
  have match: "logs_match (stateLog r) l" using held by (auto simp: held_def intro: backed_match)
  have "log_fits r" using held(1) n by (simp add: held_def log_fits_def)
  note outcome = AppendEntries_run_Ret [OF this run]
  have "merge_log (stateLog r) (count_of (aePrevLogIndex m)) (aeEntries m) \<in> {stateLog r, l}" if pm: "prev_matches m r"
  proof -
    have "length l < 2 ^ 63" using held(2) n by (simp add: held_def)
    note prev = cut_from_prev [OF cut this pm match]
    have "k \<le> length l" "aeEntries m = drop k l" using cut by (simp_all add: cut_from_def)
    then show ?thesis
      using merge_log_choice [OF match prev(2) _ prev(3)] by (simp add: prev(1))
  qed
  then show ?thesis using outcome held by auto
qed

lemma broadcastMsg_send_cut:
  assumes "log_fits r" "broadcastMsg_send p t r = Ret (m, nx)"
  shows "cut_from (stateLog r) (unat nx) m"
proof -
  have n: "unat (map_get0 (nextIndex r) p) \<le> length (stateLog r)"
    using broadcastMsg_send_panics [OF assms(1), of p t] assms(2) by (metis go.distinct(1) not_le)
  from broadcastMsg_send_Ret [OF assms(1) n, of t] assms(2) n show ?thesis
    by (auto simp: cut_from_def unat_gt_0)
qed

text \<open>The packets and the events, one after the other.\<close>

lemma log_inv_fits:
  "log_inv L W c \<Longrightarrow> length (submitted c) < 2 ^ 63 \<Longrightarrow> map_of (nodes c) i = Some r \<Longrightarrow> log_fits r"
  by (auto dest!: log_inv_nodeD simp: node_backed_def held_def log_fits_def)

lemma VoteRep_log_inv:
  assumes inv: "log_inv L W c" and ret: "arrive now (VoteRep e src reply) c = Ret c'"
    and won: "set (newly_won c c') \<inter> W = {}"
  shows "\<exists>L'. log_inv L' (W \<union> set (newly_won c c')) c'"
proof (cases "e < length (elections c) \<and> map_of (nodes c) (elNode (elections c ! e)) \<noteq> None")
  case True
  let ?i = "elNode (elections c ! e)"
  obtain r where r: "map_of (nodes c) ?i = Some r" using True by auto
  obtain v' r' where rep: "startElection_reply now (elTerm (elections c ! e)) reply
      (elVotes (elections c ! e)) r = (v', r')" by fastforce
  let ?c = "c\<lparr>elections := (elections c)[e := (elections c ! e)\<lparr>elVotes := v'\<rparr>]\<rparr>"
  have c': "c' = set_node ?i r' ?c" using ret True r rep by (simp add: with_node_def Let_def)
  have inv': "log_inv L W ?c" "map_of (nodes ?c) ?i = Some r" using inv r by simp_all
  from startElection_reply_wins [OF rep] show ?thesis
  proof
    assume "stays r r'"
    then have "log_inv L W c'" unfolding c' by (rule log_inv_stays [OF inv'])
    then show ?thesis using log_inv_mono by blast
  next
    assume win: "stateLog r' = stateLog r \<and> state r' = Leader \<and> state r \<noteq> Leader"
    have "map_of (nodes c') ?i = Some r'" unfolding c' by (simp add: set_node_def map_of_map_set)
    moreover have "\<not> leads_at ?i c" using r win by (simp add: leads_at_def)
    ultimately have new: "currentTerm r' \<in> set (newly_won c c')" using win by (intro newly_wonI) simp_all
    then have "currentTerm r' \<notin> W" using won by blast
    from log_inv_win [OF inv' _ this] win have "log_inv (L(currentTerm r' := stateLog r)) (insert (currentTerm r') W) c'"
      unfolding c' by simp
    then show ?thesis using log_inv_mono new by blast
  qed
next
  case False
  then have "c' = c" using ret by (cases "e < length (elections c)") (auto simp: with_node_def Let_def)
  then show ?thesis using inv log_inv_mono by blast
qed

lemma AppReq_log_inv:
  assumes inv: "log_inv L W c" and n: "length (submitted c) < 2 ^ 63"
    and p: "packet_backed L (length (submitted c)) (AppReq leader to nx m)"
    and ret: "arrive now (AppReq leader to nx m) c = Ret c'"
  shows "log_inv L W c'"
proof (cases "map_of (nodes c) to")
  case (Some r)
  from ret Some obtain r' res where run: "AppendEntries_run now m r = Ret (r', res)"
    by (cases "AppendEntries_run now m r") (auto simp: with_node_def)
  from p obtain l k where l: "held L (length (submitted c)) l" "cut_from l k m" by auto
  have held: "held L (length (submitted c)) (stateLog r)"
    using log_inv_nodeD [OF inv Some] by (simp add: node_backed_def)
  have "log_inv L W (set_node to r' c)"
    using AppendEntries_run_held [OF held l(1) n l(2) run] held
    by (intro log_inv_set_node [OF inv Some]) auto
  then show ?thesis
    using ret Some run by (cases res) (auto simp: with_node_def intro!: log_inv_send)
qed (use inv ret in \<open>simp add: with_node_def\<close>)

lemma arrive_log_inv:
  assumes inv: "log_inv L W c" and n: "length (submitted c) < 2 ^ 63"
    and p: "packet_backed L (length (submitted c)) p" and ret: "arrive now p c = Ret c'"
    and won: "set (newly_won c c') \<inter> W = {}"
  shows "\<exists>L'. log_inv L' (W \<union> set (newly_won c c')) c'"
proof (cases p)
  case (VoteReq e to m)
  then have "log_inv L W c'"
    using ret inv by (cases "map_of (nodes c) to")
      (auto simp: with_node_def split: prod.splits sum.splits intro!: log_inv_send log_inv_stays dest: node_stays)
  then show ?thesis using log_inv_mono by blast
next
  case (VoteRep e src reply)
  then show ?thesis using VoteRep_log_inv [OF inv _ won] ret by simp
next
  case (AppReq leader to nx m)
  then show ?thesis using AppReq_log_inv [OF inv n] p ret log_inv_mono by blast
next
  case (AppRep leader src nx k t reply)
  then have "log_inv L W c'"
    using ret inv log_inv_fits [OF inv n] by (cases "map_of (nodes c) leader")
      (auto simp: with_node_def bind_go_Ret_iff intro!: log_inv_stays dest: node_stays)
  then show ?thesis using log_inv_mono by blast
qed

lemma Heartbeat_log_inv:
  assumes inv: "log_inv L W c" and n: "length (submitted c) < 2 ^ 63"
    and ret: "cluster_event (Heartbeat i p) c = Ret c'"
  shows "log_inv L W c'"
proof (cases "\<exists>r. map_of (nodes c) i = Some r \<and> isLeader r")
  case True
  then obtain r where r: "map_of (nodes c) i = Some r" "isLeader r" by blast
  with ret obtain m nx where send: "broadcastMsg_send p (currentTerm r) r = Ret (m, nx)"
    and c': "c' = send [AppReq i p nx m] c" by (auto simp: with_node_def bind_go_Ret_iff)
  have "cut_from (stateLog r) (unat nx) m" by (rule broadcastMsg_send_cut [OF log_inv_fits [OF inv n r(1)] send])
  moreover have "held L (length (submitted c)) (stateLog r)"
    using log_inv_nodeD [OF inv r(1)] by (simp add: node_backed_def)
  ultimately show ?thesis unfolding c' by (intro log_inv_send [OF inv]) auto
qed (use inv ret in \<open>auto simp: with_node_def split: option.splits if_splits\<close>)

lemma log_inv_more: "log_inv L W c \<Longrightarrow> log_inv L W (c\<lparr>submitted := kv # submitted c\<rparr>)"
proof -
  assume inv: "log_inv L W c"
  have held: "held L n l \<Longrightarrow> held L (Suc n) l" for n l by (simp add: held_def)
  have "packet_backed L n p \<Longrightarrow> packet_backed L (Suc n) p" for n p by (cases p) (auto intro: held)
  moreover have "node_backed L W n r \<Longrightarrow> node_backed L W (Suc n) r" for n r by (simp add: node_backed_def held)
  ultimately show ?thesis using inv by (simp add: log_inv_def)
qed

lemma ClientSubmit_log_inv:
  assumes inv: "log_inv L W c" and ret: "cluster_event (ClientSubmit i kv) c = Ret c'"
  shows "\<exists>L'. log_inv L' W c'"
proof (cases "map_of (nodes c) i")
  case (Some r)
  from ret Some obtain ok r' where
    sub: "Submit (Some kv) r = Ret (ok, r')" and c': "c' = (set_node i r' c)\<lparr>submitted := kv # submitted c\<rparr>"
    by (auto simp: with_node_def bind_go_Ret_iff)
  show ?thesis
  proof (cases "state r = Leader")
    case True
    then show ?thesis
      using log_inv_submit [OF inv Some True, of r' _ kv] sub unfolding c' by (auto simp: Submit_def)
  next
    case False
    then have "r' = r" using sub by (simp add: Submit_def)
    then show ?thesis
      using log_inv_stays [OF log_inv_more [OF inv, of kv], of i r r] Some unfolding c'
      by (auto simp: set_node_submitted stays_def)
  qed
qed (use inv ret in \<open>auto simp: with_node_def\<close>)

lemma cluster_event_log_inv:
  assumes inv: "log_inv L W c" and n: "length (submitted c) < 2 ^ 63"
    and ret: "cluster_event e c = Ret c'" and intact: "is_Reread e \<Longrightarrow> net c' = net c" and won: "set (newly_won c c') \<inter> W = {}"
  shows "\<exists>L'. log_inv L' (W \<union> set (newly_won c c')) c'"
proof (cases "\<exists>now k. e = Arrive now k \<and> k < length (net c)")
  case True
  then obtain now k where e: "e = Arrive now k" "k < length (net c)" by blast
  let ?c = "c\<lparr>net := remove_nth k (net c)\<rparr>"
  have "log_inv L W ?c" using inv set_remove_nth by (rule log_inv_net)
  moreover have "packet_backed L (length (submitted ?c)) (net c ! k)" using inv e by (simp add: log_inv_def)
  moreover have "newly_won ?c c' = newly_won c c'" by (simp add: newly_won_def leads_at_def)
  ultimately show ?thesis using arrive_log_inv [of L W ?c "net c ! k" now c'] n ret won e by simp
next
  case other: False
  have "\<exists>L'. log_inv L' W c'"
  proof (cases e)
    case (Timeout now t i)
    then show ?thesis
      using ret inv by (intro exI [of _ L]) (auto simp: with_node_def
        split: option.splits if_splits prod.splits intro!: log_inv_send log_inv_stays dest: node_stays)
  next
    case (Lose k)
    then show ?thesis using ret log_inv_net [OF inv set_remove_nth] by auto
  next
    case (Apply i)
    then show ?thesis
      using ret inv by (intro exI [of _ L]) (auto simp: with_node_def
        split: option.splits go.splits prod.splits intro!: log_inv_stays dest: node_stays)
  next
    case (Stop i)
    then show ?thesis
      using ret inv by (intro exI [of _ L]) (auto simp: with_node_def bind_go_Ret_iff
        split: option.splits intro!: log_inv_stays dest: node_stays)
  next
    case (Heartbeat i p)
    then show ?thesis using Heartbeat_log_inv [OF inv n] ret by blast
  next
    case (ClientSubmit i kv)
    then show ?thesis using ClientSubmit_log_inv [OF inv] ret by blast
  next
    case (Arrive now k)
    then show ?thesis using ret inv other by auto
  next
    case (Reread k j)
    then show ?thesis using ret inv intact Reread_intact [of k j c c'] by auto
  qed
  then show ?thesis using log_inv_mono by blast
qed

section \<open>Runs\<close>

lemma arrive_submitted: "arrive now p c = Ret c' \<Longrightarrow> submitted c' = submitted c"
proof (cases p)
  case (AppReq leader to nx m)
  assume "arrive now p c = Ret c'"
  then show ?thesis
    using AppReq by (auto simp: with_node_def bind_go_Ret_iff split: option.splits elim!: case_sumE)
qed (auto simp: with_node_def bind_go_Ret_iff Let_def split: if_splits option.splits prod.splits sum.splits)

lemma cluster_event_submitted: "cluster_event e c = Ret c' \<Longrightarrow> length (submitted c) \<le> length (submitted c')"
  by (cases e) (auto simp: with_node_def bind_go_Ret_iff dest!: arrive_submitted
    split: if_splits option.splits prod.splits go.splits)

lemma cluster_run_submitted: "cluster_run es c = Ret c' \<Longrightarrow> length (submitted c) \<le> length (submitted c')"
  by (induction es arbitrary: c) (fastforce simp: bind_go_Ret_iff dest: cluster_event_submitted)+

lemma cluster_run_log_inv:
  assumes "cluster_run es c = Ret c'" "log_inv L (set W) c" "distinct (W @ terms_won es c)" "length (submitted c') < 2 ^ 63"
    and "requests_intact es c"
  shows "\<exists>L' W'. log_inv L' W' c'"
  using assms
proof (induction es arbitrary: c L W)
  case (Cons e es)
  from Cons.prems(1) obtain c1 where c1: "cluster_event e c = Ret c1" "cluster_run es c1 = Ret c'"
    by (auto simp: bind_go_Ret_iff)
  have won: "distinct ((W @ newly_won c c1) @ terms_won es c1)" using Cons.prems(3) c1(1) by simp
  have "length (submitted c) < 2 ^ 63"
    using cluster_event_submitted [OF c1(1)] cluster_run_submitted [OF c1(2)] Cons.prems(4) by simp
  from cluster_event_log_inv [OF Cons.prems(2) this c1(1)] won Cons.prems(5) c1(1) obtain L1 where
    "log_inv L1 (set (W @ newly_won c c1)) c1" by auto
  from Cons.IH [OF c1(2) this won Cons.prems(4)] Cons.prems(5) c1(1) show ?case by simp
qed auto

lemma fresh_log_inv: "fresh c \<Longrightarrow> log_inv (\<lambda>_. []) (set []) c"
  unfolding fresh_def log_inv_def node_backed_def held_def
  by (auto simp: NewRaftProtocol_def split: if_splits dest!: map_of_SomeD)

lemma log_matching:
  assumes "fresh c" "cluster_run es c = Ret c'" "distinct (terms_won es c)" "length (submitted c') < 2 ^ 63"
    and "map_of (nodes c') i = Some r" "map_of (nodes c') j = Some s" and "requests_intact es c"
  shows "logs_match (stateLog r) (stateLog s)" "log_fits r"
    "state r = Leader \<Longrightarrow> state s = Leader \<Longrightarrow> currentTerm r = currentTerm s \<Longrightarrow> i = j"
proof -
  from cluster_run_log_inv [OF assms(2) fresh_log_inv [OF assms(1)] _ assms(4,7)] assms(3) obtain L W where
    inv: "log_inv L W c'" by auto
  from log_inv_nodeD [OF inv assms(5)] log_inv_nodeD [OF inv assms(6)]
  show "logs_match (stateLog r) (stateLog s)" by (auto simp: node_backed_def held_def intro: backed_match)
  show "log_fits r" using inv assms(4,5) by (rule log_inv_fits)
  show "state r = Leader \<Longrightarrow> state s = Leader \<Longrightarrow> currentTerm r = currentTerm s \<Longrightarrow> i = j"
    using inv assms(5,6) unfolding log_inv_def by blast
qed

end
