(* ===== verification/Log_Alias.thy ===== *)
theory Log_Alias
  imports Log_Matching
begin

text \<open>
  The log as Go stores it: a slice, that is a window into an array that other slices may share. The other
  theories treat logs and the entries of a request as values. \<open>AppendEntries\<close> cuts the log and appends to
  it, which reuses the array when there is room; \<open>broadcastMsg\<close> and \<open>commitChannel\<close> take slices of the same
  array under the lock and read them after they have released it. Here both are modelled on arrays: the log
  itself always is the value that the other theories compute, a slice taken earlier keeps its contents as
  long as the log is not cut below its end, and otherwise changes under the goroutine that holds it.
\<close>

section \<open>Slices\<close>

text \<open>The heap is the list of the arrays allocated so far.\<close>

type_synonym 'a arrays = "'a list list"

record slice =
  sArr :: nat
  sOff :: nat
  sLen :: nat
  sCap :: nat

definition sl_wf :: "'a arrays \<Rightarrow> slice \<Rightarrow> bool" where
  "sl_wf h s \<longleftrightarrow> sArr s < length h \<and> sLen s \<le> sCap s \<and> sOff s + sCap s \<le> length (h ! sArr s)"

definition sl_read :: "'a arrays \<Rightarrow> slice \<Rightarrow> 'a list" where
  "sl_read h s = take (sLen s) (drop (sOff s) (h ! sArr s))"

text \<open>\<open>s[lo:]\<close> is checked against the length, \<open>s[:hi]\<close> and \<open>s[lo:hi]\<close> against the capacity.\<close>

definition sl_from :: "nat \<Rightarrow> slice \<Rightarrow> slice go" where
  "sl_from lo s =
     (if lo \<le> sLen s then Ret (s\<lparr>sOff := sOff s + lo, sLen := sLen s - lo, sCap := sCap s - lo\<rparr>)
      else Panic SliceOutOfRange)"

definition sl_upto :: "nat \<Rightarrow> slice \<Rightarrow> slice go" where
  "sl_upto hi s = (if hi \<le> sCap s then Ret (s\<lparr>sLen := hi\<rparr>) else Panic SliceOutOfRange)"

definition sl_range :: "nat \<Rightarrow> nat \<Rightarrow> slice \<Rightarrow> slice go" where
  "sl_range lo hi s =
     (if lo \<le> hi \<and> hi \<le> sCap s then Ret (s\<lparr>sOff := sOff s + lo, sLen := hi - lo, sCap := sCap s - lo\<rparr>)
      else Panic SliceOutOfRange)"

definition overwrite :: "nat \<Rightarrow> 'a list \<Rightarrow> 'a list \<Rightarrow> 'a list" where
  "overwrite i ys xs = take i xs @ ys @ drop (i + length ys) xs"

text \<open>
  \<open>append(s, xs...)\<close> writes into the array of \<open>s\<close> when the capacity suffices; otherwise it copies into a new
  array, whose unused cells are \<open>spare\<close>: how many there are is left to the runtime.
\<close>

definition sl_append :: "'a list \<Rightarrow> 'a list \<Rightarrow> slice \<Rightarrow> 'a arrays \<Rightarrow> 'a arrays \<times> slice" where
  "sl_append spare xs s h =
     (if sLen s + length xs \<le> sCap s then
        (h[sArr s := overwrite (sOff s + sLen s) xs (h ! sArr s)], s\<lparr>sLen := sLen s + length xs\<rparr>)
      else
        (h @ [sl_read h s @ xs @ spare],
         \<lparr>sArr = length h, sOff = 0, sLen = sLen s + length xs, sCap = sLen s + length xs + length spare\<rparr>))"

lemma length_overwrite: "i + length ys \<le> length xs \<Longrightarrow> length (overwrite i ys xs) = length xs"
  by (simp add: overwrite_def)

lemma take_overwrite: "n \<le> i \<Longrightarrow> i \<le> length xs \<Longrightarrow> take n (overwrite i ys xs) = take n xs"
  by (simp add: overwrite_def min_absorb1)

lemma drop_overwrite:
  "o' + n \<le> length xs \<Longrightarrow> drop o' (overwrite (o' + n) ys xs) = take n (drop o' xs) @ ys @ drop (o' + n + length ys) xs"
  by (simp add: overwrite_def drop_take)

lemma sl_read_alt: "sl_read h s = drop (sOff s) (take (sOff s + sLen s) (h ! sArr s))"
  by (simp add: sl_read_def take_drop add.commute)

lemma length_sl_read: "sl_wf h s \<Longrightarrow> length (sl_read h s) = sLen s"
  by (auto simp: sl_wf_def sl_read_def)

lemma sl_append_wf: "sl_wf h s \<Longrightarrow> sl_append spare xs s h = (h', s') \<Longrightarrow> sl_wf h' s'"
  by (auto simp: sl_append_def sl_wf_def sl_read_def length_overwrite nth_append split: if_splits)

lemma sl_append_read: "sl_wf h s \<Longrightarrow> sl_append spare xs s h = (h', s') \<Longrightarrow> sl_read h' s' = sl_read h s @ xs"
  by (auto simp: sl_append_def sl_wf_def sl_read_def drop_overwrite split: if_splits)

text \<open>What another slice shows after an append: all that lies before the cells written.\<close>

lemma sl_append_frame:
  assumes "sl_wf h s" "sl_wf h t" "sl_append spare xs s h = (h', s')"
    and "sArr t = sArr s \<Longrightarrow> sOff t + sLen t \<le> sOff s + sLen s"
  shows "sl_read h' t = sl_read h t \<and> sl_wf h' t"
proof (cases "sLen s + length xs \<le> sCap s")
  case True
  then have h': "h' = h[sArr s := overwrite (sOff s + sLen s) xs (h ! sArr s)]"
    using assms(3) by (simp add: sl_append_def)
  show ?thesis
  proof (cases "sArr t = sArr s")
    case same: True
    have "take (sOff t + sLen t) (overwrite (sOff s + sLen s) xs (h ! sArr s)) = take (sOff t + sLen t) (h ! sArr s)"
      using assms(1) assms(4) [OF same] by (intro take_overwrite) (simp_all add: sl_wf_def)
    then show ?thesis
      using assms(1,2) True same h' by (simp add: sl_read_alt sl_wf_def length_overwrite)
  next
    case False
    then show ?thesis using assms(2) h' by (simp add: sl_read_def sl_wf_def)
  qed
next
  case False
  then show ?thesis using assms(2,3) by (auto simp: sl_append_def sl_read_def sl_wf_def nth_append)
qed

section \<open>The log\<close>

record log_mem =
  arrays :: "LogEntry arrays"
  stateLog_slice :: slice

definition holds :: "log_mem \<Rightarrow> LogEntry list \<Rightarrow> bool" where
  "holds m l \<longleftrightarrow> sl_wf (arrays m) (stateLog_slice m) \<and> sl_read (arrays m) (stateLog_slice m) = l"

text \<open>All cells that a slice can be extended to, and a memory that also holds what lies behind the log of a node.\<close>

definition sl_cells :: "'a arrays \<Rightarrow> slice \<Rightarrow> 'a list" where
  "sl_cells h s = take (sCap s) (drop (sOff s) (h ! sArr s))"

definition holds_raft :: "log_mem \<Rightarrow> raft \<Rightarrow> bool" where
  "holds_raft m r \<longleftrightarrow> holds m (stateLog r) \<and>
     take (length (log_cells r)) (sl_cells (arrays m) (stateLog_slice m)) = log_cells r"

lemma holds_raft_log: "holds_raft m r \<Longrightarrow> holds m (stateLog r)"
  by (simp add: holds_raft_def)

text \<open>\<open>raft.stateLog = append(raft.stateLog[:lowerBound], es...)\<close>\<close>

definition insert_at :: "LogEntry list \<Rightarrow> nat \<Rightarrow> LogEntry list \<Rightarrow> log_mem \<Rightarrow> log_mem go" where
  "insert_at spare lowerBound es m =
     bind_go (sl_upto lowerBound (stateLog_slice m)) (\<lambda>s.
       let (h, s') = sl_append spare es s (arrays m) in Ret \<lparr>arrays = h, stateLog_slice = s'\<rparr>)"

definition ae_insert_mem :: "LogEntry list \<Rightarrow> AppendEntriesMsg \<Rightarrow> log_mem \<Rightarrow> log_mem go" where
  "ae_insert_mem spare req m =
     (let (lowerBound, upperBound) =
            ae_match (sl_read (arrays m) (stateLog_slice m)) (aeEntries req) (aePrevLogIndex req + 1) 0
      in if upperBound < length (aeEntries req)
         then insert_at spare (unat lowerBound) (drop upperBound (aeEntries req)) m else Ret m)"

definition Submit_mem :: "LogEntry list \<Rightarrow> LogEntry \<Rightarrow> log_mem \<Rightarrow> log_mem" where
  "Submit_mem spare e m =
     (let (h, s') = sl_append spare [e] (stateLog_slice m) (arrays m) in \<lparr>arrays = h, stateLog_slice = s'\<rparr>)"

text \<open>The entries of a request and the entries to deliver are slices of the log.\<close>

definition request_slice :: "u64 \<Rightarrow> log_mem \<Rightarrow> slice go" where
  "request_slice nx m = sl_from (unat nx) (stateLog_slice m)"

definition committed_slice :: "u64 \<Rightarrow> u64 \<Rightarrow> log_mem \<Rightarrow> slice go" where
  "committed_slice applied' commit m = sl_range (unat (applied' + 1)) (unat (commit + 1)) (stateLog_slice m)"

text \<open>The request that leaves the node: its entries are read when the message is encoded.\<close>

definition encoded :: "slice \<Rightarrow> log_mem \<Rightarrow> AppendEntriesMsg \<Rightarrow> AppendEntriesMsg" where
  "encoded t m req = req\<lparr>aeEntries := sl_read (arrays m) t\<rparr>"

section \<open>The log is the value\<close>

lemma insert_at_frame:
  assumes "sl_wf (arrays m) (stateLog_slice m)" "lb \<le> sCap (stateLog_slice m)" "insert_at spare lb es m = Ret m'"
  shows "sl_wf (arrays m') (stateLog_slice m')"
    and "sl_wf (arrays m) t \<Longrightarrow> (sArr t = sArr (stateLog_slice m) \<Longrightarrow> sOff t + sLen t \<le> sOff (stateLog_slice m) + lb) \<Longrightarrow>
      sl_read (arrays m') t = sl_read (arrays m) t \<and> sl_wf (arrays m') t"
    and "sl_read (arrays m') (stateLog_slice m') =
      take lb (drop (sOff (stateLog_slice m)) (arrays m ! sArr (stateLog_slice m))) @ es"
proof -
  let ?s = "(stateLog_slice m)\<lparr>sLen := lb\<rparr>"
  have wf: "sl_wf (arrays m) ?s" using assms(1,2) by (simp add: sl_wf_def)
  have app: "sl_append spare es ?s (arrays m) = (arrays m', stateLog_slice m')"
    using assms(2,3) by (auto simp: insert_at_def sl_upto_def split: prod.splits)
  show "sl_wf (arrays m') (stateLog_slice m')" by (rule sl_append_wf [OF wf app])
  show "sl_read (arrays m') (stateLog_slice m') =
      take lb (drop (sOff (stateLog_slice m)) (arrays m ! sArr (stateLog_slice m))) @ es"
    using sl_append_read [OF wf app] by (simp add: sl_read_def)
  show "sl_read (arrays m') t = sl_read (arrays m) t \<and> sl_wf (arrays m') t"
    if "sl_wf (arrays m) t" "sArr t = sArr (stateLog_slice m) \<Longrightarrow> sOff t + sLen t \<le> sOff (stateLog_slice m) + lb"
    using sl_append_frame [OF wf that(1) app] that(2) by simp
qed

lemma take_around:
  assumes "i + length es \<le> n" "o' + n \<le> length xs"
  shows "take n (take i (drop o' xs) @ es @ drop (o' + i + length es) xs) =
    take i (take n (drop o' xs)) @ es @ drop (i + length es) (take n (drop o' xs))"
proof -
  define ys where "ys = drop o' xs"
  have "drop (o' + i + length es) xs = drop (i + length es) ys" by (simp add: ys_def add_ac)
  moreover have "n \<le> length ys" using assms(2) by (simp add: ys_def)
  ultimately show ?thesis
    using assms(1) by (simp add: ys_def [symmetric] drop_take min_absorb1 min_absorb2)
qed

text \<open>The cells after an insertion, as far as they are known.\<close>

lemma insert_at_cells:
  assumes "sl_wf (arrays m) (stateLog_slice m)" "lb \<le> n" "insert_at spare lb es m = Ret m'"
    and "take n (sl_cells (arrays m) (stateLog_slice m)) = l" "length l = n"
  shows "take (length (take lb l @ es @ drop (lb + length es) l)) (sl_cells (arrays m') (stateLog_slice m')) =
      take lb l @ es @ drop (lb + length es) l"
proof -
  let ?s = "stateLog_slice m" and ?c = "sl_cells (arrays m) (stateLog_slice m)"
  have wf: "sArr ?s < length (arrays m)" "sOff ?s + sCap ?s \<le> length (arrays m ! sArr ?s)"
    using assms(1) by (auto simp: sl_wf_def)
  have len: "length ?c = sCap ?s" using wf by (simp add: sl_cells_def)
  obtain rest where c: "?c = l @ rest" using assms(4) by (metis append_take_drop_id)
  have cap: "lb \<le> sCap ?s" and n: "n \<le> sCap ?s" using assms(2,5) c len by simp_all
  have app: "sl_append spare es (?s\<lparr>sLen := lb\<rparr>) (arrays m) = (arrays m', stateLog_slice m')"
    using assms(3) cap by (auto simp: insert_at_def sl_upto_def split: prod.splits)
  show ?thesis
  proof (cases "lb + length es \<le> sCap ?s")
    case True
    then have a: "arrays m' = (arrays m)[sArr ?s := overwrite (sOff ?s + lb) es (arrays m ! sArr ?s)]"
      and s: "stateLog_slice m' = ?s\<lparr>sLen := lb + length es\<rparr>"
      using app by (auto simp: sl_append_def)
    have "sl_cells (arrays m') (stateLog_slice m') =
        take (sCap ?s) (take lb (drop (sOff ?s) (arrays m ! sArr ?s)) @ es @ drop (sOff ?s + lb + length es) (arrays m ! sArr ?s))"
      using wf cap by (simp add: a s sl_cells_def drop_overwrite)
    also have "\<dots> = take lb ?c @ es @ drop (lb + length es) ?c"
      unfolding sl_cells_def by (rule take_around) (use True wf in \<open>simp_all add: add.assoc\<close>)
    finally show ?thesis using c assms(2,5) by simp
  next
    case False
    then have a: "arrays m' = arrays m @ [take lb (drop (sOff ?s) (arrays m ! sArr ?s)) @ es @ spare]"
      and s: "stateLog_slice m' = \<lparr>sArr = length (arrays m), sOff = 0, sLen = lb + length es,
        sCap = lb + length es + length spare\<rparr>"
      using app by (auto simp: sl_append_def sl_read_def)
    have "sl_cells (arrays m') (stateLog_slice m') = take lb (drop (sOff ?s) (arrays m ! sArr ?s)) @ es @ spare"
      using wf cap by (simp add: a s sl_cells_def)
    moreover have "take lb (drop (sOff ?s) (arrays m ! sArr ?s)) = take lb ?c"
      using cap by (simp add: sl_cells_def min_absorb1)
    ultimately show ?thesis using c assms(2,5) False n by simp
  qed
qed

text \<open>Appending to a part of the cells keeps the memory and the node in step.\<close>

lemma insert_at_holds:
  assumes "holds_raft m r" "lb \<le> length (log_cells r)"
  shows "\<exists>m'. insert_at spare lb es m = Ret m' \<and> holds_raft m' (append_log (take lb (log_cells r)) es r)"
proof -
  let ?s = "stateLog_slice m" and ?l = "log_cells r"
  have wf: "sl_wf (arrays m) ?s" and cells: "take (length ?l) (sl_cells (arrays m) ?s) = ?l"
    using assms(1) by (simp_all only: holds_raft_def holds_def)
  have "length (sl_cells (arrays m) ?s) = sCap ?s" using wf by (auto simp: sl_wf_def sl_cells_def)
  then have cap: "lb \<le> sCap ?s" using arg_cong [OF cells, of length] assms(2) by simp
  obtain m' where m': "insert_at spare lb es m = Ret m'"
    using cap by (cases "sl_append spare es (?s\<lparr>sLen := lb\<rparr>) (arrays m)") (simp add: insert_at_def sl_upto_def)
  have "take lb (drop (sOff ?s) (arrays m ! sArr ?s)) = take lb ?l"
    using arg_cong [OF cells, of "take lb"] cap assms(2) by (simp add: sl_cells_def min_absorb1 del: take_append length_append)
  then have "holds m' (take lb ?l @ es)"
    using insert_at_frame(1,3) [OF wf cap m'] by (simp add: holds_def del: take_append)
  moreover have "length (take lb ?l) = lb" using assms(2) by simp
  ultimately have "holds_raft m' (append_log (take lb ?l) es r)"
    using insert_at_cells [OF wf assms(2) m' cells refl]
    by (simp add: holds_raft_def del: take_append drop_append length_append)
  then show ?thesis using m' by blast
qed

lemma ae_insert_mem_refines:
  assumes "holds_raft m r" "ae_insert req r = Ret r'"
  shows "\<exists>m'. ae_insert_mem spare req m = Ret m' \<and> holds_raft m' r'"
proof -
  obtain lb ub where match: "ae_match (stateLog r) (aeEntries req) (aePrevLogIndex req + 1) 0 = (lb, ub)"
    by (cases "ae_match (stateLog r) (aeEntries req) (aePrevLogIndex req + 1) 0")
  have rd: "sl_read (arrays m) (stateLog_slice m) = stateLog r"
    using assms(1) by (simp add: holds_raft_def holds_def)
  show ?thesis
  proof (cases "ub < length (aeEntries req)")
    case True
    then have "unat lb \<le> length (log_cells r)" "r' = append_log (take (unat lb) (log_cells r)) (drop ub (aeEntries req)) r"
      using assms(2) match by (auto simp: ae_insert_def go_simps bind_go_Ret_iff simp del: take_append split: if_splits)
    then show ?thesis
      using insert_at_holds [OF assms(1)] True match rd by (simp add: ae_insert_mem_def del: take_append length_append)
  next
    case False
    then show ?thesis using assms match rd by (simp add: ae_insert_mem_def ae_insert_def)
  qed
qed

lemma Submit_mem_insert: "Submit_mem spare e m = m' \<Longrightarrow> sl_wf (arrays m) (stateLog_slice m) \<Longrightarrow>
    insert_at spare (sLen (stateLog_slice m)) [e] m = Ret m'"
  by (auto simp: Submit_mem_def insert_at_def sl_upto_def sl_wf_def split: prod.splits)

lemma Submit_mem_refines:
  assumes "holds_raft m r" "Submit (Some kv) r = Ret (True, r')"
  shows "holds_raft (Submit_mem spare \<lparr>eTerm = currentTerm r, eCommand = Some kv\<rparr> m) r'"
proof -
  let ?e = "\<lparr>eTerm = currentTerm r, eCommand = Some kv\<rparr>"
  have wf: "sl_wf (arrays m) (stateLog_slice m)" and len: "sLen (stateLog_slice m) = length (stateLog r)"
    using assms(1) length_sl_read [of "arrays m" "stateLog_slice m"] by (auto simp: holds_raft_def holds_def)
  have "r' = append_log (take (length (stateLog r)) (log_cells r)) [?e] r"
    using assms(2) by (simp add: Submit_def split: if_splits)
  then show ?thesis
    using insert_at_holds [OF assms(1), of "length (stateLog r)" spare "[?e]"] Submit_mem_insert [OF refl wf, of spare ?e] len
    by auto
qed

section \<open>Requests in the making\<close>

lemma request_slice_now:
  assumes "holds m (stateLog r)" "broadcastMsg_send p t r = Ret (req, nx)"
  obtains s where "request_slice nx m = Ret s" "sl_wf (arrays m) s" "encoded s m req = req"
    "sArr s = sArr (stateLog_slice m)" "sOff s + sLen s = sOff (stateLog_slice m) + length (stateLog r)"
proof -
  let ?s = "stateLog_slice m" and ?t = "(stateLog_slice m)\<lparr>sOff := sOff (stateLog_slice m) + unat nx,
    sLen := sLen (stateLog_slice m) - unat nx, sCap := sCap (stateLog_slice m) - unat nx\<rparr>"
  have wf: "sl_wf (arrays m) ?s" and rd: "sl_read (arrays m) ?s = stateLog r"
    using assms(1) by (simp_all add: holds_def)
  have len: "length (stateLog r) = sLen ?s" using length_sl_read [OF wf] rd by simp
  have nx: "unat nx \<le> length (stateLog r)" "aeEntries req = drop (unat nx) (stateLog r)"
    using assms(2) by (auto simp: broadcastMsg_send_def go_simps bind_go_Ret_iff Let_def split: if_splits)
  have "sl_read (arrays m) ?t = drop (unat nx) (stateLog r)"
    using rd [symmetric] by (simp add: sl_read_def drop_take add.commute)
  then have "encoded ?t m req = req" using nx(2) by (simp add: encoded_def)
  then show ?thesis
    using that [of ?t] wf nx(1) len by (simp add: request_slice_def sl_from_def sl_wf_def diff_le_mono)
qed

text \<open>
  What happens to the log while a request is in the making: commands appended by clients and entries
  received. \<open>cut\<close> is the position from which an operation writes.
\<close>

datatype log_op = Appends LogEntry | Receives AppendEntriesMsg

fun cut :: "log_op \<Rightarrow> log_mem \<Rightarrow> nat" where
  "cut (Appends e) m = sLen (stateLog_slice m)"
| "cut (Receives req) m =
     (let l = sl_read (arrays m) (stateLog_slice m);
          (lowerBound, upperBound) = ae_match l (aeEntries req) (aePrevLogIndex req + 1) 0
      in if upperBound < length (aeEntries req) then unat lowerBound else sLen (stateLog_slice m))"

fun mem_op :: "LogEntry list \<Rightarrow> log_op \<Rightarrow> log_mem \<Rightarrow> log_mem go" where
  "mem_op spare (Appends e) m = Ret (Submit_mem spare e m)"
| "mem_op spare (Receives req) m = ae_insert_mem spare req m"

fun mem_run :: "(LogEntry list \<times> log_op) list \<Rightarrow> log_mem \<Rightarrow> log_mem go" where
  "mem_run [] m = Ret m"
| "mem_run ((spare, a) # ops) m = bind_go (mem_op spare a m) (mem_run ops)"

text \<open>No operation of a run writes below position \<open>n\<close>.\<close>

fun uncut :: "nat \<Rightarrow> (LogEntry list \<times> log_op) list \<Rightarrow> log_mem \<Rightarrow> bool" where
  "uncut n [] m \<longleftrightarrow> True"
| "uncut n ((spare, a) # ops) m \<longleftrightarrow>
     n \<le> cut a m \<and> (case mem_op spare a m of Ret m' \<Rightarrow> uncut n ops m' | _ \<Rightarrow> True)"

lemma insert_at_keeps:
  assumes "sl_wf (arrays m) (stateLog_slice m)" "insert_at spare lb es m = Ret m'" "n \<le> lb" "sl_wf (arrays m) t"
    and "sArr t = sArr (stateLog_slice m) \<Longrightarrow> sOff t + sLen t \<le> sOff (stateLog_slice m) + n"
  shows "sl_read (arrays m') t = sl_read (arrays m) t" "sl_wf (arrays m') t" "sl_wf (arrays m') (stateLog_slice m')"
    "sArr t = sArr (stateLog_slice m') \<Longrightarrow> sOff t + sLen t \<le> sOff (stateLog_slice m') + n"
proof -
  have cap: "lb \<le> sCap (stateLog_slice m)"
    using assms(2) by (auto simp: insert_at_def sl_upto_def split: if_splits)
  note frame = insert_at_frame [OF assms(1) cap assms(2)]
  show "sl_read (arrays m') t = sl_read (arrays m) t" "sl_wf (arrays m') t" "sl_wf (arrays m') (stateLog_slice m')"
    using frame(1) frame(2) [OF assms(4)] assms(3,5) by fastforce+
  show "sOff t + sLen t \<le> sOff (stateLog_slice m') + n" if "sArr t = sArr (stateLog_slice m')"
    using that assms(2,4,5) cap
    by (auto simp: insert_at_def sl_upto_def sl_append_def sl_wf_def split: if_splits)
qed

lemma mem_op_keeps:
  assumes "sl_wf (arrays m) (stateLog_slice m)" "mem_op spare a m = Ret m'" "n \<le> cut a m" "sl_wf (arrays m) t"
    and "sArr t = sArr (stateLog_slice m) \<Longrightarrow> sOff t + sLen t \<le> sOff (stateLog_slice m) + n"
  shows "sl_read (arrays m') t = sl_read (arrays m) t \<and> sl_wf (arrays m') t \<and> sl_wf (arrays m') (stateLog_slice m') \<and>
    (sArr t = sArr (stateLog_slice m') \<longrightarrow> sOff t + sLen t \<le> sOff (stateLog_slice m') + n)"
proof -
  have "(\<exists>es. insert_at spare (cut a m) es m = Ret m') \<or> m' = m"
  proof (cases a)
    case (Appends e)
    then show ?thesis using assms(2) Submit_mem_insert [OF _ assms(1)] by auto
  next
    case (Receives req)
    then show ?thesis using assms(2) by (auto simp: ae_insert_mem_def split: prod.splits if_splits)
  qed
  then show ?thesis using insert_at_keeps [OF assms(1) _ assms(3-5)] assms(1,4,5) by auto
qed

lemma mem_run_keeps:
  "mem_run ops m = Ret m' \<Longrightarrow> uncut n ops m \<Longrightarrow> sl_wf (arrays m) (stateLog_slice m) \<Longrightarrow> sl_wf (arrays m) t \<Longrightarrow>
     (sArr t = sArr (stateLog_slice m) \<longrightarrow> sOff t + sLen t \<le> sOff (stateLog_slice m) + n) \<Longrightarrow>
     sl_read (arrays m') t = sl_read (arrays m) t"
proof (induction ops m rule: mem_run.induct)
  case (2 spare a ops m)
  then obtain m1 where m1: "mem_op spare a m = Ret m1" "mem_run ops m1 = Ret m'" by (auto simp: bind_go_Ret_iff)
  moreover from this have "n \<le> cut a m" "uncut n ops m1" using 2 by auto
  ultimately show ?case using mem_op_keeps [of m spare a m1 n t] 2 by auto
qed simp

text \<open>A request that is encoded after such a run is the one that was built.\<close>

lemma request_survives:
  assumes "holds m (stateLog r)" "broadcastMsg_send p t r = Ret (req, nx)"
    and "mem_run ops m = Ret m'" "uncut (length (stateLog r)) ops m"
  shows "\<exists>s. request_slice nx m = Ret s \<and> encoded s m' req = req"
proof -
  obtain s where s: "request_slice nx m = Ret s" "sl_wf (arrays m) s" "encoded s m req = req"
    "sArr s = sArr (stateLog_slice m)" "sOff s + sLen s = sOff (stateLog_slice m) + length (stateLog r)"
    by (rule request_slice_now [OF assms(1,2)])
  have "sl_read (arrays m') s = sl_read (arrays m) s"
    using mem_run_keeps [OF assms(3,4) _ s(2)] assms(1) s(5) by (simp add: holds_def)
  then show ?thesis using s(1,3) by (simp add: encoded_def)
qed

text \<open>Likewise the entries to deliver, as long as the log is not cut below the commit index.\<close>

lemma committed_survive:
  assumes "holds_raft m r" "mem_run ops m = Ret m'" "uncut (unat (commit_index r + 1)) ops m"
    and "commitChannel_section r = Ret (es, r')" "es \<noteq> []"
  shows "\<exists>s. committed_slice (last_applied r) (commit_index r) m = Ret s \<and> sl_read (arrays m') s = es"
proof -
  let ?s = "stateLog_slice m" and ?a = "unat (last_applied r + 1)" and ?c = "unat (commit_index r + 1)"
  let ?t = "?s\<lparr>sOff := sOff ?s + ?a, sLen := ?c - ?a, sCap := sCap ?s - ?a\<rparr>"
  have wf: "sl_wf (arrays m) ?s" and rd: "take (length (log_cells r)) (sl_cells (arrays m) ?s) = log_cells r"
    using assms(1) by (simp_all only: holds_raft_def holds_def)
  have len: "length (log_cells r) \<le> sCap ?s"
    using arg_cong [OF rd, of length] wf by (simp add: sl_cells_def sl_wf_def)
  have ac: "?a \<le> ?c" "?c \<le> length (log_cells r)" and es: "es = take (?c - ?a) (drop ?a (log_cells r))"
    using assms(4,5)
    by (auto simp: commitChannel_section_def go_simps bind_go_Ret_iff simp del: take_append drop_append split: if_splits)
  have "take ?c (drop (sOff ?s) (arrays m ! sArr ?s)) = take ?c (log_cells r)"
    using arg_cong [OF rd, of "take ?c"] ac len by (simp add: sl_cells_def min_absorb1 del: take_append length_append)
  then have "drop ?a (take ?c (drop (sOff ?s) (arrays m ! sArr ?s))) = es"
    using es ac by (simp only: drop_take)
  then have "sl_read (arrays m) ?t = es"
    by (simp add: sl_read_def drop_take add.commute)
  moreover have "sl_read (arrays m') ?t = sl_read (arrays m) ?t"
    using ac len wf by (intro mem_run_keeps [OF assms(2,3) wf]) (auto simp: sl_wf_def)
  ultimately show ?thesis using ac len by (auto simp: committed_slice_def sl_range_def)
qed

end
