(* ===== verification/Rest_Net.thy ===== *)
theory Rest_Net
  imports Client
begin

text \<open>
  The parts of \<open>pkg/server/rest_server.go\<close> that talk to other servers or end the service, and the client and
  the servers of a cluster together: what the answers of their \<open>leader\<close> routes tell a new client.
\<close>

section \<open>Calls to other servers\<close>

definition ApiRole :: string where "ApiRole = ''/role''"

definition ApiShutdown :: string where "ApiShutdown = ''/shutdownGrpc''"

text \<open>An error of any kind is \<open>None\<close>.\<close>

definition HandlerPeeStatus :: "(string \<Rightarrow> Info http_reply) \<Rightarrow> string \<Rightarrow> Info option" where
  "HandlerPeeStatus http p =
     (case http (ApiTransport @ p @ ApiRole) of
        BadURL \<Rightarrow> None
      | Timeout \<Rightarrow> None
      | Reply _ peer \<Rightarrow> peer)"

definition HandlerShutdownRemote :: "(string \<Rightarrow> unit http_reply) \<Rightarrow> string \<Rightarrow> nat \<times> bool" where
  "HandlerShutdownRemote http p =
     (case http (ApiTransport @ p @ ApiShutdown) of
        BadURL \<Rightarrow> (0, True)
      | Timeout \<Rightarrow> (0, True)
      | Reply st _ \<Rightarrow> (st, False))"

text \<open>The index page and the shutdown of a node, with the calls they make.\<close>

definition index_page ::
  "template_run \<Rightarrow> (time \<Rightarrow> string) \<Rightarrow> (time \<Rightarrow> string) \<Rightarrow> (string \<Rightarrow> Info http_reply) \<Rightarrow> 'c Server \<Rightarrow> PageData response go" where
  "index_page tmpl fmtUpdate fmtElection http s = HandlerIndex tmpl fmtUpdate fmtElection (HandlerPeeStatus http) s"

definition node_shutdown ::
  "shutdown_env \<Rightarrow> (string \<Rightarrow> unit http_reply) \<Rightarrow> string \<Rightarrow> 'c Server \<Rightarrow> ('c Server \<times> unit response) go" where
  "node_shutdown env http n s = HandlerNodeShutdown env (\<lambda>p. snd (HandlerShutdownRemote http p)) n s"

definition HandlerPeerList :: "('c \<Rightarrow> 'k) \<Rightarrow> 'k \<Rightarrow> 'c Server \<Rightarrow> (u64, 'k PeerStatus) gomap response go" where
  "HandlerPeerList conn_state Ready s =
     bind_go (Server_PeerStatus conn_state Ready (Some s)) (\<lambda>connStatus. Ret (Written 200 connStatus))"

definition shutdownGrpc_route :: "shutdown_env \<Rightarrow> 'c Server \<Rightarrow> ('c Server option \<times> 'c list) go" where
  "shutdownGrpc_route env s = ShutdownGrpc env (Some s)"

section \<open>The end of the service\<close>

definition ShutdownHandler :: "Restful option \<Rightarrow> Restful option" where
  "ShutdownHandler ro = (case ro of None \<Rightarrow> None | Some rs \<Rightarrow> shutdownRest (Some rs))"

text \<open>
  \<open>sig\<close> tells whether a signal of the operating system arrives. A receive from a nil channel never
  returns. The result includes whether the HTTP server was told to stop.
\<close>

definition WaitShutdown :: "bool \<Rightarrow> Restful option \<Rightarrow> (Restful option \<times> bool) go" where
  "WaitShutdown sig ro =
     (case ro of
        None \<Rightarrow> Ret (None, False)
      | Some rs \<Rightarrow>
          if sig then Ret (Some (rs\<lparr>healthy := 0\<rparr>), True)
          else (case shutdownRequest rs of
                  None \<Rightarrow> Blocked
                | Some ch \<Rightarrow>
                    bind_go (chan_recv ch) (\<lambda>(_, ch').
                      Ret (Some (rs\<lparr>shutdownRequest := Some ch', healthy := 0\<rparr>), True))))"

text \<open>\<open>Server.StopRest\<close> asks for the shutdown through the channel.\<close>

definition Server_StopRest :: "'c Server \<Rightarrow> 'c Server" where
  "Server_StopRest s = s\<lparr>rest := shutdownRest (rest s)\<rparr>"

text \<open>A shutdown requested through the API does not end the service.\<close>

lemma api_shutdown_blocks:
  assumes "reachable_server s"
  shows "WaitShutdown False (ShutdownHandler (rest s)) = Blocked" "WaitShutdown False (rest (Server_StopRest s)) = Blocked"
proof -
  obtain rs where "rest s = Some rs" "shutdownRequest rs = None"
    using reachable_server_wf [OF assms] by (auto simp: server_wf_def)
  then show "WaitShutdown False (ShutdownHandler (rest s)) = Blocked" "WaitShutdown False (rest (Server_StopRest s)) = Blocked"
    by (simp_all add: ShutdownHandler_def Server_StopRest_def shutdownRest_def WaitShutdown_def Let_def)
qed

section \<open>A client of a cluster\<close>

text \<open>What the \<open>leader\<close> route of a server answers; a handler that panics or blocks does not answer.\<close>

definition leader_reply :: "'c Server \<Rightarrow> LeaderRespond http_reply" where
  "leader_reply s =
     (case leader s of
        Ret (Written st resp) \<Rightarrow> Reply st (Some resp)
      | Ret (Failed st _) \<Rightarrow> Reply st None
      | Ret Nothing \<Rightarrow> Reply 200 None
      | _ \<Rightarrow> Timeout)"

definition cluster_http :: "(string \<times> 'c Server) list \<Rightarrow> string \<Rightarrow> LeaderRespond http_reply" where
  "cluster_http srvs u =
     (case find (\<lambda>(p, s). p @ ApiLeader = u) srvs of None \<Rightarrow> Timeout | Some (_, s) \<Rightarrow> leader_reply s)"

definition is_leading :: "'c Server \<Rightarrow> bool" where
  "is_leading s \<longleftrightarrow> (case raftState s of None \<Rightarrow> False | Some r \<Rightarrow> state r = Leader)"

lemma leader_reply_iff:
  "(\<exists>st resp. leader_reply s = Reply st (Some resp) \<and> lrSuccess resp) \<longleftrightarrow> is_leading s"
  by (auto simp: leader_reply_def leader_def is_leading_def RaftState_def Status_def Let_def
      split: option.splits prod.splits if_splits bool.splits)

lemma leader_reply_binding:
  "leader_reply s = Reply st (Some resp) \<Longrightarrow> lrSuccess resp \<Longrightarrow> lrRestBinding resp = RestNetworkBind (serverSpec s)"
  by (auto simp: leader_reply_def leader_def RaftState_def Status_def Let_def
      split: option.splits prod.splits if_splits bool.splits)

lemma cluster_http_at:
  assumes "distinct (map fst srvs)" "(p, s) \<in> set srvs"
  shows "cluster_http srvs (p @ ApiLeader) = leader_reply s"
proof -
  have "find (\<lambda>(p', s'). p' @ ApiLeader = p @ ApiLeader) srvs = Some (p, s)"
    using assms by (induction srvs) (auto simp: rev_image_eqI)
  then show ?thesis by (simp add: cluster_http_def)
qed

lemma cluster_http_Reply:
  assumes "cluster_http srvs (p @ ApiLeader) = Reply st b"
  obtains s where "(p, s) \<in> set srvs" "leader_reply s = Reply st b"
  using assms by (auto simp: cluster_http_def find_Some_iff split: option.splits dest: nth_mem)

lemma set_endpoints: "set (map fst (fold (\<lambda>peer m. map_set peer True m) ps m)) = set ps \<union> set (map fst m)"
  by (induction ps arbitrary: m) (auto simp: map_set_def dom_update [unfolded dom_def] dest: set_mp)

text \<open>A new client asks every endpoint, and succeeds with an answer that says it leads.\<close>

lemma NewRestClient_loop:
  "NewRestClient http ps = Inr c \<longleftrightarrow> ps \<noteq> [] \<and>
     (\<exists>es resp. es = fold (\<lambda>peer m. map_set peer True m) ps [] \<and> leader_loop http (map fst es) None = Some resp \<and>
        lrSuccess resp \<and> c = \<lparr>endpoint = es, client_leader = lrRestBinding resp, verbose = False\<rparr>)"
  by (auto simp: NewRestClient_def DiscoverLeader_def GetLeader_def Let_def split: option.splits if_splits)

lemma NewRestClient_found:
  assumes "NewRestClient (cluster_http srvs) ps = Inr c"
  shows "\<exists>p s. p \<in> set ps \<and> (p, s) \<in> set srvs \<and> is_leading s \<and> client_leader c = RestNetworkBind (serverSpec s)"
proof -
  from assms [unfolded NewRestClient_loop] obtain es resp where
    es: "es = fold (\<lambda>peer m. map_set peer True m) ps []"
    and loop: "leader_loop (cluster_http srvs) (map fst es) None = Some resp" "lrSuccess resp" "client_leader c = lrRestBinding resp"
    by auto
  from leader_loop_leader [OF loop(1,2)] obtain p st where
    p: "p \<in> set (map fst es)" "cluster_http srvs (p @ ApiLeader) = Reply st (Some resp)" by auto
  from cluster_http_Reply [OF p(2)] obtain s where s: "(p, s) \<in> set srvs" "leader_reply s = Reply st (Some resp)" .
  have "p \<in> set ps" using p(1) set_endpoints [of ps "[]"] unfolding es by simp
  moreover have "is_leading s" using leader_reply_iff [of s] s(2) loop(2) by blast
  ultimately show ?thesis using s(1) leader_reply_binding [OF s(2) loop(2)] loop(3) by auto
qed

lemma NewRestClient_finds:
  assumes "distinct (map fst srvs)" "(p, s) \<in> set srvs" "p \<in> set ps" "is_leading s"
  shows "\<exists>c. NewRestClient (cluster_http srvs) ps = Inr c"
proof -
  let ?es = "fold (\<lambda>peer m. map_set peer True m) ps []"
  obtain st resp where "cluster_http srvs (p @ ApiLeader) = Reply st (Some resp)" "lrSuccess resp"
    using cluster_http_at [OF assms(1,2)] leader_reply_iff [of s] assms(4) by auto
  moreover have "p \<in> set (map fst ?es)" using assms(3) set_endpoints [of ps "[]"] by simp
  ultimately obtain resp' where "leader_loop (cluster_http srvs) (map fst ?es) None = Some resp'" "lrSuccess resp'"
    using leader_loop_finds by blast
  moreover have "ps \<noteq> []" using assms(3) by auto
  ultimately show ?thesis unfolding NewRestClient_loop by blast
qed

section \<open>Writing to a leader\<close>

text \<open>
  \<open>post\<close> answers a request and changes the state of the world \<open>'w\<close>; \<open>Store\<close> sends one if it has a leader.
\<close>

definition Store_world ::
  "(string \<Rightarrow> LeaderRespond http_reply) \<Rightarrow> (string \<Rightarrow> 'w \<Rightarrow> 'w \<times> unit http_reply) \<Rightarrow> string \<Rightarrow> bytes \<Rightarrow> RestClient \<Rightarrow> 'w
     \<Rightarrow> bool \<times> string option \<times> RestClient \<times> 'w" where
  "Store_world http post key val c w =
     (let (ok, err, c1) = Store http (\<lambda>u. snd (post u w)) key val c in
      (ok, err, c1,
       case DiscoverLeader http (Some c) of
         (Some _, _) \<Rightarrow> w
       | (None, _) \<Rightarrow> fst (post (store_url (client_leader c1) key val) w)))"

text \<open>The server behind the client; a server that does not answer is a timeout.\<close>

definition post_server ::
  "(string \<Rightarrow> (string \<times> string) option) \<Rightarrow> string \<Rightarrow> 'c Server \<Rightarrow> 'c Server \<times> unit http_reply" where
  "post_server mux u s = (case serve_post mux s u of Ret (s1, reply) \<Rightarrow> (s1, reply) | _ \<Rightarrow> (s, Timeout))"

definition leads :: "'c Server \<Rightarrow> raft \<Rightarrow> bool" where
  "leads s r \<longleftrightarrow> serverState s = Running \<and> raftState s = Some r \<and> state r = Leader \<and> unat (LeaderId s) < length (peerSpec s)"

lemma Store_world_leader:
  assumes "mux_ok (client_leader c) mux" "client_leader c \<noteq> []" "leads s r" "key \<noteq> []" "val \<noteq> []"
  shows "\<exists>s1. Store_world http (post_server mux) key val c s = (True, None, c, s1) \<and> db s1 = db s \<and> server_inv s1 = server_inv s \<and>
    leads s1 (append_log (stateLog r) [\<lparr>eTerm = currentTerm r, eCommand = Some \<lparr>Key = key, Value = val\<rparr>\<rparr>] r)"
proof -
  let ?s1 = "s\<lparr>submitRx := submitRx s + 1, raftState := Some (append_log (stateLog r) [\<lparr>eTerm = currentTerm r, eCommand = Some \<lparr>Key = key, Value = val\<rparr>\<rparr>] r)\<rparr>"
  let ?u = "store_url (client_leader c) key val"
  have "SubmitCall (Some \<lparr>Key = key, Value = val\<rparr>) (Some s) =
      Ret (?s1, Some \<lparr>srSuccess = True, srLeaderId = LeaderId s, srNodeId = serverId s,
        srAddress = RaftNetworkBind (peerSpec s ! unat (LeaderId s))\<rparr>, None)"
    using assms(3) by (intro SubmitCall_leader) (simp_all add: leads_def)
  then have post: "post_server mux ?u s = (?s1, Reply 201 (Some ()))"
    by (simp add: post_server_def serve_post_submit [OF assms(1,4,5)])
  then have "Store http (\<lambda>u. snd (post_server mux u s)) key val c = (True, None, c)"
    by (intro Store_cached [OF assms(2)]) simp
  moreover have "DiscoverLeader http (Some c) = (None, Some c)" using assms(2) by (simp add: DiscoverLeader_def)
  ultimately show ?thesis
    using post assms(3) by (simp add: Store_world_def leads_def server_inv_def)
qed

section \<open>Reading from a server\<close>

text \<open>The route with one variable, and the answer of the server to a GET of a value.\<close>

definition mux_get_ok :: "string \<Rightarrow> (string \<Rightarrow> string option) \<Rightarrow> bool" where
  "mux_get_ok lead mux \<longleftrightarrow> (\<forall>k. url_segment k \<longrightarrow> mux (''http://'' @ lead @ ApiGet @ ''/'' @ k) = Some k)"

definition serve_get :: "(string \<Rightarrow> string option) \<Rightarrow> 'c Server \<Rightarrow> string \<Rightarrow> HttpValueRespond http_reply" where
  "serve_get mux s url =
     (case mux url of
        None \<Rightarrow> Reply 404 None
      | Some k \<Rightarrow> (case getValue k s of Written st v \<Rightarrow> Reply st (Some v) | Failed st _ \<Rightarrow> Reply st None | Nothing \<Rightarrow> Reply 200 None))"

lemma Get_from_server:
  assumes "mux_get_ok (client_leader c) mux" "client_leader c \<noteq> []" "key \<noteq> []" "VolatileStorage_Get (db s) key = (v, True)"
  shows "Get http (serve_get mux s) key c = (Some \<lparr>hvValue = v, hvSuccess = True\<rparr>, None, c)"
proof -
  have "bytes_of_string key \<noteq> []" using assms(3) by (simp add: bytes_of_string_def)
  then have "mux (get_url (client_leader c) key) = Some (EncodeToString (bytes_of_string key))"
    using assms(1) EncodeToString_segment unfolding mux_get_ok_def get_url_def by simp
  then have "serve_get mux s (get_url (client_leader c) key) = Reply 200 (Some \<lparr>hvValue = v, hvSuccess = True\<rparr>)"
    by (simp add: serve_get_def getValue_stored [OF assms(3,4)])
  then show ?thesis using assms(2) by (simp add: Get_def DiscoverLeader_def)
qed

end
