(* ===== verification/Write_Path.thy ===== *)
theory Write_Path
  imports Rest_Net Raft_CatchUp Raft_Steps
begin

text \<open>
  The way of a write through the program: a client stores a value at the leader, the leader replicates its
  log to a follower, the reply commits the entry, \<open>commitChannel\<close> delivers it, \<open>ReadCommits\<close> stores it, and a
  client reads it. In a cluster of at most three, one follower is enough.
\<close>

definition appended :: "string \<Rightarrow> bytes \<Rightarrow> raft \<Rightarrow> raft" where
  "appended key val r = append_log (stateLog r) [\<lparr>eTerm = currentTerm r, eCommand = Some \<lparr>Key = key, Value = val\<rparr>\<rparr>] r"

text \<open>The indices of a node are ordered and within its log, and every entry has a command.\<close>

definition indices_ok :: "raft \<Rightarrow> bool" where
  "indices_ok r \<longleftrightarrow> count_of (last_applied r) \<le> count_of (commit_index r) \<and>
     count_of (commit_index r) \<le> length (stateLog r) \<and> (\<forall>e \<in> set (stateLog r). eCommand e \<noteq> None)"

section \<open>The commit\<close>

text \<open>A success reply that confirms the whole log commits the last entry, if that is of the current term.\<close>

lemma success_commits_last:
  assumes fits: "log_fits l" and send: "can_send l"
    and p: "p \<in> snd ` set (peers l)" "numberPeers l \<le> 2"
    and suc: "broadcastMsg_success p nx n t l = Ret l'" "nx + of_nat n = log_len l"
    and log: "stateLog l = es @ [e]" "eTerm e = currentTerm l" "count_of (commit_index l) \<le> length es"
  shows "commit_index l' = of_nat (length es)" "chBuf (commitReadyChan l') \<noteq> []"
proof -
  note frame = broadcastMsg_success_Ret [OF fits suc(1)]
  have small: "length es < 2 ^ 63" using fits log(1) by (simp add: log_fits_def)
  have match: "map_get0 (matchIndex l') p = of_nat (length es)"
    using frame suc(2) log(1) by (simp add: map_get0_map_set)
  obtain a where "(a, p) \<in> set (peers l')" using p(1) frame by auto
  then have "0 < length (filter (\<lambda>(_, q). map_get0 (matchIndex l') q \<ge> of_nat (length es)) (peers l'))"
    using match by (force simp: filter_empty_conv)
  then have "countMatchIndex l' (of_nat (length es)) \<ge> 1" unfolding countMatchIndex_eq by linarith
  then have el: "eligible l' (length es)"
    using p(2) log frame by (simp add: eligible_def majority_def)
  have len: "length (stateLog l') = Suc (length es)" using frame log(1) by simp
  from broadcastMsg_success_commit [OF fits send, of p nx n t] suc(1) el len log(3)
  obtain j where j: "commit_index l' = of_nat j" "j < Suc (length es)" "\<forall>i. j < i \<and> i < Suc (length es) \<longrightarrow> \<not> eligible l' i"
    by auto
  then have "j = length es" using el by (metis lessI less_antisym)
  then show c: "commit_index l' = of_nat (length es)" using j(1) by simp
  have "commit_index l' \<noteq> commit_index l"
  proof
    assume "commit_index l' = commit_index l"
    then have "count_of (of_nat (length es)) \<le> length es" using log(3) c by simp
    then show False using small by (simp add: count_of_def unat_word_ariths unat_of_nat_small)
  qed
  then show "chBuf (commitReadyChan l') \<noteq> []"
    using suc(1) by (auto simp: broadcastMsg_success_def Let_def chan_send_def bind_go_Ret_iff split: if_splits)
qed

section \<open>The delivery\<close>

lemma commit_entries_returns: "\<forall>e \<in> set es. eCommand e \<noteq> None \<Longrightarrow> \<exists>cs. commit_entries i t es = Ret cs"
proof (induction es arbitrary: i)
  case (Cons e es)
  obtain cs where "commit_entries (i + 1) t es = Ret cs" using Cons.IH [of "i + 1"] Cons.prems by auto
  then show ?case using Cons.prems by auto
qed simp

lemma delivers_last:
  assumes log: "stateLog r = es @ [e]" "eCommand e = Some kv" "\<forall>x \<in> set es. eCommand x \<noteq> None" "length es < 2 ^ 63"
    and idx: "commit_index r = of_nat (length es)" "count_of (last_applied r) \<le> length es"
    and ready: "chBuf (commitReadyChan r) \<noteq> []"
  shows "\<exists>cs ce r'. commitChannel_iter r = Ret (Some (cs @ [ce], r')) \<and> ceCommand ce = kv \<and>
    stateLog r' = stateLog r \<and> last_applied r' = commit_index r"
proof -
  let ?a = "count_of (last_applied r)"
  have c: "count_of (commit_index r) = Suc (length es)"
    using log(4) by (simp add: idx count_of_def unat_word_ariths unat_of_nat_small)
  have go: "commit_index r > last_applied r \<or> last_applied r = MaxUint64"
  proof (cases "last_applied r = MaxUint64")
    case False
    then have "unat (last_applied r) < length es" using idx(2) by (simp add: count_of_Suc)
    then show ?thesis using log(4) by (simp add: idx word_less_nat_alt unat_of_nat_small)
  qed simp
  have part: "take (Suc (length es) - ?a) (drop ?a (stateLog r)) = drop ?a es @ [e]"
    using idx(2) by (simp add: log)
  have "\<forall>x \<in> set (drop ?a es @ [e]). eCommand x \<noteq> None" using log(2,3) by (auto dest: in_set_dropD)
  then obtain ds where ds: "commit_entries (last_applied r + 1) (currentTerm r) (drop ?a es @ [e]) = Ret ds"
    using commit_entries_returns by blast
  have "map (\<lambda>d. Some (ceCommand d)) ds = map eCommand (drop ?a es) @ [Some kv]"
    using commit_entries_Ret [OF ds] log(2) by simp
  then obtain cs ce where cs: "ds = cs @ [ce]" "ceCommand ce = kv"
    by (cases ds rule: rev_cases) auto
  show ?thesis
  proof -
    obtain m c' where recv: "chan_recv (commitReadyChan r) = Ret (Some m, c')"
      using ready by (cases "chBuf (commitReadyChan r)") (auto simp: chan_recv_def)
    have "commitChannel_round (r\<lparr>commitReadyChan := c'\<rparr>) = Ret (ds, set_applied (commit_index r) (r\<lparr>commitReadyChan := c'\<rparr>))"
      using go c part ds log(1) idx(2)
      by (auto simp: commitChannel_round_def commitChannel_section_def go_slice_def count_of_def)
    then show ?thesis using cs by (simp add: commitChannel_iter_def recv)
  qed
qed

section \<open>The whole path\<close>

text \<open>The last of the delivered entries writes the value.\<close>

definition stores_value :: "CommitEntry list \<Rightarrow> string \<Rightarrow> bytes \<Rightarrow> bool" where
  "stores_value cs key val \<longleftrightarrow> cs \<noteq> [] \<and> ceCommand (last cs) = \<lparr>Key = key, Value = val\<rparr>"

lemma stores_value_read:
  assumes "stores_value cs key val" "server_inv s"
  shows "\<exists>s'. ReadCommits_all cs s = Ret s' \<and> VolatileStorage_Get (db s') key = (val, True)"
proof -
  obtain ds d where cs: "cs = ds @ [d]" "ceCommand d = \<lparr>Key = key, Value = val\<rparr>"
    using assms(1) by (cases cs rule: rev_cases) (auto simp: stores_value_def)
  have "volatile_inv (db s)" using assms(2) by (simp add: server_inv_def)
  from vol.get_set_all_last [OF this, of key "[]" "value_writes ds" val]
  show ?thesis using ReadCommits_all_Ret [OF assms(2), of cs] by (simp add: cs)
qed

lemma write_reaches_store:
  assumes rep: "replicating p (appended key val r) f" and idx: "indices_ok r"
    and p: "p \<in> snd ` set (peers r)" "numberPeers r \<le> 2"
  shows "\<exists>k \<le> Suc (unat (map_get0 (nextIndex r) p)). \<exists>l' f' cs l''.
    replicate_rounds k now p (appended key val r) f = Ret (l', f') \<and>
    take (Suc (length (stateLog r))) (stateLog f') = stateLog (appended key val r) \<and>
    commitChannel_iter l' = Ret (Some (cs, l'')) \<and> stores_value cs key val"
proof -
  let ?l = "appended key val r" and ?e = "\<lparr>eTerm = currentTerm r, eCommand = Some \<lparr>Key = key, Value = val\<rparr>\<rparr>"
  have l: "stateLog ?l = stateLog r @ [?e]" "nextIndex ?l = nextIndex r" "peers ?l = peers r" "numberPeers ?l = numberPeers r"
    "currentTerm ?l = currentTerm r" "commit_index ?l = commit_index r" "last_applied ?l = last_applied r"
    by (simp_all add: appended_def)
  from catch_up [OF rep, of now] obtain k l' f' where k: "k \<le> Suc (unat (map_get0 (nextIndex r) p))"
    and rounds: "replicate_rounds k now p ?l f = Ret (l', f')" and up: "caught_up p ?l l' f'" unfolding l by blast
  from up obtain m nx n where suc: "broadcastMsg_success p nx n (currentTerm ?l) (?l\<lparr>nextIndex := m\<rparr>) = Ret l'"
    and nn: "nx + of_nat n = log_len ?l" and log': "stateLog l' = stateLog ?l"
    and f': "take (Suc (length (stateLog r))) (stateLog f') = stateLog ?l" by (auto simp: caught_up_def l)
  have fits: "log_fits (?l\<lparr>nextIndex := m\<rparr>)" "can_send (?l\<lparr>nextIndex := m\<rparr>)"
    using rep by (simp_all add: replicating_def log_fits_def can_send_def)
  have com: "commit_index l' = of_nat (length (stateLog r))" "chBuf (commitReadyChan l') \<noteq> []"
    using success_commits_last [OF fits _ _ suc, of "stateLog r" ?e] p nn idx by (simp_all add: l indices_ok_def)
  have small: "length (stateLog r) < 2 ^ 63" using fits(1) by (simp add: log_fits_def l)
  have "last_applied l' = last_applied r" using broadcastMsg_success_Ret [OF fits(1) suc] by (simp add: l)
  then have "count_of (last_applied l') \<le> length (stateLog r)" using idx by (simp add: indices_ok_def)
  from delivers_last [OF _ _ _ small com(1) this com(2), of ?e] idx obtain cs ce l'' where
    it: "commitChannel_iter l' = Ret (Some (cs @ [ce], l''))" "ceCommand ce = \<lparr>Key = key, Value = val\<rparr>"
    by (auto simp: log' l indices_ok_def)
  then have "stores_value (cs @ [ce]) key val" by (simp add: stores_value_def)
  then show ?thesis using k rounds f' it(1) by blast
qed

end
