(* ===== verification/Bootstrap.thy ===== *)
theory Bootstrap
  imports LoadBalancer
begin

text \<open>
  Configuration and start of the processes: the artifact files (\<open>pkg/server/artifacts\<close>,
  \<open>pkg/loadbalancer/artifacts\<close>), the cluster node (\<open>pkg/main\<close>), the set-up of the tests
  (\<open>pkg/server/testing_tools.go\<close>) and the balancer (\<open>pkg/loadbalancer/main\<close>). The operating system and the YAML
  decoder are arguments; \<open>log.Fatal\<close> is the panic \<open>FatalExit\<close>. The functions of \<open>path/filepath\<close> follow
  their documentation.
\<close>

section \<open>Paths\<close>

fun split_path :: "string \<Rightarrow> string \<Rightarrow> string list" where
  "split_path [] cur = [cur]"
| "split_path (c # s) cur = (if c = CHR ''/'' then cur # split_path s [] else split_path s (cur @ [c]))"

fun clean_parts :: "bool \<Rightarrow> string list \<Rightarrow> string list \<Rightarrow> string list" where
  "clean_parts rooted [] out = out"
| "clean_parts rooted (p # ps) out =
     clean_parts rooted ps
       (if p = [] \<or> p = ''.'' then out
        else if p = ''..'' then
          (if out \<noteq> [] \<and> last out \<noteq> ''..'' then butlast out else if rooted then out else out @ [p])
        else out @ [p])"

fun join_path :: "string list \<Rightarrow> string" where
  "join_path [] = []"
| "join_path [p] = p"
| "join_path (p # ps) = p @ ''/'' @ join_path ps"

definition rooted :: "string \<Rightarrow> bool" where
  "rooted s \<longleftrightarrow> take 1 s = ''/''"

definition filepath_Clean :: "string \<Rightarrow> string" where
  "filepath_Clean s =
     (let out = (if rooted s then ''/'' else []) @ join_path (clean_parts (rooted s) (split_path s []) [])
      in if out = [] then ''.'' else out)"

definition filepath_Dir :: "string \<Rightarrow> string" where
  "filepath_Dir s = filepath_Clean (rev (dropWhile (\<lambda>c. c \<noteq> CHR ''/'') (rev s)))"

definition filepath_Base :: "string \<Rightarrow> string" where
  "filepath_Base s =
     (if s = [] then ''.''
      else let b = rev (takeWhile (\<lambda>c. c \<noteq> CHR ''/'') (dropWhile (\<lambda>c. c = CHR ''/'') (rev s)))
           in if b = [] then ''/'' else b)"

definition filepath_Abs :: "string \<Rightarrow> string \<Rightarrow> string" where
  "filepath_Abs wd s = (if rooted s then filepath_Clean s else filepath_Clean (wd @ ''/'' @ s))"

section \<open>Artifacts\<close>

record Controller =
  cAddress :: string
  cPort :: string
  cRest :: string
  cMetric :: string
  cWWWRoot :: string

record ControllerCluster =
  cName :: string
  Controllers :: "Controller list"

record Artifact =
  Formation :: ControllerCluster
  BaseDir :: string

record LbServer =
  lsAddress :: string
  lsPort :: string

record LbApi =
  laAddress :: string
  laRest :: string
  laGrpc :: string

record LbPool =
  lpName :: string
  lpApi :: "LbApi list"
  lpServers :: "LbServer list"
  lpBind :: string

record LbArtifact =
  lbPool :: LbPool
  lbBaseDir :: string

datatype file_stat = NotExist | StatError | Directory | Regular

record os_env =
  os_stat :: "string \<Rightarrow> file_stat"
  Getwd :: "string option"
  ReadFile :: "string \<Rightarrow> bytes option"

text \<open>An error other than "does not exist" leaves \<open>stat\<close> nil, and the next line dereferences it.\<close>

definition fileExists :: "os_env \<Rightarrow> string \<Rightarrow> bool go" where
  "fileExists env filename =
     (case os_stat env filename of
        NotExist \<Rightarrow> Ret False
      | StatError \<Rightarrow> Panic NilDereference
      | Directory \<Rightarrow> Ret False
      | Regular \<Rightarrow> Ret True)"

definition dir_stat :: "os_env \<Rightarrow> string \<Rightarrow> bool option" where
  "dir_stat env d =
     (case os_stat env d of NotExist \<Rightarrow> None | StatError \<Rightarrow> None | Directory \<Rightarrow> Some True | Regular \<Rightarrow> Some False)"

text \<open>
  The part both \<open>Read\<close> functions share, up to the decoded artifact; \<open>base\<close> is overwritten with the
  argument, so the joined paths are not used. The second component is the directory.
\<close>

definition read_artifact :: "os_env \<Rightarrow> (bytes \<Rightarrow> 'a option) \<Rightarrow> string \<Rightarrow> (string + 'a \<times> string) go" where
  "read_artifact env unmarshal file =
     bind_go (fileExists env file) (\<lambda>found.
     let dir = filepath_Dir file in
     if (\<not> found \<or> dir = ''.'') \<and> Getwd env = None then Ret (Inl ''getwd'')
     else (case ReadFile env file of
             None \<Rightarrow> Ret (Inl ''read'')
           | Some data \<Rightarrow>
               (case unmarshal data of
                  None \<Rightarrow> Ret (Inl ''yaml'')
                | Some a \<Rightarrow> Ret (Inr (a, dir)))))"

definition pwd_abs :: "os_env \<Rightarrow> string" where
  "pwd_abs env = (case Getwd env of None \<Rightarrow> [] | Some pwd \<Rightarrow> filepath_Abs pwd pwd)"

definition Read :: "os_env \<Rightarrow> (bytes \<Rightarrow> Artifact option) \<Rightarrow> string \<Rightarrow> (string + Artifact) go" where
  "Read env unmarshal file =
     bind_go (read_artifact env unmarshal file) (\<lambda>res.
     case res of
       Inl e \<Rightarrow> Ret (Inl e)
     | Inr (a, dir) \<Rightarrow>
         let a1 = a\<lparr>BaseDir := (if dir = ''.'' then pwd_abs env else filepath_Dir file)\<rparr> in
         (case IsDir (dir_stat env) (BaseDir a1) of
            (_, Some e) \<Rightarrow> Ret (Inl ''stat'')
          | (ok, None) \<Rightarrow> if \<not> ok then Ret (Inl ''can't determien a base dir'') else Ret (Inr a1)))"

definition Lb_Read :: "os_env \<Rightarrow> (bytes \<Rightarrow> LbArtifact option) \<Rightarrow> string \<Rightarrow> (string + LbArtifact) go" where
  "Lb_Read env unmarshal file =
     bind_go (read_artifact env unmarshal file) (\<lambda>res.
     case res of
       Inl e \<Rightarrow> Ret (Inl e)
     | Inr (a, dir) \<Rightarrow> Ret (Inr (a\<lparr>lbBaseDir := (if dir = ''.'' then pwd_abs env else filepath_Base file)\<rparr>)))"

text \<open>The first argument of the program, or the default.\<close>

definition config_file :: "string list \<Rightarrow> string" where
  "config_file args = (case args of [] \<Rightarrow> ''config.yaml'' | a # _ \<Rightarrow> a)"

section \<open>A node of the cluster\<close>

definition raft_bind :: "Controller \<Rightarrow> string" where
  "raft_bind c = GenerateId (cAddress c) (cPort c)"

definition rest_bind :: "Controller \<Rightarrow> string" where
  "rest_bind c = GenerateId (cAddress c) (cRest c)"

definition zero_spec :: ServerSpec where
  "zero_spec = \<lparr>SpecServerID = 0, RaftNetworkBind = [], RestNetworkBind = [], GrpcNetworkBind = [], Basedir = [],
     LogDir = [], MetricBind = []\<rparr>"

definition my_spec :: "string \<Rightarrow> Controller \<Rightarrow> ServerSpec" where
  "my_spec base c = \<lparr>SpecServerID = Hash64 (raft_bind c), RaftNetworkBind = raft_bind c, RestNetworkBind = rest_bind c,
     GrpcNetworkBind = raft_bind c, Basedir = base, LogDir = [], MetricBind = cMetric c\<rparr>"

text \<open>The inner loop: the specification of every other controller, with the metric address of this one.\<close>

definition peer_specs :: "Controller list \<Rightarrow> nat \<Rightarrow> ServerSpec list" where
  "peer_specs cs i =
     map (\<lambda>p. zero_spec\<lparr>RaftNetworkBind := raft_bind (cs ! p), RestNetworkBind := rest_bind (cs ! p),
                GrpcNetworkBind := raft_bind (cs ! p), MetricBind := cMetric (cs ! i)\<rparr>)
       (filter (\<lambda>p. p \<noteq> i) [0..<length cs])"

text \<open>
  The loop over the controllers stops at the first whose two ports can be bound. The state is the own
  specification, those of the peers, the port and the Raft address.
\<close>

fun main_loop ::
  "(string \<Rightarrow> bool) \<Rightarrow> string \<Rightarrow> Controller list \<Rightarrow> nat list \<Rightarrow> ServerSpec \<times> ServerSpec list \<times> string \<times> string
     \<Rightarrow> ServerSpec \<times> ServerSpec list \<times> string \<times> string" where
  "main_loop CheckSocket base cs [] acc = acc"
| "main_loop CheckSocket base cs (i # is) (spec, peers', myPort, raftBinding) =
     (let c = cs ! i in
      if CheckSocket (raft_bind c) \<and> CheckSocket (rest_bind c)
      then (my_spec base c, peer_specs cs i, cPort c, raft_bind c)
      else main_loop CheckSocket base cs is (my_spec base c, peers', myPort, raft_bind c))"

text \<open>\<open>main\<close> up to the call of \<open>Serve\<close>. Resolving the constant address cannot fail.\<close>

definition node_main ::
  "os_env \<Rightarrow> (bytes \<Rightarrow> Artifact option) \<Rightarrow> (string \<Rightarrow> bool) \<Rightarrow> string list \<Rightarrow> 'c Server go" where
  "node_main env unmarshal CheckSocket args =
     bind_go (Read env unmarshal (config_file args)) (\<lambda>res.
     case res of
       Inl e \<Rightarrow> Panic FatalExit
     | Inr artifact \<Rightarrow>
         let cs = Controllers (Formation artifact) in
         if length cs = 0 then Panic FatalExit
         else
           let (spec, peers', myPort, raftBinding) =
                 main_loop CheckSocket (BaseDir artifact) cs [0..<length cs] (zero_spec, [], [], [])
           in if length peers' > length cs then Panic FatalExit
              else if length raftBinding = 0 then Panic FatalExit
              else bind_go (NewServer (dir_stat env) spec peers' myPort True) (\<lambda>srv.
                     case srv of Inl e \<Rightarrow> Panic FatalExit | Inr s \<Rightarrow> Ret s))"

section \<open>The cluster of the tests\<close>

text \<open>
  One server for every controller whose ports are free when the loop gets there. The goroutines append to
  the list in some order; here it is the order of the controllers.
\<close>

definition test_spec :: "string \<Rightarrow> Controller \<Rightarrow> ServerSpec" where
  "test_spec base c = (my_spec base c)\<lparr>MetricBind := []\<rparr>"

definition test_peers :: "Controller list \<Rightarrow> nat \<Rightarrow> ServerSpec list" where
  "test_peers cs i =
     map (\<lambda>p. zero_spec\<lparr>RaftNetworkBind := raft_bind (cs ! p), RestNetworkBind := rest_bind (cs ! p)\<rparr>)
       (filter (\<lambda>p. p \<noteq> i) [0..<length cs])"

fun setup_loop ::
  "(string \<Rightarrow> bool option) \<Rightarrow> (nat \<Rightarrow> string \<Rightarrow> bool) \<Rightarrow> string \<Rightarrow> Controller list \<Rightarrow> nat list \<Rightarrow> 'c Server list go" where
  "setup_loop stat CheckSocket base cs [] = Ret []"
| "setup_loop stat CheckSocket base cs (i # is) =
     (let c = cs ! i in
      if CheckSocket i (raft_bind c) \<and> CheckSocket i (rest_bind c) then
        bind_go (NewServer stat (test_spec base c) (test_peers cs i) (cPort c) False) (\<lambda>srv.
          case srv of
            Inl e \<Rightarrow> Panic FatalExit
          | Inr s \<Rightarrow> bind_go (setup_loop stat CheckSocket base cs is) (\<lambda>ss. Ret (s # ss)))
      else setup_loop stat CheckSocket base cs is)"

definition SetupTestCase ::
  "os_env \<Rightarrow> (bytes \<Rightarrow> Artifact option) \<Rightarrow> (nat \<Rightarrow> string \<Rightarrow> bool) \<Rightarrow> string \<Rightarrow> (string + 'c Server list) go" where
  "SetupTestCase env unmarshal CheckSocket config =
     bind_go (Read env unmarshal config) (\<lambda>res.
     case res of
       Inl e \<Rightarrow> Ret (Inl e)
     | Inr artifact \<Rightarrow>
         let cs = Controllers (Formation artifact) in
         if length cs = 0 then Ret (Inl ''empty controller list'')
         else bind_go (setup_loop (dir_stat env) CheckSocket (BaseDir artifact) cs [0..<length cs]) (\<lambda>ss. Ret (Inr ss)))"

section \<open>The balancer\<close>

definition farm_of :: "LbServer list \<Rightarrow> string list" where
  "farm_of ss = map (\<lambda>s. ''http://'' @ lsAddress s @ '':'' @ lsPort s) ss"

definition api_endpoints :: "LbApi list \<Rightarrow> string list" where
  "api_endpoints api = map (\<lambda>s. ''http://'' @ laAddress s @ '':'' @ laRest s) api"

text \<open>\<open>main\<close> with the part of \<open>Serve\<close> before the health checks and the HTTP server.\<close>

definition lb_main ::
  "os_env \<Rightarrow> (bytes \<Rightarrow> LbArtifact option) \<Rightarrow> net_env \<Rightarrow> string list \<Rightarrow> LoadBalancer go" where
  "lb_main env unmarshal net args =
     bind_go (Lb_Read env unmarshal (config_file args)) (\<lambda>res.
     case res of
       Inl e \<Rightarrow> Panic FatalExit
     | Inr artifact \<Rightarrow>
         let pool = lbPool artifact in
         if length (lpServers pool) = 0 then Panic FatalExit
         else (case NewLoadBalance net (lpBind pool) (farm_of (lpServers pool)) 3 ProbeHttp 2 SourceHash (api_endpoints (lpApi pool)) of
                 Inl e \<Rightarrow> Panic NilDereference
               | Inr lb \<Rightarrow> Ret (lb_Serve net lb)))"

section \<open>What is started\<close>

definition first_free :: "(string \<Rightarrow> bool) \<Rightarrow> Controller list \<Rightarrow> nat option" where
  "first_free free cs = find (\<lambda>i. free (raft_bind (cs ! i)) \<and> free (rest_bind (cs ! i))) [0..<length cs]"

lemma main_loop_find:
  "main_loop free base cs is (spec, ps, port', rb) =
     (case find (\<lambda>i. free (raft_bind (cs ! i)) \<and> free (rest_bind (cs ! i))) is of
        Some i \<Rightarrow> (my_spec base (cs ! i), peer_specs cs i, cPort (cs ! i), raft_bind (cs ! i))
      | None \<Rightarrow> if is = [] then (spec, ps, port', rb) else (my_spec base (cs ! last is), ps, port', raft_bind (cs ! last is)))"
  by (induction "is" arbitrary: spec rb) (auto simp: Let_def split: option.splits)

lemma filter_other_indices: "i < n \<Longrightarrow> filter (\<lambda>p. p \<noteq> i) [0..<n] = [0..<i] @ [Suc i..<n]"
proof -
  assume i: "i < n"
  then have "[0..<n] = [0..<i] @ i # [Suc i..<n]"
    by (metis less_imp_le_nat upt_append_upt upt_conv_Cons)
  then show ?thesis by (simp add: filter_id_conv)
qed

lemma map_other_indices:
  "i < length cs \<Longrightarrow> map (\<lambda>p. f (cs ! p)) (filter (\<lambda>p. p \<noteq> i) [0..<length cs]) = others i (map f cs)"
  by (rule nth_equalityI)
    (auto simp: filter_other_indices others_def nth_append min_def take_map drop_map)

lemma binds_peer_specs:
  "i < length cs \<Longrightarrow> binds (peer_specs cs i) = others i (map raft_bind cs)"
  "i < length cs \<Longrightarrow> binds (test_peers cs i) = others i (map raft_bind cs)"
  by (simp_all add: binds_def peer_specs_def test_peers_def comp_def map_other_indices)

lemma length_others: "i < length xs \<Longrightarrow> length (others i xs) = length xs - 1"
  by (simp add: others_def)

lemma length_peer_specs: "i < length cs \<Longrightarrow> length (peer_specs cs i) = length cs - 1"
  using arg_cong [OF binds_peer_specs(1), of i cs length] by (simp add: binds_def length_others)

lemma first_free_Some: "first_free free cs = Some i \<Longrightarrow> i < length cs \<and> free (raft_bind (cs ! i)) \<and> free (rest_bind (cs ! i))"
  by (auto simp: first_free_def find_Some_iff)

lemma raft_bind_nonempty: "raft_bind c \<noteq> []"
  by (simp add: raft_bind_def GenerateId_def)

text \<open>The start from a configuration that was read.\<close>

lemma node_main_outcome:
  assumes "Read env unmarshal (config_file args) = Ret (Inr a)" "Controllers (Formation a) = cs" "cs \<noteq> []"
  shows "node_main env unmarshal free args =
    (case first_free free cs of
       None \<Rightarrow> Panic FatalExit
     | Some i \<Rightarrow> bind_go (NewServer (dir_stat env) (my_spec (BaseDir a) (cs ! i)) (peer_specs cs i) (cPort (cs ! i)) True)
         (\<lambda>srv. case srv of Inl e \<Rightarrow> Panic FatalExit | Inr s \<Rightarrow> Ret s))"
proof (cases "first_free free cs")
  case None
  then show ?thesis
    using assms by (simp add: node_main_def main_loop_find first_free_def raft_bind_nonempty NewServer_def Let_def)
next
  case (Some i)
  have "length (peer_specs cs i) \<le> length cs" using first_free_Some [OF Some] by (simp add: length_peer_specs)
  then show ?thesis
    using assms Some by (simp add: node_main_def main_loop_find first_free_def raft_bind_nonempty)
qed

text \<open>A server built for controller \<open>i\<close> knows all the others.\<close>

lemma started_config:
  assumes new: "NewServer stat spec ps port' on = Ret (Inr s)" and r: "raftState s = Some r"
    and i: "i < length cs" and b: "RaftNetworkBind spec = raft_bind (cs ! i)" "binds ps = others i (map raft_bind cs)"
    and d: "distinct (map raft_bind cs)" "inj_on server_hash (raft_bind ` set cs)"
  shows "config_ok r \<and> cluster_ids r = server_hash ` raft_bind ` set cs \<and> numberPeers r = int (length cs) - 1"
proof -
  let ?bs = "map raft_bind cs"
  have all: "binds (spec # ps) = ?bs ! i # others i ?bs" using b i by (simp add: binds_def)
  have "set (binds (spec # ps)) = set ?bs" unfolding all using set_others [of i ?bs] i by simp
  moreover have "distinct (binds (spec # ps))" unfolding all using distinct_others [of i ?bs] i d(1) by simp
  moreover have "length ps = length cs - 1"
    using arg_cong [OF b(2), of length] i by (simp add: binds_def length_others)
  ultimately show ?thesis using NewServer_config [OF new _ _ r] d(2) i by (simp add: of_nat_diff)
qed

lemma node_main_config:
  assumes "node_main env unmarshal free args = Ret s" "Read env unmarshal (config_file args) = Ret (Inr a)"
    and "Controllers (Formation a) = cs" "distinct (map raft_bind cs)" "inj_on server_hash (raft_bind ` set cs)"
    and "raftState s = Some r"
  shows "\<exists>i. first_free free cs = Some i \<and> serverId s = server_hash (raft_bind (cs ! i)) \<and> serverState s = Init \<and>
    config_ok r \<and> cluster_ids r = server_hash ` raft_bind ` set cs \<and> numberPeers r = int (length cs) - 1"
proof -
  have ne: "cs \<noteq> []" using assms(1-3) by (auto simp: node_main_def)
  from assms(1) [unfolded node_main_outcome [OF assms(2,3) ne]] obtain i where i: "first_free free cs = Some i"
    and new: "NewServer (dir_stat env) (my_spec (BaseDir a) (cs ! i)) (peer_specs cs i) (cPort (cs ! i)) True = Ret (Inr s)"
    by (auto simp: bind_go_def split: option.splits go.splits sum.splits)
  have "i < length cs" using first_free_Some [OF i] by blast
  then show ?thesis
    using started_config [OF new assms(6) _ _ _ assms(4,5), of i] binds_peer_specs(1) [of i cs] NewServer_Ret [OF new] i
    by (simp add: my_spec_def)
qed

text \<open>Every server the tests start knows all the controllers, too.\<close>

lemma setup_loop_config:
  assumes "setup_loop stat free base cs is = Ret ss" "s \<in> set ss" "raftState s = Some r" "set is \<subseteq> {0..<length cs}"
    and "distinct (map raft_bind cs)" "inj_on server_hash (raft_bind ` set cs)"
  shows "config_ok r \<and> cluster_ids r = server_hash ` raft_bind ` set cs \<and> numberPeers r = int (length cs) - 1"
  using assms(1,2,4)
proof (induction "is" arbitrary: ss)
  case (Cons i "is")
  show ?case
  proof (cases "free i (raft_bind (cs ! i)) \<and> free i (rest_bind (cs ! i))")
    case True
    with Cons.prems(1) obtain s0 ss' where
      new: "NewServer stat (test_spec base (cs ! i)) (test_peers cs i) (cPort (cs ! i)) False = Ret (Inr s0)"
      and ss: "setup_loop stat free base cs is = Ret ss'" "ss = s0 # ss'"
      by (auto simp: Let_def bind_go_def split: go.splits sum.splits)
    have i: "i < length cs" using Cons.prems(3) by simp
    have "RaftNetworkBind (test_spec base (cs ! i)) = raft_bind (cs ! i)" by (simp add: test_spec_def my_spec_def)
    then show ?thesis
      using started_config [OF new _ i _ binds_peer_specs(2) [OF i] assms(5,6)] Cons.IH [OF ss(1)] Cons.prems(2,3) ss(2) assms(3)
      by auto
  next
    case False
    then show ?thesis using Cons by (auto simp: Let_def)
  qed
qed simp

lemma lb_main_pool:
  assumes "lb_main env unmarshal net args = Ret lb" "Lb_Read env unmarshal (config_file args) = Ret (Inr a)"
  shows "members (serverPool lb) =
    map (\<lambda>u. \<lparr>URL = u, Alive = True\<rparr>) (List.map_filter (parseURL net) (farm_of (lpServers (lbPool a)))) \<and>
    poolSize (serverPool lb) = of_nat (length (members (serverPool lb))) \<and>
    lb_method lb = SourceHash \<and> maxRetry lb = 3"
  using assms
  by (auto simp: lb_main_def Let_def NewLoadBalance_def farm_of_def lb_Serve_def buildServerPools_def build_loop_members
      build_loop_size split: if_splits)

end
