(* ===== verification/Flow.thy ===== *)
theory Flow
  imports Go_Prelude
begin

text \<open>
  The packet headers and checksums of \<open>pkg/flow/flow_headers.go\<close> and the packets the traffic generator
  of \<open>pkg/simulator/main/traffic-gen.go\<close> builds from the lines it reads. An array \<open>[4]byte\<close> is a tuple.
  The parsed flags are arguments; sockets are left out, so a packet is the list of bytes
  handed to \<open>Sendto\<close>.
\<close>

section \<open>Headers\<close>

record Hdr =
  SrcPort :: string
  DstPort :: string
  SrcIp :: string
  DstIp :: string
  HdrProto :: string

type_synonym byte4 = "u8 \<times> u8 \<times> u8 \<times> u8"

record Iphdr =
  Vhl :: u8
  Tos :: u8
  Iplen :: u16
  IpId :: u16
  Off :: u16
  Ttl :: u8
  IpProto :: u8
  IpCsum :: u16
  IpSrc :: byte4
  IpDst :: byte4

record Udphdr =
  UdpSrc :: u16
  UdpDst :: u16
  Ulen :: u16
  UdpCsum :: u16

record Pseudohdr =
  Ipsrc :: byte4
  Ipdst :: byte4
  Zero :: u8
  Ipproto :: u8
  Plen :: u16

text \<open>\<open>binary.Write\<close> with \<open>binary.BigEndian\<close>: the fields of a struct in their order.\<close>

definition be16 :: "u16 \<Rightarrow> bytes" where
  "be16 v = [ucast (drop_bit 8 v), ucast v]"

fun be4 :: "byte4 \<Rightarrow> bytes" where
  "be4 (a, b, c, d) = [a, b, c, d]"

definition write_ip :: "Iphdr \<Rightarrow> bytes" where
  "write_ip h = [Vhl h, Tos h] @ be16 (Iplen h) @ be16 (IpId h) @ be16 (Off h) @ [Ttl h, IpProto h] @
     be16 (IpCsum h) @ be4 (IpSrc h) @ be4 (IpDst h)"

definition write_udp :: "Udphdr \<Rightarrow> bytes" where
  "write_udp u = be16 (UdpSrc u) @ be16 (UdpDst u) @ be16 (Ulen u) @ be16 (UdpCsum u)"

definition write_pseudo :: "Pseudohdr \<Rightarrow> bytes" where
  "write_pseudo p = be4 (Ipsrc p) @ be4 (Ipdst p) @ [Zero p, Ipproto p] @ be16 (Plen p)"

section \<open>Checksums\<close>

text \<open>The first loop and the odd byte after it.\<close>

fun sum_words :: "bytes \<Rightarrow> u32 \<Rightarrow> u32" where
  "sum_words (a # b # buf) acc = sum_words buf (acc + (push_bit 8 (ucast a) OR ucast b))"
| "sum_words [a] acc = acc + push_bit 8 (ucast a)"
| "sum_words [] acc = acc"

text \<open>The loop that adds the carries back.\<close>

lemma unat_split16: "unat acc = 65536 * unat (drop_bit 16 acc) + unat (acc AND 0xffff)" for acc :: u32
proof -
  have "acc AND 0xffff = acc mod 65536"
    using take_bit_eq_mask [of 16 acc] take_bit_eq_mod [of 16 acc] by (simp add: mask_eq_exp_minus_1)
  moreover have "drop_bit 16 acc = acc div 65536" using drop_bit_eq_div [of 16 acc] by simp
  ultimately show ?thesis by (simp add: unat_div unat_mod)
qed

lemma unat_add_carry:
  "unat (drop_bit 16 acc + (acc AND 0xffff)) = unat (drop_bit 16 acc) + unat (acc AND 0xffff)" for acc :: u32
proof -
  have "unat acc < 4294967296" using unsigned_less [of acc, where ?'a = nat] by simp
  then have "unat (drop_bit 16 acc) + unat (acc AND 0xffff) < 4294967296"
    using unat_split16 [of acc] by linarith
  then show ?thesis by (simp add: unat_word_ariths)
qed

lemma less_iff_unat: "acc > 0xffff \<longleftrightarrow> unat acc > 65535" for acc :: u32
  by (simp add: word_less_nat_alt)

function fold_carry :: "u32 \<Rightarrow> u32" where
  "fold_carry acc = (if acc > 0xffff then fold_carry (drop_bit 16 acc + (acc AND 0xffff)) else acc)"
  by pat_completeness auto
termination
proof (relation "measure unat", goal_cases)
  case (2 acc)
  then have "unat acc > 65535" by (simp only: less_iff_unat)
  moreover have "unat (acc AND 0xffff) < 65536"
    using and_mask_less_size [of 16 acc] by (simp add: word_less_nat_alt word_size mask_eq_exp_minus_1)
  ultimately have "unat (drop_bit 16 acc) > 0" using unat_split16 [of acc] by linarith
  then show ?case using unat_split16 [of acc] unat_add_carry [of acc] by simp
qed simp

declare fold_carry.simps [simp del]

definition checksum :: "bytes \<Rightarrow> u16" where
  "checksum buf =
     (let csum = NOT (ucast (fold_carry (sum_words buf 0)) :: u16)
      in if csum = 0 then 0xffff else csum)"

definition Iphdr_Checksum :: "Iphdr \<Rightarrow> Iphdr" where
  "Iphdr_Checksum h = (let h0 = h\<lparr>IpCsum := 0\<rparr> in h0\<lparr>IpCsum := checksum (write_ip h0)\<rparr>)"

definition Udphdr_Checksum :: "Iphdr \<Rightarrow> bytes \<Rightarrow> Udphdr \<Rightarrow> Udphdr" where
  "Udphdr_Checksum ip payload u =
     (let u0 = u\<lparr>UdpCsum := 0\<rparr>;
          phdr = \<lparr>Ipsrc = IpSrc ip, Ipdst = IpDst ip, Zero = 0, Ipproto = IpProto ip, Plen = Ulen u0\<rparr>
      in u0\<lparr>UdpCsum := checksum (write_pseudo phdr @ write_udp u0 @ payload)\<rparr>)"

section \<open>The traffic generator\<close>

text \<open>\<open>copy(dst[:], src)\<close> into an array of four bytes.\<close>

fun copy4 :: "byte4 \<Rightarrow> bytes \<Rightarrow> byte4" where
  "copy4 (a, b, c, d) src =
     (let at = (\<lambda>i old. if i < length src then src ! i else old) in (at 0 a, at 1 b, at 2 c, at 3 d))"

text \<open>The headers before the loop; the addresses are the results of \<open>To4\<close>, empty when it returns nil.\<close>

definition gen_ip :: "bytes \<Rightarrow> bytes \<Rightarrow> Iphdr" where
  "gen_ip src4 dst4 = \<lparr>Vhl = 0x45, Tos = 0, Iplen = 0, IpId = 0x1234, Off = 0, Ttl = 64, IpProto = 17, IpCsum = 0,
     IpSrc = copy4 (0, 0, 0, 0) src4, IpDst = copy4 (0, 0, 0, 0) dst4\<rparr>"

definition gen_udp :: "u64 \<Rightarrow> u64 \<Rightarrow> Udphdr" where
  "gen_udp udpsrc udpdst = \<lparr>UdpSrc = ucast udpsrc, UdpDst = ucast udpdst, Ulen = 0, UdpCsum = 0\<rparr>"

fun swap23 :: "bytes \<Rightarrow> bytes" where
  "swap23 (a # b # c # d # bb) = a # b # d # c # bb"
| "swap23 bb = bb"

text \<open>One round of the loop, from the line read to the bytes handed to \<open>Sendto\<close>; a long line is skipped.\<close>

definition gen_line :: "bool \<Rightarrow> bytes \<Rightarrow> Iphdr \<Rightarrow> Udphdr \<Rightarrow> bytes option \<times> Iphdr \<times> Udphdr" where
  "gen_line darwin payload ip udp =
     (let udplen = 8 + length payload; totalLen = 20 + udplen in
      if totalLen > 0xffff then (None, ip, udp)
      else
        let ip1 = Iphdr_Checksum (ip\<lparr>Iplen := of_nat totalLen\<rparr>);
            udp1 = Udphdr_Checksum ip1 payload (udp\<lparr>Ulen := of_nat udplen\<rparr>);
            bb = write_ip ip1 @ write_udp udp1 @ payload
        in (Some (if darwin then swap23 bb else bb), ip1, udp1))"

text \<open>
  The input comes in chunks, the results of successive reads of the operating system. Every round makes a new buffered
  reader, and \<open>ReadString\<close> reads chunks until one has a newline (10). What follows the newline in this chunk is lost
  with the reader. At the end of the input, with or without bytes read before it, the call fails.
\<close>

fun read_line :: "bytes list \<Rightarrow> bytes \<Rightarrow> (bytes \<times> bytes list) option" where
  "read_line [] acc = None"
| "read_line (c # cs) acc =
     (if 10 \<in> set c then Some (acc @ takeWhile (\<lambda>b. b \<noteq> 10) c @ [10], cs) else read_line cs (acc @ c))"

lemma read_line_shorter: "read_line cs acc = Some (line, rest) \<Longrightarrow> length rest < length cs"
  by (induction cs acc rule: read_line.induct) (auto split: if_splits)

function gen_loop :: "bool \<Rightarrow> bytes list \<Rightarrow> Iphdr \<Rightarrow> Udphdr \<Rightarrow> bytes list" where
  "gen_loop darwin chunks ip udp =
     (case read_line chunks [] of
        None \<Rightarrow> []
      | Some (line, rest) \<Rightarrow>
          (case gen_line darwin line ip udp of
             (None, ip1, udp1) \<Rightarrow> gen_loop darwin rest ip1 udp1
           | (Some bb, ip1, udp1) \<Rightarrow> bb # gen_loop darwin rest ip1 udp1))"
  by auto
termination by (relation "measure (\<lambda>(darwin, chunks, ip, udp). length chunks)") (auto dest: read_line_shorter)

declare gen_loop.simps [simp del]

text \<open>
  The program, from the flags to the end of its input: the packets handed to \<open>Sendto\<close>. The operating
  system tells whether the socket is created, configured and closed; a failure exits.
\<close>

definition gen_main ::
  "(string \<Rightarrow> bytes option) \<Rightarrow> bool \<Rightarrow> bool \<Rightarrow> bool \<Rightarrow> bool \<Rightarrow> string \<Rightarrow> string \<Rightarrow> u64 \<Rightarrow> u64 \<Rightarrow> bytes list \<Rightarrow> bytes list go" where
  "gen_main parse4 socket_ok hdrincl_ok close_ok darwin ipsrcstr ipdststr udpsrc udpdst chunks =
     (case parse4 ipsrcstr of
        None \<Rightarrow> Panic FatalExit
      | Some ipsrc \<Rightarrow>
          (case parse4 ipdststr of
             None \<Rightarrow> Panic FatalExit
           | Some ipdst \<Rightarrow>
               if \<not> socket_ok \<or> \<not> hdrincl_ok then Panic FatalExit
               else
                 let sent = gen_loop darwin chunks (gen_ip ipsrc ipdst) (gen_udp udpsrc udpdst)
                 in if close_ok then Ret sent else Panic FatalExit))"

section \<open>The checksum is the one's complement sum\<close>

text \<open>The reference: the big-endian 16-bit words as numbers, the last one padded with zero bits.\<close>

fun word_sum :: "bytes \<Rightarrow> nat" where
  "word_sum (a # b # buf) = 256 * unat a + unat b + word_sum buf"
| "word_sum [a] = 256 * unat a"
| "word_sum [] = 0"

lemma u8_less: "unat (a::u8) < 256"
  using unsigned_less [of a, where ?'a = nat] by simp

lemma unat_ucast_u8: "unat (ucast (a::u8) :: u32) = unat a"
  by (simp add: unsigned_ucast_eq take_bit_nat_eq_self u8_less order_less_trans [OF u8_less])

lemma unat_push8: "unat (push_bit 8 (ucast (a::u8)) :: u32) = 256 * unat a"
proof -
  have "256 * unat a < 4294967296" using u8_less [of a] by linarith
  then show ?thesis
    by (simp add: push_bit_eq_mult unat_word_ariths unat_ucast_u8)
qed

lemma or_is_add: "push_bit 8 (ucast (a::u8)) OR ucast (b::u8) = (push_bit 8 (ucast a) + ucast b :: u32)"
proof (rule disjunctive_add [symmetric])
  fix n
  show "\<not> bit (push_bit 8 (ucast a) :: u32) n \<or> \<not> bit (ucast b :: u32) n"
    by (auto simp: bit_simps dest: bit_imp_le_length)
qed

lemma unat_word16: "unat (push_bit 8 (ucast (a::u8)) OR ucast (b::u8) :: u32) = 256 * unat a + unat b"
proof -
  have "256 * unat a + unat b < 4294967296" using u8_less [of a] u8_less [of b] by linarith
  then show ?thesis by (simp add: or_is_add unat_word_ariths unat_push8 unat_ucast_u8)
qed

lemma word_sum_bound: "word_sum buf \<le> 65535 * ((length buf + 1) div 2)"
proof (induction buf rule: word_sum.induct)
  case (1 a b buf)
  then show ?case using u8_less [of a] u8_less [of b] by simp
next
  case (2 a)
  then show ?case using u8_less [of a] by simp
qed simp

lemma sum_words_sum: "unat s + word_sum buf < 2 ^ 32 \<Longrightarrow> unat (sum_words buf s) = unat s + word_sum buf"
proof (induction buf s rule: sum_words.induct)
  case (1 a b buf s)
  then have "unat s + (256 * unat a + unat b) < 2 ^ 32" by simp
  then have "unat (s + (push_bit 8 (ucast a) OR ucast b)) = unat s + (256 * unat a + unat b)"
    by (simp add: unat_word_ariths unat_word16)
  then show ?case using 1 by simp
next
  case (2 a s)
  then show ?case by (simp add: unat_word_ariths unat_push8)
qed simp

text \<open>A packet has at most 65535 bytes, so the accumulator does not overflow.\<close>

lemma sum_words_packet: "length buf \<le> 131072 \<Longrightarrow> unat (sum_words buf 0) = word_sum buf"
  using word_sum_bound [of buf] sum_words_sum [of 0 buf] by simp

lemma fold_carry_spec:
  "unat (fold_carry s) \<le> 65535 \<and> unat (fold_carry s) mod 65535 = unat s mod 65535 \<and> (fold_carry s = 0 \<longleftrightarrow> s = 0)"
proof (induction s rule: fold_carry.induct)
  case (1 s)
  show ?case
  proof (cases "s > 0xffff")
    case True
    let ?t = "drop_bit 16 s + (s AND 0xffff)"
    have "unat s = 65535 * unat (drop_bit 16 s) + unat ?t"
      using unat_split16 [of s] unat_add_carry [of s] by linarith
    then have "unat s mod 65535 = unat ?t mod 65535" by simp
    moreover have "?t \<noteq> 0"
    proof
      assume "?t = 0"
      then have "unat (drop_bit 16 s) + unat (s AND 0xffff) = 0" using unat_add_carry [of s] by simp
      then have "unat s = 0" using unat_split16 [of s] by simp
      then show False using True by (simp add: less_iff_unat)
    qed
    ultimately show ?thesis using 1 [OF True] True by (auto simp: fold_carry.simps [of s])
  next
    case False
    then show ?thesis by (simp add: fold_carry.simps [of s] less_iff_unat)
  qed
qed

lemma unat_not_u16: "unat (NOT w) = 65535 - unat w" for w :: u16
proof -
  have "NOT w = -1 - w" by (simp add: not_eq_complement)
  then show ?thesis using unat_sub [of w "-1"] by (simp add: unsigned_minus_1_eq_mask mask_eq_exp_minus_1)
qed

lemma checksum_value:
  assumes "length buf \<le> 131072"
  shows "unat (checksum buf) = 65535 - word_sum buf mod 65535"
proof -
  let ?f = "fold_carry (sum_words buf 0)"
  have le: "unat ?f \<le> 65535" and m: "unat ?f mod 65535 = word_sum buf mod 65535"
    using fold_carry_spec [of "sum_words buf 0"] sum_words_packet [OF assms] by simp_all
  have low: "unat (ucast ?f :: u16) = unat ?f"
    using le by (simp add: unsigned_ucast_eq take_bit_nat_eq_self)
  have neg: "unat (NOT (ucast ?f :: u16)) = 65535 - unat ?f"
    by (simp only: unat_not_u16 low)
  show ?thesis
  proof (cases "unat ?f = 65535")
    case True
    then have "NOT (ucast ?f :: u16) = 0" using neg by (simp add: unat_eq_zero)
    then show ?thesis using m True by (simp add: checksum_def)
  next
    case False
    then have "unat (NOT (ucast ?f :: u16)) \<noteq> 0" using neg le by simp
    then have "NOT (ucast ?f :: u16) \<noteq> 0" by auto
    moreover have "unat ?f mod 65535 = unat ?f" using le False by simp
    ultimately show ?thesis using m neg by (simp add: checksum_def)
  qed
qed

section \<open>What a receiver checks\<close>

text \<open>The one's complement sum over a protected region, checksum included, is all ones.\<close>

definition verifies :: "bytes \<Rightarrow> bool" where
  "verifies buf \<longleftrightarrow> fold_carry (sum_words buf 0) = 0xffff"

lemma verifies_iff:
  assumes "length buf \<le> 131072"
  shows "verifies buf \<longleftrightarrow> word_sum buf \<noteq> 0 \<and> word_sum buf mod 65535 = 0"
proof -
  let ?s = "sum_words buf 0" and ?f = "fold_carry (sum_words buf 0)"
  note s = sum_words_packet [OF assms] and f = fold_carry_spec [of ?s]
  have "?f = 0xffff \<longleftrightarrow> unat ?f = 65535" by (simp add: word_unat_eq_iff)
  also have "\<dots> \<longleftrightarrow> unat ?f \<noteq> 0 \<and> unat ?f mod 65535 = 0"
    using f by (metis bot_nat_0.not_eq_extremum dvd_imp_le le_antisym mod_0_imp_dvd mod_self zero_neq_numeral)
  also have "\<dots> \<longleftrightarrow> word_sum buf \<noteq> 0 \<and> word_sum buf mod 65535 = 0"
    using f s by (metis unat_eq_zero)
  finally show ?thesis by (simp add: verifies_def)
qed

lemma word_sum_append: "even (length xs) \<Longrightarrow> word_sum (xs @ ys) = word_sum xs + word_sum ys"
  by (induction xs rule: word_sum.induct) auto

lemma word_sum_be16: "word_sum (be16 v) = unat v"
proof -
  have "unat (ucast (drop_bit 8 v) :: u8) = unat v div 256" "unat (ucast v :: u8) = unat v mod 256"
    using unsigned_less [of v, where ?'a = nat]
    by (simp_all add: unsigned_ucast_eq unsigned_drop_bit_eq drop_bit_eq_div take_bit_eq_mod unat_div)
  then show ?thesis by (simp add: be16_def)
qed

lemma length_be [simp]: "length (be16 v) = 2" "length (be4 a) = 4"
  by (simp add: be16_def, cases a, simp)

lemma length_write [simp]: "length (write_ip h) = 20" "length (write_udp u) = 8" "length (write_pseudo p) = 12"
  by (simp_all add: write_ip_def write_udp_def write_pseudo_def)

text \<open>Filling a zero checksum field makes a region verify.\<close>

lemma checksum_fills:
  assumes "length buf0 \<le> 131072" "length buf = length buf0" "word_sum buf = word_sum buf0 + unat (checksum buf0)"
  shows "verifies buf"
proof -
  let ?s = "word_sum buf0"
  have "?s mod 65535 < 65535" by simp
  then have w: "word_sum buf = ?s + (65535 - ?s mod 65535)" "0 < 65535 - ?s mod 65535"
    using assms checksum_value [of buf0] by simp_all
  have "(?s + (65535 - ?s mod 65535)) mod 65535 = 0"
    by (metis \<open>?s mod 65535 < 65535\<close> le_add_diff_inverse less_or_eq_imp_le mod_add_left_eq mod_self)
  then show ?thesis using w assms(1,2) by (simp add: verifies_iff)
qed

lemma Iphdr_Checksum_verifies: "verifies (write_ip (Iphdr_Checksum h))"
  by (rule checksum_fills [of "write_ip (h\<lparr>IpCsum := 0\<rparr>)"])
    (simp_all add: Iphdr_Checksum_def Let_def write_ip_def word_sum_append word_sum_be16)

definition pseudo_of :: "Iphdr \<Rightarrow> Udphdr \<Rightarrow> Pseudohdr" where
  "pseudo_of ip u = \<lparr>Ipsrc = IpSrc ip, Ipdst = IpDst ip, Zero = 0, Ipproto = IpProto ip, Plen = Ulen u\<rparr>"

lemma Udphdr_Checksum_verifies:
  assumes "length payload \<le> 0xffff"
  shows "verifies (write_pseudo (pseudo_of ip u) @ write_udp (Udphdr_Checksum ip payload u) @ payload)"
  by (rule checksum_fills [of "write_pseudo (pseudo_of ip u) @ write_udp (u\<lparr>UdpCsum := 0\<rparr>) @ payload"])
    (use assms in \<open>simp_all add: Udphdr_Checksum_def Let_def write_udp_def word_sum_append word_sum_be16 pseudo_of_def\<close>)

text \<open>
  What a receiver reads off the bytes of a packet: the lengths, the header checksum, and the checksum over
  the pseudo header (addresses, protocol and length, taken from the packet), the UDP header and the
  payload.
\<close>

definition packet_ok :: "bytes \<Rightarrow> bytes \<Rightarrow> bool" where
  "packet_ok payload pkt \<longleftrightarrow>
     length pkt = 28 + length payload \<and> length pkt \<le> 0xffff \<and> drop 28 pkt = payload \<and>
     take 2 (drop 2 pkt) = be16 (of_nat (length pkt)) \<and> take 2 (drop 24 pkt) = be16 (of_nat (length pkt - 20)) \<and>
     verifies (take 20 pkt) \<and>
     verifies (take 8 (drop 12 pkt) @ [0, pkt ! 9] @ take 2 (drop 24 pkt) @ drop 20 pkt)"

definition line_fits :: "bytes \<Rightarrow> bool" where
  "line_fits payload \<longleftrightarrow> 28 + length payload \<le> 0xffff"

text \<open>The pieces of the bytes of a packet.\<close>

lemma packet_pieces:
  fixes ip udp payload
  defines "pkt \<equiv> write_ip ip @ write_udp udp @ payload"
  shows "take 20 pkt = write_ip ip" "drop 20 pkt = write_udp udp @ payload" "drop 28 pkt = payload"
    "take 2 (drop 2 pkt) = be16 (Iplen ip)" "take 2 (drop 24 pkt) = be16 (Ulen udp)"
    "take 8 (drop 12 pkt) @ [0, pkt ! 9] @ take 2 (drop 24 pkt) = write_pseudo (pseudo_of ip udp)"
  by (cases "IpSrc ip"; cases "IpDst ip";
      simp add: pkt_def write_ip_def write_udp_def write_pseudo_def pseudo_of_def be16_def)+

lemma pseudo_of_checksum [simp]:
  "pseudo_of ip (Udphdr_Checksum ip' payload u) = pseudo_of ip u"
  by (simp add: pseudo_of_def Udphdr_Checksum_def Let_def)

lemma checksum_keeps_lengths [simp]:
  "Iplen (Iphdr_Checksum h) = Iplen h" "Ulen (Udphdr_Checksum ip payload u) = Ulen u"
  by (simp_all add: Iphdr_Checksum_def Udphdr_Checksum_def Let_def)

lemma swap23_twice: "swap23 (swap23 bb) = bb"
  by (cases bb rule: swap23.cases) simp_all

lemma gen_line_packet:
  assumes "line_fits payload"
  obtains pkt ip1 udp1 where "gen_line darwin payload ip udp = (Some pkt, ip1, udp1)" "packet_ok payload (if darwin then swap23 pkt else pkt)"
proof -
  let ?ip = "Iphdr_Checksum (ip\<lparr>Iplen := of_nat (20 + (8 + length payload))\<rparr>)"
  let ?u = "udp\<lparr>Ulen := of_nat (8 + length payload)\<rparr>"
  let ?udp = "Udphdr_Checksum ?ip payload ?u"
  let ?pkt = "write_ip ?ip @ write_udp ?udp @ payload"
  have gen: "gen_line darwin payload ip udp = (Some (if darwin then swap23 ?pkt else ?pkt), ?ip, ?udp)"
    using assms by (simp add: gen_line_def Let_def line_fits_def)
  have udp_ok: "verifies (write_pseudo (pseudo_of ?ip ?udp) @ write_udp ?udp @ payload)"
    using Udphdr_Checksum_verifies [of payload ?ip ?u] assms by (simp add: line_fits_def)
  have "take 8 (drop 12 ?pkt) @ [0, ?pkt ! 9] @ take 2 (drop 24 ?pkt) @ drop 20 ?pkt =
      write_pseudo (pseudo_of ?ip ?udp) @ write_udp ?udp @ payload"
    using packet_pieces(6) [of ?ip ?udp payload] packet_pieces(2) [of ?ip ?udp payload]
    by (simp only: append_assoc [symmetric])
  with udp_ok have "verifies (take 8 (drop 12 ?pkt) @ [0, ?pkt ! 9] @ take 2 (drop 24 ?pkt) @ drop 20 ?pkt)"
    by (simp only:)
  moreover have len: "length ?pkt = 28 + length payload" by simp
  moreover have "verifies (take 20 ?pkt)" using Iphdr_Checksum_verifies by (simp only: packet_pieces)
  moreover have "take 2 (drop 2 ?pkt) = be16 (of_nat (length ?pkt))" "take 2 (drop 24 ?pkt) = be16 (of_nat (length ?pkt - 20))"
    "drop 28 ?pkt = payload"
    unfolding packet_pieces len by simp_all
  ultimately have "packet_ok payload ?pkt"
    using assms unfolding packet_ok_def line_fits_def by (simp only: len)
  moreover have "swap23 (swap23 ?pkt) = ?pkt" by (rule swap23_twice)
  ultimately show ?thesis using that [OF gen] by (cases darwin) simp_all
qed

lemma gen_line_skips: "\<not> line_fits payload \<Longrightarrow> gen_line darwin payload ip udp = (None, ip, udp)"
  by (simp add: gen_line_def Let_def line_fits_def)

text \<open>The lines that the rounds of the loop read.\<close>

function read_lines :: "bytes list \<Rightarrow> bytes list" where
  "read_lines chunks =
     (case read_line chunks [] of None \<Rightarrow> [] | Some (line, rest) \<Rightarrow> line # read_lines rest)"
  by auto
termination by (relation "measure length") (auto dest: read_line_shorter)

declare read_lines.simps [simp del]

text \<open>
  One packet for every line read that fits, in order. On Darwin the length field is in host byte order when the packet
  is handed to the kernel, which puts it in network order.
\<close>

lemma gen_loop_packets:
  "list_all2 (\<lambda>line pkt. packet_ok line (if darwin then swap23 pkt else pkt))
     (filter line_fits (read_lines chunks)) (gen_loop darwin chunks ip udp)"
proof (induction chunks arbitrary: ip udp rule: read_lines.induct)
  case (1 chunks)
  show ?case
  proof (cases "read_line chunks []")
    case None
    then show ?thesis by (simp add: gen_loop.simps [of _ chunks] read_lines.simps [of chunks])
  next
    case (Some lr)
    obtain line rest where lr: "lr = (line, rest)" by (cases lr)
    note IH = 1 [OF Some, unfolded lr, OF refl]
    note unfold = gen_loop.simps [of _ chunks] read_lines.simps [of chunks] Some lr
    show ?thesis
    proof (cases "line_fits line")
      case True
      then obtain pkt ip1 udp1 where "gen_line darwin line ip udp = (Some pkt, ip1, udp1)"
        "packet_ok line (if darwin then swap23 pkt else pkt)"
        by (rule gen_line_packet)
      then show ?thesis using IH [of ip1 udp1] True by (simp add: unfold)
    next
      case False
      then show ?thesis using IH by (simp add: unfold gen_line_skips)
    qed
  qed
qed

text \<open>
  A chunk that is a line is read as such, which is how a terminal delivers its input; of the lines in a chunk only the
  first is read, which is how a pipe or a file can deliver them.
\<close>

definition is_line :: "bytes \<Rightarrow> bool" where
  "is_line l \<longleftrightarrow> l \<noteq> [] \<and> last l = 10 \<and> 10 \<notin> set (butlast l)"

lemma read_line_chunk:
  assumes "is_line l"
  shows "read_line ((l @ xs) # cs) [] = Some (l, cs)"
proof -
  have l: "l = butlast l @ [10]" using assms by (metis append_butlast_last_id is_line_def)
  have "takeWhile (\<lambda>b. b \<noteq> 10) (butlast l @ [10] @ xs) = butlast l"
    using assms by (subst takeWhile_append2) (auto simp: is_line_def)
  then have "takeWhile (\<lambda>b. b \<noteq> 10) (l @ xs) @ [10] = l" using l by (metis append_assoc)
  moreover have "10 \<in> set l" by (subst l) simp
  ultimately show ?thesis by simp
qed

lemma read_lines_first: "is_line l \<Longrightarrow> read_lines ((l @ xs) # cs) = l # read_lines cs"
  by (simp add: read_lines.simps [of "(l @ xs) # cs"] read_line_chunk del: read_line.simps)

lemma read_lines_terminal: "\<forall>c \<in> set cs. is_line c \<Longrightarrow> read_lines cs = cs"
proof (induction cs)
  case Nil
  then show ?case by (simp add: read_lines.simps [of "[]"])
next
  case (Cons c cs)
  then show ?case using read_lines_first [of c "[]" cs] by simp
qed

end
