(* ===== verification/Sniffer.thy ===== *)
theory Sniffer
  imports Bootstrap Flow Rest_Net "HOL-Library.Multiset"
begin

text \<open>
  The sniffer of \<open>pkg/sniffer/main/sniffer.go\<close>: capturing packets into a table of flows and publishing the
  table through the REST client. The packet library is an argument: a packet has a transport layer with
  its flow hash and a network layer, either possibly missing, and the packets come as the list the source
  yields until it is closed. Encoding with \<open>gob\<close> is an argument too. A goroutine of \<open>start\<close> is one round of
  its loop; flags and signals are left out.
\<close>

section \<open>The sniffer\<close>

record transport_layer =
  FastHash :: u64
  flowSrc :: string
  flowDst :: string
  LayerType :: string

record packet =
  TransportLayer :: "transport_layer option"
  NetworkLayer :: "(string \<times> string) option"

type_synonym flow_table = "(u64, Hdr list) gomap"

record Sniffer =
  DeviceName :: string
  lastReadLen :: int
  numPktBuffer :: int
  sniffer_verbose :: bool
  apiRestEndpoints :: "string list"

text \<open>\<open>pcap.OpenLive\<close> tells whether the device opens, \<open>pcap.FindAllDevs\<close> lists the devices.\<close>

definition NewSniffer ::
  "(string \<Rightarrow> bool) \<Rightarrow> string list option \<Rightarrow> string \<Rightarrow> string list \<Rightarrow> int \<Rightarrow> bool \<Rightarrow> string + Sniffer" where
  "NewSniffer OpenLive FindAllDevs iface endpoints readLen v =
     (if length endpoints = 0 then Inl ''api endpoint empty. check config''
      else if \<not> OpenLive iface then Inl ''open''
      else (case FindAllDevs of
              None \<Rightarrow> Inl ''devices''
            | Some dev \<Rightarrow>
                if \<not> (\<exists>d \<in> set dev. d = iface) then Inl ''failed identify capure device''
                else Inr \<lparr>DeviceName = iface, lastReadLen = readLen, numPktBuffer = 100, sniffer_verbose = v,
                          apiRestEndpoints = endpoints\<rparr>))"

section \<open>Capture\<close>

definition same_hosts :: "Hdr \<Rightarrow> Hdr \<Rightarrow> bool" where
  "same_hosts e pkt \<longleftrightarrow> SrcIp e = SrcIp pkt \<and> DstIp e = DstIp pkt"

definition add_flow :: "u64 \<Rightarrow> Hdr \<Rightarrow> flow_table \<Rightarrow> flow_table" where
  "add_flow hash pkt flowTable =
     (case map_of flowTable hash of
        Some f \<Rightarrow> if \<exists>e \<in> set f. same_hosts e pkt then flowTable else map_set hash (f @ [pkt]) flowTable
      | None \<Rightarrow> map_set hash [pkt] flowTable)"

definition hdr_of :: "transport_layer \<Rightarrow> string \<times> string \<Rightarrow> Hdr" where
  "hdr_of t net = \<lparr>SrcPort = flowSrc t, DstPort = flowDst t, SrcIp = fst net, DstIp = snd net, HdrProto = LayerType t\<rparr>"

text \<open>The loop over the packets; the result includes the packets not read yet.\<close>

fun capture_loop :: "int \<Rightarrow> packet list \<Rightarrow> int \<Rightarrow> flow_table \<Rightarrow> (flow_table \<times> packet list) go" where
  "capture_loop bufSize [] numPkt flowTable = Ret (flowTable, [])"
| "capture_loop bufSize (p # ps) numPkt flowTable =
     (case TransportLayer p of
        None \<Rightarrow> capture_loop bufSize ps numPkt flowTable
      | Some t \<Rightarrow>
          (case NetworkLayer p of
             None \<Rightarrow> Panic NilDereference
           | Some net \<Rightarrow>
               let flowTable1 = add_flow (FastHash t) (hdr_of t net) flowTable in
               if bufSize = numPkt then Ret (flowTable1, ps)
               else capture_loop bufSize ps (numPkt + 1) flowTable1))"

definition capture :: "Sniffer \<Rightarrow> packet list \<Rightarrow> flow_table gochan \<Rightarrow> (flow_table gochan \<times> packet list) go" where
  "capture s packets captureReady =
     bind_go (capture_loop (numPktBuffer s) packets 0 []) (\<lambda>(flowTable, left).
     bind_go (chan_send flowTable captureReady) (\<lambda>ch. Ret (ch, left)))"

text \<open>
  One round of \<open>startCapture\<close>; \<open>take_quit\<close> tells whether \<open>select\<close> takes the quit signal. Its \<open>break\<close> leaves
  the \<open>select\<close> only: the loop goes on.
\<close>

definition startCapture_iter ::
  "bool \<Rightarrow> Sniffer \<Rightarrow> packet list \<Rightarrow> flow_table gochan \<Rightarrow> flow_table gochan
     \<Rightarrow> (flow_table gochan \<times> flow_table gochan \<times> packet list) go" where
  "startCapture_iter take_quit s packets buffer captureReady =
     bind_go (capture s packets buffer) (\<lambda>(buffer1, left).
     if take_quit then Ret (buffer1, captureReady, left)
     else bind_go (chan_recv buffer1) (\<lambda>(pkt, buffer2).
          bind_go (chan_send (case pkt of Some t \<Rightarrow> t | None \<Rightarrow> []) captureReady) (\<lambda>ready. Ret (buffer2, ready, left))))"

section \<open>Publication\<close>

text \<open>
  The loop over the table stops at the first failure; the result includes the keys that were stored. A range over a
  map visits its entries in an order the language leaves open, so that the loop takes the list of the entries in
  the order in which they come, and \<open>publish\<close> a function that gives this order.
\<close>

fun publish_loop ::
  "(string \<Rightarrow> LeaderRespond http_reply) \<Rightarrow> (string \<Rightarrow> 'w \<Rightarrow> 'w \<times> unit http_reply) \<Rightarrow> (Hdr list \<Rightarrow> bytes)
     \<Rightarrow> (u64 \<times> Hdr list) list \<Rightarrow> RestClient \<Rightarrow> 'w \<Rightarrow> u64 list \<times> RestClient \<times> 'w" where
  "publish_loop http post gob [] c w = ([], c, w)"
| "publish_loop http post gob ((key, val) # msg) c w =
     (let (ok, err, c1, w1) = Store_world http post (FormatUint key) (gob val) c w in
      if err \<noteq> None then ([], c1, w1)
      else if ok = False then ([], c1, w1)
      else let (ks, c2, w2) = publish_loop http post gob msg c1 w1 in (key # ks, c2, w2))"

text \<open>\<open>publish\<close> when \<open>select\<close> takes a captured table, or the quit signal.\<close>

definition publish ::
  "bool \<Rightarrow> (string \<Rightarrow> LeaderRespond http_reply) \<Rightarrow> (string \<Rightarrow> 'w \<Rightarrow> 'w \<times> unit http_reply) \<Rightarrow> (Hdr list \<Rightarrow> bytes)
     \<Rightarrow> (flow_table \<Rightarrow> (u64 \<times> Hdr list) list) \<Rightarrow> RestClient \<Rightarrow> flow_table gochan \<Rightarrow> unit gochan \<Rightarrow> 'w \<Rightarrow> (RestClient \<times> flow_table gochan \<times> unit gochan \<times> 'w) go" where
  "publish take_quit http post gob order c captureReady publishReady w =
     (if take_quit then Ret (c, captureReady, publishReady, w)
      else bind_go (chan_recv captureReady) (\<lambda>(msg, ready).
        let (_, c1, w1) = publish_loop http post gob (order (case msg of Some t \<Rightarrow> t | None \<Rightarrow> [])) c w in
        bind_go (chan_send () publishReady) (\<lambda>pub. Ret (c1, ready, pub, w1))))"

text \<open>A publisher of \<open>start\<close>: it publishes a table, then waits for a signal that a table was published.\<close>

definition publisher_iter ::
  "bool \<Rightarrow> (string \<Rightarrow> LeaderRespond http_reply) \<Rightarrow> (string \<Rightarrow> 'w \<Rightarrow> 'w \<times> unit http_reply) \<Rightarrow> (Hdr list \<Rightarrow> bytes)
     \<Rightarrow> (flow_table \<Rightarrow> (u64 \<times> Hdr list) list) \<Rightarrow> RestClient \<Rightarrow> flow_table gochan \<Rightarrow> unit gochan \<Rightarrow> 'w \<Rightarrow> (RestClient \<times> flow_table gochan \<times> unit gochan \<times> 'w) go" where
  "publisher_iter take_quit http post gob order c captureReady publishReady w =
     bind_go (publish take_quit http post gob order c captureReady publishReady w) (\<lambda>(c1, ready, pub, w1).
     bind_go (chan_recv pub) (\<lambda>(_, pub1). Ret (c1, ready, pub1, w1)))"

text \<open>Each publisher makes a client of its own, and the process exits if it finds no leader.\<close>

definition publisher_start :: "(string \<Rightarrow> LeaderRespond http_reply) \<Rightarrow> Sniffer \<Rightarrow> RestClient go" where
  "publisher_start http s =
     (case NewRestClient http (apiRestEndpoints s) of Inl e \<Rightarrow> Panic FatalExit | Inr c \<Rightarrow> Ret c)"

text \<open>The endpoints of the configuration.\<close>

definition createClient :: "os_env \<Rightarrow> (bytes \<Rightarrow> LbArtifact option) \<Rightarrow> string \<Rightarrow> (string + string list) go" where
  "createClient env unmarshal file =
     bind_go (Lb_Read env unmarshal (if length file > 0 then file else ''config.yaml'')) (\<lambda>res.
       Ret (case res of Inl e \<Rightarrow> Inl e | Inr a \<Rightarrow> Inr (api_endpoints (lpApi (lbPool a)))))"

text \<open>The \<open>capture\<close> command: the check of its arguments, and its run up to \<open>start\<close>.\<close>

definition capture_Args :: "string list option \<Rightarrow> string list \<Rightarrow> string option" where
  "capture_Args FindAllDevs args =
     (case args of
        [] \<Rightarrow> Some ''capture require interface name (en0, eth0 ..0)''
      | a # _ \<Rightarrow>
          (case FindAllDevs of
             None \<Rightarrow> Some ''devices''
           | Some dev \<Rightarrow> if \<exists>d \<in> set dev. d = a then None else Some ''invalid interface specified''))"

definition capture_RunE ::
  "os_env \<Rightarrow> (bytes \<Rightarrow> LbArtifact option) \<Rightarrow> (string \<Rightarrow> bool) \<Rightarrow> string list option \<Rightarrow> string option \<Rightarrow> bool \<Rightarrow> string list
     \<Rightarrow> (string + Sniffer) go" where
  "capture_RunE env unmarshal OpenLive FindAllDevs config v args =
     (case config of
        None \<Rightarrow> Ret (Inl ''provide path to config.yaml'')
      | Some cfg \<Rightarrow>
          (case args of
             [] \<Rightarrow> Ret (Inl ''interface name we capture'')
           | a # _ \<Rightarrow>
               if length a = 0 then Ret (Inl ''interface name we capture'')
               else bind_go (createClient env unmarshal cfg) (\<lambda>res.
                 case res of
                   Inl e \<Rightarrow> Ret (Inl ''failed to read cofiguraton '')
                 | Inr endpoints \<Rightarrow> Ret (NewSniffer OpenLive FindAllDevs a endpoints 1600 v))))"

section \<open>The table of flows\<close>

text \<open>No two headers of a bucket have the same hosts, and no bucket is empty.\<close>

definition flows_ok :: "flow_table \<Rightarrow> bool" where
  "flows_ok t \<longleftrightarrow> map_wf t \<and>
     (\<forall>(h, f) \<in> set t. f \<noteq> [] \<and> distinct (map (\<lambda>e. (SrcIp e, DstIp e)) f))"

text \<open>The table holds a header with the hosts of \<open>e\<close> under the hash \<open>h\<close>.\<close>

definition recorded :: "u64 \<Rightarrow> Hdr \<Rightarrow> flow_table \<Rightarrow> bool" where
  "recorded h e t \<longleftrightarrow> (\<exists>f. map_of t h = Some f \<and> (\<exists>e' \<in> set f. same_hosts e' e))"

lemma flows_ok_bucket:
  "flows_ok t \<longleftrightarrow> map_wf t \<and> (\<forall>h f. map_of t h = Some f \<longrightarrow> f \<noteq> [] \<and> distinct (map (\<lambda>e. (SrcIp e, DstIp e)) f))"
  unfolding flows_ok_def map_wf_def by (force simp: map_of_eq_Some_iff)

lemma flows_ok_add: "flows_ok t \<Longrightarrow> flows_ok (add_flow h e t)"
  by (auto simp: flows_ok_bucket add_flow_def same_hosts_def split: option.splits if_splits)

lemma recorded_add: "recorded h e (add_flow h e t)" "recorded h' e' t \<Longrightarrow> recorded h' e' (add_flow h e t)"
  by (auto simp: recorded_def add_flow_def same_hosts_def split: option.splits)

text \<open>The header of a packet that has both layers, with its hash.\<close>

definition flow_of :: "packet \<Rightarrow> (u64 \<times> Hdr) option" where
  "flow_of p =
     (case TransportLayer p of
        None \<Rightarrow> None
      | Some t \<Rightarrow> map_option (\<lambda>net. (FastHash t, hdr_of t net)) (NetworkLayer p))"

definition from_packets :: "packet list \<Rightarrow> flow_table \<Rightarrow> bool" where
  "from_packets ps t \<longleftrightarrow> (\<forall>(h, f) \<in> set t. \<forall>e \<in> set f. \<exists>p \<in> set ps. flow_of p = Some (h, e))"

lemma from_packets_bucket:
  "map_wf t \<Longrightarrow> from_packets ps t \<longleftrightarrow> (\<forall>h f. map_of t h = Some f \<longrightarrow> (\<forall>e \<in> set f. \<exists>p \<in> set ps. flow_of p = Some (h, e)))"
  unfolding from_packets_def map_wf_def by (auto simp: map_of_eq_Some_iff)

lemma from_packets_add:
  "flows_ok t \<Longrightarrow> from_packets ps t \<Longrightarrow> flow_of p = Some (h, e) \<Longrightarrow> p \<in> set ps \<Longrightarrow> from_packets ps (add_flow h e t)"
proof -
  assume *: "flows_ok t" "from_packets ps t" "flow_of p = Some (h, e)" "p \<in> set ps"
  have wf: "map_wf t" "map_wf (add_flow h e t)" using * flows_ok_add [OF *(1), of h e] by (simp_all add: flows_ok_def)
  show ?thesis
    using * unfolding from_packets_bucket [OF wf(1)] from_packets_bucket [OF wf(2)]
    by (fastforce simp: add_flow_def split: option.splits if_splits)
qed

definition transports :: "packet list \<Rightarrow> int" where
  "transports ps = int (length (filter (\<lambda>p. TransportLayer p \<noteq> None) ps))"

text \<open>
  The packets \<open>taken\<close> lead from table \<open>t\<close> to \<open>t'\<close>: all of them are recorded, nothing else is, what was
  recorded stays, and at most \<open>room\<close> of them have a transport layer, exactly so many if packets are left.
\<close>

definition captured :: "packet list \<Rightarrow> packet list \<Rightarrow> packet list \<Rightarrow> int \<Rightarrow> flow_table \<Rightarrow> flow_table \<Rightarrow> bool" where
  "captured used taken left room t t' \<longleftrightarrow> flows_ok t' \<and> from_packets (used @ taken) t' \<and>
     (\<forall>h e. recorded h e t \<longrightarrow> recorded h e t') \<and>
     (\<forall>p \<in> set taken. \<forall>h e. flow_of p = Some (h, e) \<longrightarrow> recorded h e t') \<and>
     transports taken \<le> room \<and> (left \<noteq> [] \<longrightarrow> transports taken = room)"

lemma captured_skip:
  "TransportLayer p = None \<Longrightarrow> captured (used @ [p]) taken left room t t' \<Longrightarrow> captured used (p # taken) left room t t'"
  by (simp add: captured_def flow_of_def transports_def)

lemma captured_add:
  "TransportLayer p \<noteq> None \<Longrightarrow> flow_of p = Some (h, e) \<Longrightarrow>
     captured (used @ [p]) taken left room (add_flow h e t) t' \<Longrightarrow> captured used (p # taken) left (room + 1) t t'"
  using recorded_add by (auto simp: captured_def transports_def)

lemma capture_loop_table:
  assumes "capture_loop n ps k t = Ret (t', left)" "flows_ok t" "from_packets used t" "k \<le> n"
  shows "\<exists>taken. ps = taken @ left \<and> captured used taken left (n - k + 1) t t'"
  using assms
proof (induction n ps k t arbitrary: used rule: capture_loop.induct)
  case (1 n k t)
  then show ?case by (simp add: captured_def transports_def)
next
  case (2 n p ps k t)
  have wider: "from_packets (used @ [p]) t" using "2.prems"(3) by (fastforce simp: from_packets_def)
  show ?case
  proof (cases "TransportLayer p")
    case None
    with "2.IH"(1) [OF None _ "2.prems"(2) wider "2.prems"(4)] "2.prems"(1)
    obtain taken where "ps = taken @ left" "captured (used @ [p]) taken left (n - k + 1) t t'" by auto
    then show ?thesis using captured_skip [OF None] by (intro exI [of _ "p # taken"]) simp
  next
    case (Some tr)
    with "2.prems"(1) obtain net where net: "NetworkLayer p = Some net" by (auto split: option.splits)
    let ?h = "FastHash tr" and ?e = "hdr_of tr net"
    have flow: "flow_of p = Some (?h, ?e)" using Some net by (simp add: flow_of_def)
    have ok: "flows_ok (add_flow ?h ?e t)" by (rule flows_ok_add [OF "2.prems"(2)])
    have src: "from_packets (used @ [p]) (add_flow ?h ?e t)"
      using from_packets_add [OF "2.prems"(2) wider flow] by simp
    have "\<exists>taken. ps = taken @ left \<and> captured (used @ [p]) taken left (n - k) (add_flow ?h ?e t) t'"
    proof (cases "n = k")
      case True
      then have "t' = add_flow ?h ?e t" "left = ps" using "2.prems"(1) Some net by (auto simp: Let_def)
      then show ?thesis using ok src True by (simp add: captured_def transports_def)
    next
      case False
      with "2.IH"(2) [OF Some net refl False _ ok src] "2.prems"(1,4) Some net show ?thesis
        by (auto simp: Let_def)
    qed
    then obtain taken where "ps = taken @ left" "captured (used @ [p]) taken left (n - k) (add_flow ?h ?e t) t'" by blast
    then show ?thesis using captured_add [OF _ flow] Some by (intro exI [of _ "p # taken"]) simp
  qed
qed

section \<open>Keys of flows\<close>

definition parse_nat :: "string \<Rightarrow> nat" where
  "parse_nat s = fold (\<lambda>c n. 10 * n + (of_char c - 48)) s 0"

lemma parse_digits: "parse_nat (digits n) = n"
proof (induction n rule: digits.induct)
  case (1 n)
  have digit: "of_char (char_of (48 + d)) - 48 = d" if "d < 10" for d :: nat using that by simp
  show ?case
  proof (cases "n < 10")
    case True
    then show ?thesis using digit by (simp add: digits.simps [of n] parse_nat_def)
  next
    case False
    then show ?thesis using 1 digit [of "n mod 10"] by (simp add: digits.simps [of n] parse_nat_def)
  qed
qed

lemma format_nonempty: "FormatUint v \<noteq> []"
  by (simp add: FormatUint_def digits.simps [of "unat v"])

interpretation dec: codec FormatUint "\<lambda>s. Some (of_nat (parse_nat s))"
  by unfold_locales (simp add: FormatUint_def parse_digits)

section \<open>From the table to the page of flows\<close>

definition flow_entries :: "(Hdr list \<Rightarrow> bytes) \<Rightarrow> u64 \<Rightarrow> (u64 \<times> Hdr list) list \<Rightarrow> LogEntry list" where
  "flow_entries gob term t =
     map (\<lambda>(k, v). \<lparr>eTerm = term, eCommand = Some \<lparr>Key = FormatUint k, Value = gob v\<rparr>\<rparr>) t"

lemma publish_to_leader:
  assumes "mux_ok (client_leader c) mux" "client_leader c \<noteq> []" "\<forall>f. gob f \<noteq> []" "leads s r"
  shows "\<exists>s1. publish_loop http (post_server mux) gob t c s = (map fst t, c, s1) \<and> db s1 = db s \<and> server_inv s1 = server_inv s \<and>
    leads s1 (append_log (stateLog r) (flow_entries gob (currentTerm r) t) r)"
  using assms(4)
proof (induction t arbitrary: s r)
  case Nil
  then show ?case by (simp add: flow_entries_def)
next
  case (Cons kv t)
  obtain k v where kv: "kv = (k, v)" by (cases kv)
  let ?r = "append_log (stateLog r) [\<lparr>eTerm = currentTerm r, eCommand = Some \<lparr>Key = FormatUint k, Value = gob v\<rparr>\<rparr>] r"
  from Store_world_leader [OF assms(1,2) Cons.prems format_nonempty [of k], of "gob v" http] assms(3)
  obtain s1 where s1: "Store_world http (post_server mux) (FormatUint k) (gob v) c s = (True, None, c, s1)"
    "db s1 = db s" "server_inv s1 = server_inv s" "leads s1 ?r" by blast
  from Cons.IH [OF s1(4)] obtain s2 where
    "publish_loop http (post_server mux) gob t c s1 = (map fst t, c, s2)" "db s2 = db s1" "server_inv s2 = server_inv s1"
    "leads s2 (append_log (stateLog ?r) (flow_entries gob (currentTerm ?r) t) ?r)" by blast
  then show ?case using s1 by (simp add: kv flow_entries_def)
qed

lemma flows_loop_all:
  assumes "\<forall>f. decode (gob f) = Some f"
  shows "cnt + int (length t) \<le> n \<Longrightarrow>
    flows_loop decode n (map (\<lambda>(k, v). (FormatUint k, gob v)) t) cnt resp =
      Some (resp\<lparr>flowData := flowData resp @ concat (map snd t)\<rparr>)"
proof (induction t arbitrary: cnt resp)
  case (Cons kv t)
  then show ?case using assms by (cases kv) auto
qed simp

lemma fold_set_fresh:
  "distinct (map fst kvs) \<Longrightarrow> fst ` set kvs \<inter> fst ` set m = {} \<Longrightarrow>
     fold (\<lambda>(k, v). VolatileStorage_Set k v) kvs (Some \<lparr>storage = m\<rparr>) = Some \<lparr>storage = m @ kvs\<rparr>"
proof (induction kvs arbitrary: m)
  case (Cons kv kvs)
  obtain k v where kv: "kv = (k, v)" by (cases kv)
  have "map_set k v m = m @ [(k, v)]" using Cons.prems(2) kv by (intro map_set_fresh) auto
  then show ?case using Cons.IH [of "m @ [(k, v)]"] Cons.prems kv by (auto simp: VolatileStorage_Set_def)
qed simp

text \<open>
  Once the published entries are stored in an empty store, the page shows the headers of the table, bucket after
  bucket in some order.
\<close>

lemma mset_map_split: "mset ys = mset (map f xs) \<Longrightarrow> \<exists>xs'. ys = map f xs' \<and> mset xs' = mset xs"
proof (induction ys arbitrary: xs)
  case (Cons y ys)
  have "y \<in> set (map f xs)" using Cons.prems by (metis list.set_intros(1) mset_eq_setD)
  then obtain x where x: "x \<in> set xs" "y = f x" by auto
  have "mset xs = add_mset x (mset (remove1 x xs))" using x(1) by simp
  then have "image_mset f (mset xs) = add_mset (f x) (image_mset f (mset (remove1 x xs)))"
    by (metis image_mset_add_mset)
  then have "mset ys = mset (map f (remove1 x xs))" using Cons.prems x(2) by simp
  then obtain xs' where "ys = map f xs'" "mset xs' = mset (remove1 x xs)" using Cons.IH by blast
  then show ?case using x by (intro exI [of _ "x # xs'"]) simp
qed simp

lemma HandlerFlows_shows:
  assumes gob: "\<forall>f. decode (gob f) = Some f" and ok: "flows_ok t" and order: "mset o' = mset t" "\<forall>m. mset (order m) = mset m"
    and s: "server_inv s" "db s = Some NewVolatileStorage" "ReadCommits_all cs s = Ret s2"
    and cs: "map (\<lambda>e. Some (ceCommand e)) cs = map eCommand (flow_entries gob term o')"
  shows "\<exists>page. mset page = mset t \<and> HandlerFlows order parseInt decode size' s2 =
    Ret (Written 200 \<lparr>flowLast_page = Min_int (int (length t)) (parse_limit parseInt size'), flowData = concat (map snd page)\<rparr>)"
proof -
  let ?enc = "\<lambda>(k, v). (FormatUint k, gob v)"
  let ?kvs = "map ?enc o'"
  have "map ceCommand cs = map (\<lambda>(k, v). \<lparr>Key = FormatUint k, Value = gob v\<rparr>) o'"
    using arg_cong [OF cs, of "map the"] by (simp add: flow_entries_def case_prod_beta comp_def)
  from arg_cong [OF this, of "map (\<lambda>c. (Key c, Value c))"] have writes: "value_writes cs = ?kvs"
    by (simp add: value_writes_def case_prod_beta comp_def)
  have "mset (map fst o') = mset (map fst t)" using order(1) by simp
  then have "distinct (map fst o')" using ok by (metis flows_ok_def map_wf_def mset_eq_imp_distinct_iff)
  then have "distinct (map FormatUint (map fst o'))"
    by (simp add: distinct_map dec.enc_inject inj_on_def)
  then have d: "distinct (map fst ?kvs)" by (simp add: comp_def case_prod_beta)
  have "db s2 = vol.set_all ?kvs (Some NewVolatileStorage)"
    using ReadCommits_all_Ret [OF s(1), of cs] s(2,3) writes by auto
  also have "\<dots> = Some \<lparr>storage = ?kvs\<rparr>"
    using fold_set_fresh [OF d, of "[]"] by (simp add: vol.set_all_def NewVolatileStorage_def)
  finally have copy: "VolatileStorage_GetCopy (db s2) = Ret ?kvs"
    using fold_map_set_distinct [of fst ?kvs "[]" snd] d by (simp add: VolatileStorage_GetCopy_def case_prod_unfold)
  have "mset (order ?kvs) = mset (map ?enc o')" using order(2) by simp
  then obtain page where page: "order ?kvs = map ?enc page" "mset page = mset o'" using mset_map_split by blast
  have len: "length page = length t" "length o' = length t" using page(2) order(1) by (metis size_mset)+
  have "0 + int (length page) \<le> Min_int (int (length t)) (parse_limit parseInt size')" by (simp add: Min_int_def len)
  note flows_loop_all [OF gob this, of "\<lparr>flowLast_page = _, flowData = []\<rparr>"]
  then have "HandlerFlows order parseInt decode size' s2 =
    Ret (Written 200 \<lparr>flowLast_page = Min_int (int (length t)) (parse_limit parseInt size'), flowData = concat (map snd page)\<rparr>)"
    using copy page(1) len by (simp add: HandlerFlows_def Let_def)
  then show ?thesis using page(2) order(1) by auto
qed

end
