(* ===== verification/Publishers.thy ===== *)
theory Publishers
  imports Sniffer
begin

text \<open>
  The goroutines of \<open>Sniffer.start\<close>: one that captures and several that publish, with the two channels
  between them. \<open>startCapture\<close> is split where it gives up control: a capture, which ends with the send on its own
  channel \<open>buffer\<close>, the \<open>select\<close>, and the send on \<open>captureReady\<close>; when the \<open>select\<close> takes a quit signal the table
  stays in \<open>buffer\<close> and the next capture begins. \<open>publish\<close> is split likewise: the receive of a table, then the
  storing of its flows with the send on \<open>publishReady\<close>; the loop of \<open>start\<close> then receives from \<open>publishReady\<close>,
  from which a publisher may take the token of another. The quit signal ends \<open>publish\<close> without a token.
\<close>

section \<open>The parts of a publisher\<close>

definition publish_take :: "flow_table gochan \<Rightarrow> (flow_table \<times> flow_table gochan) go" where
  "publish_take captureReady =
     bind_go (chan_recv captureReady) (\<lambda>(msg, ready). Ret (case msg of Some t \<Rightarrow> t | None \<Rightarrow> [], ready))"

definition publish_store ::
  "(string \<Rightarrow> LeaderRespond http_reply) \<Rightarrow> (string \<Rightarrow> 'w \<Rightarrow> 'w \<times> unit http_reply) \<Rightarrow> (Hdr list \<Rightarrow> bytes)
     \<Rightarrow> (u64 \<times> Hdr list) list \<Rightarrow> RestClient \<Rightarrow> unit gochan \<Rightarrow> 'w \<Rightarrow> (RestClient \<times> unit gochan \<times> 'w) go" where
  "publish_store http post gob msg c publishReady w =
     (let (_, c1, w1) = publish_loop http post gob msg c w in
      bind_go (chan_send () publishReady) (\<lambda>pub. Ret (c1, pub, w1)))"

lemma publish_parts:
  "publish False http post gob order c captureReady publishReady w =
     bind_go (publish_take captureReady) (\<lambda>(msg, ready).
     bind_go (publish_store http post gob (order msg) c publishReady w) (\<lambda>(c1, pub, w1). Ret (c1, ready, pub, w1)))"
proof (cases "chan_recv captureReady")
  case (Ret x)
  obtain msg ready where x: "x = (msg, ready)" by (cases x)
  obtain ks c1 w1 where loop: "publish_loop http post gob (order (case msg of Some t \<Rightarrow> t | None \<Rightarrow> [])) c w = (ks, c1, w1)"
    by (cases "publish_loop http post gob (order (case msg of Some t \<Rightarrow> t | None \<Rightarrow> [])) c w")
  show ?thesis
    by (cases "chan_send () publishReady") (simp_all add: publish_def publish_take_def publish_store_def Ret x loop)
qed (simp_all add: publish_def publish_take_def)

section \<open>The crew\<close>

datatype capturer = Capturing | Choosing | Sending flow_table

datatype worker = Selecting | Holding flow_table | Waiting

text \<open>
  The packets to come, the capturing goroutine with its channel, the channels between the goroutines, the publishers
  with their clients, the world behind the clients, and the history: the tables captured, those whose flows have been
  stored, and the quit signals taken by the publishers and by the capturing goroutine.
\<close>

record 'w crew =
  source :: "packet list"
  buffer :: "flow_table gochan"
  capturer :: capturer
  captureReady :: "flow_table gochan"
  publishReady :: "unit gochan"
  workers :: "(RestClient \<times> worker) list"
  world :: 'w
  tables :: "flow_table list"
  handled :: "flow_table list"
  quits :: nat
  captureQuits :: nat

definition start_crew :: "Sniffer \<Rightarrow> RestClient list \<Rightarrow> packet list \<Rightarrow> 'w \<Rightarrow> 'w crew" where
  "start_crew s cs packets w =
     \<lparr>source = packets, buffer = make_chan 32, capturer = Capturing, captureReady = make_chan (nat (numPktBuffer s)), publishReady = make_chan 32,
      workers = map (\<lambda>c. (c, Selecting)) cs, world = w, tables = [], handled = [], quits = 0, captureQuits = 0\<rparr>"

inductive crew_step ::
  "Sniffer \<Rightarrow> (string \<Rightarrow> LeaderRespond http_reply) \<Rightarrow> (string \<Rightarrow> 'w \<Rightarrow> 'w \<times> unit http_reply) \<Rightarrow> (Hdr list \<Rightarrow> bytes)
     \<Rightarrow> 'w crew \<Rightarrow> 'w crew \<Rightarrow> bool" for s http post gob where
  captures: "capturer k = Capturing \<Longrightarrow> capture s (source k) (buffer k) = Ret (b, left) \<Longrightarrow>
     crew_step s http post gob k (k\<lparr>source := left, buffer := b, capturer := Choosing, tables := tables k @ [last (chBuf b)]\<rparr>)"
| chooses: "capturer k = Choosing \<Longrightarrow> chan_recv (buffer k) = Ret (Some t, b) \<Longrightarrow>
     crew_step s http post gob k (k\<lparr>buffer := b, capturer := Sending t\<rparr>)"
| sends: "capturer k = Sending t \<Longrightarrow> chan_send t (captureReady k) = Ret ch \<Longrightarrow>
     crew_step s http post gob k (k\<lparr>captureReady := ch, capturer := Capturing\<rparr>)"
| capture_quits: "capturer k = Choosing \<Longrightarrow>
     crew_step s http post gob k (k\<lparr>capturer := Capturing, captureQuits := captureQuits k + 1\<rparr>)"
| takes: "i < length (workers k) \<Longrightarrow> workers k ! i = (c, Selecting) \<Longrightarrow> publish_take (captureReady k) = Ret (t, ch) \<Longrightarrow>
     crew_step s http post gob k (k\<lparr>captureReady := ch, workers := (workers k)[i := (c, Holding t)]\<rparr>)"
| stores: "i < length (workers k) \<Longrightarrow> workers k ! i = (c, Holding t) \<Longrightarrow>
     mset visited = mset t \<Longrightarrow>
     publish_store http post gob visited c (publishReady k) (world k) = Ret (c1, pub, w1) \<Longrightarrow>
     crew_step s http post gob k (k\<lparr>publishReady := pub, world := w1, workers := (workers k)[i := (c1, Waiting)],
       handled := handled k @ [t]\<rparr>)"
| wakes: "i < length (workers k) \<Longrightarrow> workers k ! i = (c, Waiting) \<Longrightarrow> chan_recv (publishReady k) = Ret (u, pub) \<Longrightarrow>
     crew_step s http post gob k (k\<lparr>publishReady := pub, workers := (workers k)[i := (c, Selecting)]\<rparr>)"
| quits: "i < length (workers k) \<Longrightarrow> workers k ! i = (c, Selecting) \<Longrightarrow>
     crew_step s http post gob k (k\<lparr>workers := (workers k)[i := (c, Waiting)], quits := quits k + 1\<rparr>)"

inductive crew_run ::
  "Sniffer \<Rightarrow> (string \<Rightarrow> LeaderRespond http_reply) \<Rightarrow> (string \<Rightarrow> 'w \<Rightarrow> 'w \<times> unit http_reply) \<Rightarrow> (Hdr list \<Rightarrow> bytes)
     \<Rightarrow> 'w crew \<Rightarrow> 'w crew \<Rightarrow> bool" for s http post gob k0 where
  init: "crew_run s http post gob k0 k0"
| step: "crew_run s http post gob k0 k \<Longrightarrow> crew_step s http post gob k k' \<Longrightarrow> crew_run s http post gob k0 k'"

inductive_cases crew_stepE: "crew_step s http post gob k k'"

section \<open>Tables and tokens are conserved\<close>

definition held_by :: "RestClient \<times> worker \<Rightarrow> flow_table list" where
  "held_by x = (case snd x of Holding t \<Rightarrow> [t] | _ \<Rightarrow> [])"

definition in_hand :: "'w crew \<Rightarrow> flow_table multiset" where
  "in_hand k = mset (concat (map held_by (workers k)))"

definition in_transit :: "'w crew \<Rightarrow> flow_table multiset" where
  "in_transit k = (case capturer k of Sending t \<Rightarrow> {#t#} | _ \<Rightarrow> {#})"

definition waiting :: "'w crew \<Rightarrow> nat" where
  "waiting k = length (filter (\<lambda>x. snd x = Waiting) (workers k))"

definition crew_inv :: "'w crew \<Rightarrow> bool" where
  "crew_inv k \<longleftrightarrow> \<not> chClosed (captureReady k) \<and> \<not> chClosed (publishReady k) \<and> chCap (publishReady k) = 32 \<and>
     waiting k = length (chBuf (publishReady k)) + quits k \<and>
     mset (tables k) = mset (handled k) + in_hand k + mset (chBuf (captureReady k)) + in_transit k + mset (chBuf (buffer k)) \<and>
     \<not> chClosed (buffer k) \<and> chCap (buffer k) = 32 \<and> length (chBuf (buffer k)) \<le> 32 \<and>
     length (chBuf (buffer k)) = captureQuits k + (if capturer k = Choosing then 1 else 0)"

text \<open>What replacing one publisher does to the counts.\<close>

lemma count_update:
  assumes "i < length xs"
  shows "length (filter P (xs[i := y])) + (if P (xs ! i) then 1 else 0) = length (filter P xs) + (if P y then 1 else 0)"
  using arg_cong [OF id_take_nth_drop [OF assms], of "\<lambda>xs. length (filter P xs)"] upd_conv_take_nth_drop [OF assms, of y]
  by simp

lemma held_update:
  assumes "i < length xs"
  shows "mset (concat (map held_by (xs[i := y]))) + mset (held_by (xs ! i)) = mset (concat (map held_by xs)) + mset (held_by y)"
  using arg_cong [OF id_take_nth_drop [OF assms], of "\<lambda>xs. mset (concat (map held_by xs))"] upd_conv_take_nth_drop [OF assms, of y]
  by simp

lemma crew_step_inv:
  assumes "crew_step s http post gob k k'" "crew_inv k"
  shows "crew_inv k'"
  using assms
proof (cases rule: crew_step.cases)
  case (captures b left)
  then obtain t where "chBuf b = chBuf (buffer k) @ [t]" "\<not> chClosed b" "chCap b = chCap (buffer k)"
    "length (chBuf (buffer k)) < chCap (buffer k)"
    by (auto simp: capture_def bind_go_Ret_iff chan_send_def split: if_splits)
  then show ?thesis using assms(2) captures(1,2) by (auto simp: crew_inv_def waiting_def in_hand_def in_transit_def)
next
  case (chooses t b)
  then have "chBuf (buffer k) = t # chBuf b" "\<not> chClosed b" "chCap b = chCap (buffer k)"
    using assms(2) by (auto simp: chan_recv_def crew_inv_def split: list.splits if_splits)
  then show ?thesis using assms(2) chooses(1,2) by (auto simp: crew_inv_def waiting_def in_hand_def in_transit_def)
next
  case (sends t ch)
  then show ?thesis
    using assms(2) by (auto simp: crew_inv_def waiting_def in_hand_def in_transit_def chan_send_def split: if_splits)
next
  case capture_quits
  then show ?thesis using assms(2) by (auto simp: crew_inv_def waiting_def in_hand_def in_transit_def)
next
  case (takes i c t ch)
  have "waiting k' = waiting k"
    using count_update [OF takes(2), of "\<lambda>x. snd x = Waiting" "(c, Holding t)"] takes(1,3) by (simp add: waiting_def)
  moreover have "in_hand k' = in_hand k + {#t#}"
    using held_update [OF takes(2), of "(c, Holding t)"] takes(1,3) by (simp add: in_hand_def held_by_def)
  moreover have "chBuf (captureReady k) = t # chBuf ch" "\<not> chClosed ch"
    using takes(4) assms(2) by (auto simp: publish_take_def chan_recv_def crew_inv_def bind_go_Ret_iff split: list.splits if_splits)
  ultimately show ?thesis using assms(2) takes(1) by (simp add: crew_inv_def in_transit_def)
next
  case (stores i c t visited c1 pub w1)
  have "Suc (waiting k) = waiting k'"
    using count_update [OF stores(2), of "\<lambda>x. snd x = Waiting" "(c1, Waiting)"] stores(1,3) by (simp add: waiting_def)
  moreover have "in_hand k' + {#t#} = in_hand k"
    using held_update [OF stores(2), of "(c1, Waiting)"] stores(1,3) by (simp add: in_hand_def held_by_def)
  moreover have "chBuf pub = chBuf (publishReady k) @ [()]" "\<not> chClosed pub" "chCap pub = chCap (publishReady k)"
    using stores(5) by (auto simp: publish_store_def chan_send_def bind_go_Ret_iff Let_def split: prod.splits if_splits)
  ultimately show ?thesis using assms(2) stores(1) by (auto simp: crew_inv_def in_transit_def)
next
  case (wakes i c u pub)
  have "waiting k = Suc (waiting k')"
    using count_update [OF wakes(2), of "\<lambda>x. snd x = Waiting" "(c, Selecting)"] wakes(1,3) by (simp add: waiting_def)
  moreover have "in_hand k' = in_hand k"
    using held_update [OF wakes(2), of "(c, Selecting)"] wakes(1,3) by (simp add: in_hand_def held_by_def)
  moreover have "length (chBuf (publishReady k)) = Suc (length (chBuf pub))" "\<not> chClosed pub" "chCap pub = chCap (publishReady k)"
    using wakes(4) assms(2) by (auto simp: chan_recv_def crew_inv_def split: list.splits if_splits)
  ultimately show ?thesis using assms(2) wakes(1) by (simp add: crew_inv_def in_transit_def)
next
  case (quits i c)
  have "Suc (waiting k) = waiting k'"
    using count_update [OF quits(2), of "\<lambda>x. snd x = Waiting" "(c, Waiting)"] quits(1,3) by (simp add: waiting_def)
  moreover have "in_hand k' = in_hand k"
    using held_update [OF quits(2), of "(c, Waiting)"] quits(1,3) by (simp add: in_hand_def held_by_def)
  ultimately show ?thesis using assms(2) quits(1) by (simp add: crew_inv_def in_transit_def)
qed

lemma crew_step_length: "crew_step s http post gob k k' \<Longrightarrow> length (workers k') = length (workers k)"
  by (auto elim: crew_stepE)

lemma start_crew_inv: "crew_inv (start_crew s cs ps w)"
proof -
  have "concat (map held_by (map (\<lambda>c. (c, Selecting)) cs)) = []" by (induction cs) (simp_all add: held_by_def)
  then show ?thesis by (simp add: crew_inv_def start_crew_def make_chan_def waiting_def in_hand_def in_transit_def)
qed

lemma crew_run_inv:
  assumes "crew_run s http post gob (start_crew s cs ps w) k"
  shows "crew_inv k" "length (workers k) = length cs"
  using assms
proof (induction rule: crew_run.induct)
  case init
  case 1
  show ?case by (rule start_crew_inv)
next
  case init
  case 2
  show ?case by (simp add: start_crew_def)
qed (auto dest: crew_step_inv crew_step_length)

section \<open>Who can go on\<close>

lemma waiting_le: "waiting k \<le> length (workers k)"
  by (simp add: waiting_def)

lemma waiting_less:
  assumes "i < length (workers k)" "snd (workers k ! i) \<noteq> Waiting"
  shows "waiting k < length (workers k)"
  unfolding waiting_def using assms by (intro length_filter_less [of "workers k ! i"]) simp_all

text \<open>Without a quit signal a publisher that holds a table or waits for a token can take its next step.\<close>

lemma worker_goes_on:
  assumes inv: "crew_inv k" and no: "quits k = 0" and n: "length (workers k) \<le> 32"
    and i: "i < length (workers k)" "snd (workers k ! i) \<noteq> Selecting"
  shows "\<exists>k'. crew_step s http post gob k k' \<and> workers k' ! i \<noteq> workers k ! i"
proof -
  have tokens: "waiting k = length (chBuf (publishReady k))" using inv no by (simp add: crew_inv_def)
  obtain c x where x: "workers k ! i = (c, x)" by (cases "workers k ! i")
  show ?thesis
  proof (cases x)
    case (Holding t)
    have "waiting k < length (workers k)"
      using waiting_less [OF i(1)] x Holding by simp
    then have "length (chBuf (publishReady k)) < 32" using tokens n by simp
    moreover obtain ks c1 w1 where "publish_loop http post gob t c (world k) = (ks, c1, w1)"
      by (cases "publish_loop http post gob t c (world k)")
    ultimately obtain pub where
      "publish_store http post gob t c (publishReady k) (world k) = Ret (c1, pub, w1)"
      using inv by (simp add: publish_store_def chan_send_def crew_inv_def)
    note step = crew_step.stores [OF i(1) x [unfolded Holding] refl this]
    show ?thesis by (rule exI, rule conjI, rule step) (simp add: i(1) x Holding)
  next
    case Waiting
    then have "workers k ! i \<in> set (filter (\<lambda>x. snd x = Waiting) (workers k))" using nth_mem [OF i(1)] x by simp
    then have "chBuf (publishReady k) \<noteq> []" using tokens by (auto simp: waiting_def filter_empty_conv)
    then obtain pub where "chan_recv (publishReady k) = Ret (Some (), pub)"
      by (cases "chBuf (publishReady k)") (simp_all add: chan_recv_def)
    note step = crew_step.wakes [OF i(1) x [unfolded Waiting] this]
    show ?thesis by (rule exI, rule conjI, rule step) (simp add: i(1) x Waiting)
  qed (use i(2) x in simp)
qed

text \<open>Once every publisher has taken a quit signal nothing is published any more.\<close>

lemma crew_idle:
  assumes inv: "crew_inv k" and quit: "quits k = length (workers k)" and step: "crew_step s http post gob k k'"
  shows "handled k' = handled k" "quits k' = length (workers k')"
proof -
  have w: "waiting k = length (workers k)" "chBuf (publishReady k) = []"
    using inv quit waiting_le [of k] by (simp_all add: crew_inv_def)
  have all: "snd (workers k ! i) = Waiting" if "i < length (workers k)" for i
    using waiting_less [OF that] w(1) by fastforce
  have none: "chan_recv (publishReady k) \<noteq> Ret x" for x
    using w(2) inv by (simp add: chan_recv_def crew_inv_def)
  show "handled k' = handled k" "quits k' = length (workers k')"
    using step quit by (cases rule: crew_step.cases; force dest: all simp: none)+
qed

lemma crew_run_idle:
  assumes "crew_run s http post gob k k'" "crew_inv k" "quits k = length (workers k)"
  shows "handled k' = handled k \<and> crew_inv k' \<and> quits k' = length (workers k')"
  using assms by (induction rule: crew_run.induct) (auto dest: crew_idle crew_step_inv)

section \<open>The capturing goroutine\<close>

text \<open>A round of \<open>startCapture\<close> without interference is a sequence of its steps.\<close>

lemma startCapture_steps:
  assumes inv: "crew_inv k" and k: "capturer k = Capturing"
    and round: "startCapture_iter take_quit s (source k) (buffer k) (captureReady k) = Ret (b, ready, left)"
  shows "\<exists>k'. (crew_step s http post gob)\<^sup>*\<^sup>* k k' \<and> source k' = left \<and> buffer k' = b \<and> captureReady k' = ready \<and> capturer k' = Capturing"
proof -
  from round obtain b1 where b1: "capture s (source k) (buffer k) = Ret (b1, left)"
    by (auto simp: startCapture_iter_def bind_go_Ret_iff split: if_splits)
  let ?k1 = "k\<lparr>source := left, buffer := b1, capturer := Choosing, tables := tables k @ [last (chBuf b1)]\<rparr>"
  have s1: "crew_step s http post gob k ?k1" by (rule crew_step.captures [OF k b1])
  show ?thesis
  proof (cases take_quit)
    case True
    let ?k' = "?k1\<lparr>capturer := Capturing, captureQuits := captureQuits ?k1 + 1\<rparr>"
    have "crew_step s http post gob ?k1 ?k'" by (rule crew_step.capture_quits) simp
    with s1 have "(crew_step s http post gob)\<^sup>*\<^sup>* k ?k'" by simp
    moreover have "b = b1" "ready = captureReady k" using round b1 True by (auto simp: startCapture_iter_def)
    ultimately show ?thesis by (intro exI [of _ ?k']) simp
  next
    case False
    have "chBuf b1 \<noteq> []" using b1 by (auto simp: capture_def bind_go_Ret_iff chan_send_def split: if_splits)
    then obtain t b2 where b2: "chan_recv b1 = Ret (Some t, b2)" by (cases "chBuf b1") (auto simp: chan_recv_def)
    have "bind_go (chan_send t (captureReady k)) (\<lambda>ready. Ret (b2, ready, left)) = Ret (b, ready, left)"
      using round False by (simp add: startCapture_iter_def b1 b2)
    then have send: "chan_send t (captureReady k) = Ret ready" "b = b2"
      by (auto simp: bind_go_Ret_iff)
    let ?k2 = "?k1\<lparr>buffer := b2, capturer := Sending t\<rparr>"
    have s2: "crew_step s http post gob ?k1 ?k2" by (rule crew_step.chooses) (simp_all add: b2)
    have s3: "crew_step s http post gob ?k2 (?k2\<lparr>captureReady := ready, capturer := Capturing\<rparr>)"
      by (rule crew_step.sends) (simp, use send(1) in simp)
    have "(crew_step s http post gob)\<^sup>*\<^sup>* k (?k2\<lparr>captureReady := ready, capturer := Capturing\<rparr>)"
      by (rule rtranclp.rtrancl_into_rtrancl [OF rtranclp.rtrancl_into_rtrancl [OF r_into_rtranclp [of "crew_step s http post gob", OF s1] s2] s3])
    then show ?thesis using send(2) by (intro exI [of _ "?k2\<lparr>captureReady := ready, capturer := Capturing\<rparr>"]) simp
  qed
qed

text \<open>
  Each quit signal that the capturing goroutine takes leaves a table behind for ever, and after 32 of them its channel
  is full, so that it never captures again.
\<close>

lemma crew_full:
  assumes inv: "crew_inv k" and full: "captureQuits k = 32" and step: "crew_step s http post gob k k'"
  shows "tables k' = tables k" "captureQuits k' = 32"
proof -
  have b: "length (chBuf (buffer k)) = 32" "capturer k \<noteq> Choosing" "chCap (buffer k) = 32"
    using inv full by (auto simp: crew_inv_def split: if_splits)
  have none: "capture s (source k) (buffer k) \<noteq> Ret x" for x
    using b by (auto simp: capture_def bind_go_Ret_iff chan_send_def split: if_splits)
  show "tables k' = tables k" "captureQuits k' = 32"
    using step full b(2) none by (cases rule: crew_step.cases; force)+
qed

lemma crew_run_full:
  assumes "crew_run s http post gob k k'" "crew_inv k" "captureQuits k = 32"
  shows "tables k' = tables k \<and> crew_inv k' \<and> captureQuits k' = 32"
  using assms by (induction rule: crew_run.induct) (auto dest: crew_full crew_step_inv)

end
