(* ===== verification/Service.thy ===== *)
theory Service
  imports Bootstrap Rest_Net
begin

text \<open>
  The life of a process around the server: the REST service from its start to its end (\<open>rest_server.go\<close>), the
  end of \<open>Server.Serve\<close>, the exporter of the metrics and the watch of connections (\<open>main_server.go\<close>), the rest
  of \<open>main\<close> with its signal handler (\<open>pkg/main\<close>), the callback that ends the cluster of the tests
  (\<open>testing_tools.go\<close>), the start of the balancer, and the example client (\<open>pkg/client/main\<close>).
\<close>

section \<open>The REST service\<close>

text \<open>
  \<open>Restful.Serve\<close>: the goroutine sets the health flag and listens, the method reports that it is ready, waits
  for the shutdown, which ends the listener, and then for the goroutine.
\<close>

definition Restful_Serve :: "bool \<Rightarrow> Restful option \<Rightarrow> Restful option go" where
  "Restful_Serve sig ro =
     (case ro of
        None \<Rightarrow> Panic NilDereference
      | Some rs \<Rightarrow> bind_go (WaitShutdown sig (Some (rs\<lparr>healthy := 1\<rparr>))) (\<lambda>(ro', stopped).
          if stopped then Ret ro' else Blocked))"

text \<open>Whether the HTTP server is told to stop.\<close>

definition Restful_StopRest :: "Restful option \<Rightarrow> bool" where
  "Restful_StopRest ro \<longleftrightarrow> ro \<noteq> None"

definition HandleFlowIndex :: "template_run \<Rightarrow> 'c Server \<Rightarrow> PageData response go" where
  "HandleFlowIndex tmpl s = render tmpl \<lparr>pageServerID = serverBind s, ServerStatus = [], NumPeers = 0\<rparr>"

text \<open>What the decoder leaves in the variable; the error is dropped.\<close>

definition FlowData_GetFlow :: "(bytes \<Rightarrow> 'h list) \<Rightarrow> string \<Rightarrow> (string, bytes) gomap \<Rightarrow> 'h list" where
  "FlowData_GetFlow decode key f = decode (case map_of f key of Some e \<Rightarrow> e | None \<Rightarrow> [])"

lemma Restful_Serve_ends:
  "Restful_Serve True (Some rs) = Ret (Some (rs\<lparr>healthy := 0\<rparr>))"
  "shutdownRequest rs = None \<Longrightarrow> Restful_Serve False (Some rs) = Blocked"
  by (simp_all add: Restful_Serve_def WaitShutdown_def)

section \<open>The server\<close>

definition ServerBind :: "'c Server \<Rightarrow> string" where
  "ServerBind s = serverBind s"

text \<open>The end of \<open>Serve\<close>: it returns once the channel \<open>quit\<close> is closed.\<close>

definition Serve_end :: "'c Server \<Rightarrow> unit go" where
  "Serve_end s = (case quit s of None \<Rightarrow> Blocked | Some q \<Rightarrow> bind_go (chan_recv q) (\<lambda>_. Ret ()))"

text \<open>
  \<open>metric\<close>: every round of its loop registers the route at the one router of the process, which panics on a
  route it has, and then listens. The list tells how often \<open>ListenAndServe\<close> returns before it stays.
\<close>

definition http_Handle :: "string \<Rightarrow> string list \<Rightarrow> string list go" where
  "http_Handle pattern mux = (if pattern \<in> set mux then Panic MultipleRegistrations else Ret (pattern # mux))"

fun metric_loop :: "unit list \<Rightarrow> string list \<Rightarrow> string list go" where
  "metric_loop [] mux = bind_go (http_Handle ''/metrics'' mux) (\<lambda>_. Blocked)"
| "metric_loop (r # rs) mux = bind_go (http_Handle ''/metrics'' mux) (metric_loop rs)"

definition metric :: "unit list \<Rightarrow> 'c Server option \<Rightarrow> string list \<Rightarrow> string list go" where
  "metric returns so mux = (case so of None \<Rightarrow> Ret mux | Some s \<Rightarrow> metric_loop returns mux)"

text \<open>The exporter either stays in its first call or ends the process.\<close>

lemma metric_outcome:
  "metric returns (Some s) mux =
     (if ''/metrics'' \<notin> set mux \<and> returns = [] then Blocked else Panic MultipleRegistrations)"
proof (cases returns)
  case (Cons r rs)
  have "metric_loop rs (''/metrics'' # mux) = Panic MultipleRegistrations" by (cases rs) (simp_all add: http_Handle_def)
  then show ?thesis by (simp add: metric_def Cons http_Handle_def)
qed (simp add: metric_def http_Handle_def)

text \<open>
  \<open>connectionOnState\<close>: the observations are what \<open>WaitForStateChange\<close> and the \<open>GetState\<close> after it return; the
  channel is closed when the context ends or one of the states is seen.
\<close>

fun connectionOnState :: "'k list \<Rightarrow> (bool \<times> 'k) list \<Rightarrow> unit go" where
  "connectionOnState states [] = Blocked"
| "connectionOnState states ((change, currentState) # obs) =
     (if \<not> change then Ret ()
      else if currentState \<in> set states then Ret ()
      else connectionOnState states obs)"

lemma connectionOnState_iff:
  "connectionOnState states obs = Ret () \<longleftrightarrow> (\<exists>(change, k) \<in> set obs. change \<longrightarrow> k \<in> set states)"
  by (induction states obs rule: connectionOnState.induct) auto

section \<open>The node\<close>

definition signalHandler :: "shutdown_env \<Rightarrow> 'c Server option \<Rightarrow> ('c Server option \<times> 'c list) go" where
  "signalHandler env so = (case so of None \<Rightarrow> Ret (None, []) | Some s \<Rightarrow> Server_Shutdown env (Some s))"

text \<open>\<open>main\<close> up to the wait of \<open>Serve\<close>.\<close>

definition node_run ::
  "os_env \<Rightarrow> (bytes \<Rightarrow> Artifact option) \<Rightarrow> (string \<Rightarrow> bool) \<Rightarrow> (string \<Rightarrow> bool) \<Rightarrow> (string \<Rightarrow> 'c option) \<Rightarrow> string list
     \<Rightarrow> (server_error + 'c Server) go" where
  "node_run env unmarshal CheckSocket listen dial args =
     bind_go (node_main env unmarshal CheckSocket args) (\<lambda>s. Serve listen dial (Some s))"

text \<open>A signal reaches the REST service, which frees its port, and the handler, which shuts the server down.\<close>

definition node_signal :: "shutdown_env \<Rightarrow> 'c Server \<Rightarrow> ('c Server option \<times> 'c list) go" where
  "node_signal env s =
     bind_go (WaitShutdown True (rest s)) (\<lambda>(ro, stopped).
       signalHandler (if stopped then env else env\<lparr>portFree := \<lambda>_. False\<rparr>) (Some (s\<lparr>rest := ro\<rparr>)))"

lemma node_signal_ends:
  assumes "serverState s = Running" "rpc s" "portFree env k" "rest s = Some rs"
    and "serverLock env" "raftLock env" "rpcDrains env"
    and "raftState s = Some r" "state r \<noteq> Dead" "\<not> chClosed (commitReadyChan r)"
    and "quit s = Some q" "\<not> chClosed q" "chBuf q = []"
  shows "\<exists>s'. node_signal env s = Ret (Some s', map snd (peerClient s)) \<and> serverState s' = Shutdown \<and>
    Serve_end s = Blocked \<and> Serve_end s' = Ret ()"
proof -
  obtain j where "wait_released (portFree env) 0 = Some j" using wait_released_reached [of "portFree env" 0 k] assms(3) by auto
  then show ?thesis
    using assms by (simp add: node_signal_def WaitShutdown_def signalHandler_def Server_Shutdown_def
      Raft_Shutdown_def Serve_end_def await_def go_simps Let_def)
qed

text \<open>
  The callback that \<open>SetupTestCase\<close> returns: each server is shut down and then the HTTP server of its REST
  service. The result has the servers, the connections closed and whether the HTTP server was stopped.
\<close>

fun teardown_loop :: "('c Server \<Rightarrow> shutdown_env) \<Rightarrow> 'c Server list \<Rightarrow> ('c Server option \<times> 'c list \<times> bool) list go" where
  "teardown_loop env [] = Ret []"
| "teardown_loop env (s # nodes) =
     bind_go (Server_Shutdown (env s) (Some s)) (\<lambda>(so, closed).
     bind_go (case so of None \<Rightarrow> Panic NilDereference | Some s' \<Rightarrow> Ret (Restful_StopRest (rest s'))) (\<lambda>stopped.
     bind_go (teardown_loop env nodes) (\<lambda>others. Ret ((so, closed, stopped) # others))))"

definition teardown ::
  "('c Server \<Rightarrow> shutdown_env) \<Rightarrow> 'c Server list \<Rightarrow> unit gochan \<Rightarrow> (('c Server option \<times> 'c list \<times> bool) list \<times> unit gochan) go" where
  "teardown env nodes quit' =
     bind_go (teardown_loop env nodes) (\<lambda>done. bind_go (chan_close quit') (\<lambda>q. Ret (done, q)))"

text \<open>
  The order matters: \<open>Shutdown\<close> waits for the port that only \<open>StopRest\<close>, called after it, would release, so that
  the callback never returns when the first server serves.
\<close>

lemma teardown_blocks:
  assumes "reachable_server s" "serverState s \<noteq> Shutdown" "\<forall>i. \<not> portFree (env s) i"
  shows "teardown env (s # nodes) quit' = Blocked"
proof -
  obtain rs where "rest s = Some rs" "shutdownRequest rs = None"
    using reachable_server_wf [OF assms(1)] by (auto simp: server_wf_def)
  then have "Server_Shutdown (env s) (Some s) = Blocked"
    using assms(2) wait_released_never [OF assms(3)] by (simp add: Server_Shutdown_def shutdownRest_def await_def Let_def)
  then show ?thesis by (simp add: teardown_def)
qed

text \<open>
  \<open>StartLoadBalancer\<close> ends the process when the address cannot be used and serves for ever otherwise.
\<close>

definition StartLoadBalancer :: "(string \<Rightarrow> bool) \<Rightarrow> LoadBalancer \<Rightarrow> unit go" where
  "StartLoadBalancer listen lb = (if listen (lb_bind lb) then Blocked else Panic FatalExit)"

section \<open>The choice of the balancer\<close>

text \<open>
  The goroutine of \<open>sourceHashHandler\<close>: if a member was selected and the balancer has a client of the cluster, the
  host of the member is stored under the address of the request. \<open>Store\<close> logs its failures.
\<close>

definition store_choice ::
  "(string \<Rightarrow> LeaderRespond http_reply) \<Rightarrow> (string \<Rightarrow> 'w \<Rightarrow> 'w \<times> unit http_reply) \<Rightarrow> request \<Rightarrow> nat option \<Rightarrow> LoadBalancer \<Rightarrow> 'w
     \<Rightarrow> LoadBalancer \<times> 'w" where
  "store_choice http post r so lb w =
     (case apiClient lb of
        None \<Rightarrow> (lb, w)
      | Some api \<Rightarrow>
          (case so of
             None \<Rightarrow> (lb, w)
           | Some i \<Rightarrow>
               (let (ok, err, api', w') = Store_world http post (RemoteAddr r)
                      (bytes_of_string (urlHost (URL (members (serverPool lb) ! i)))) api w
                in (lb\<lparr>apiClient := Some api'\<rparr>, w'))))"

text \<open>A choice made while the cached leader leads is the next entry of its log, and the balancer stays as it is.\<close>

lemma choice_is_logged:
  assumes "mux_ok (client_leader api) mux" "apiClient lb = Some api" "client_leader api \<noteq> []" "leads s r" "RemoteAddr req \<noteq> []"
    and "urlHost (URL (members (serverPool lb) ! i)) = host" "host \<noteq> []"
  shows "\<exists>s1. store_choice http (post_server mux) req (Some i) lb s = (lb, s1) \<and> db s1 = db s \<and>
    leads s1 (append_log (stateLog r) [\<lparr>eTerm = currentTerm r,
      eCommand = Some \<lparr>Key = RemoteAddr req, Value = bytes_of_string host\<rparr>\<rparr>] r)"
proof -
  have "bytes_of_string host \<noteq> []" using assms(7) by (simp add: bytes_of_string_def)
  from Store_world_leader [OF assms(1,3,4,5) this, of http] obtain s1 where
    "Store_world http (post_server mux) (RemoteAddr req) (bytes_of_string host) api s = (True, None, api, s1)" "db s1 = db s"
    "leads s1 (append_log (stateLog r) [\<lparr>eTerm = currentTerm r,
      eCommand = Some \<lparr>Key = RemoteAddr req, Value = bytes_of_string host\<rparr>\<rparr>] r)" by blast
  moreover have "lb\<lparr>apiClient := Some api\<rparr> = lb" using assms(2) by (cases lb) simp
  ultimately show ?thesis using assms(2,6) by (simp add: store_choice_def)
qed

section \<open>The example client\<close>

definition letters :: string where
  "letters = ''abcdefghijklmnopqrstuvwxyzABCDEFGHIJKLMNOPQRSTUVWXYZ''"

text \<open>The arguments are the values of \<open>rand.Intn(len(letters))\<close>, one for each position.\<close>

definition randSeq :: "nat list \<Rightarrow> string" where
  "randSeq rnd = map (\<lambda>i. letters ! i) rnd"

text \<open>One round of the loop: a value is stored under a random key and, if that went well, read.\<close>

definition client_round ::
  "(string \<Rightarrow> LeaderRespond http_reply) \<Rightarrow> (string \<Rightarrow> 'w \<Rightarrow> 'w \<times> unit http_reply) \<Rightarrow> ('w \<Rightarrow> string \<Rightarrow> HttpValueRespond http_reply)
     \<Rightarrow> nat list \<Rightarrow> nat list \<Rightarrow> RestClient \<Rightarrow> 'w \<Rightarrow> HttpValueRespond option \<times> RestClient \<times> 'w" where
  "client_round http post get krnd vrnd c w =
     (let key = randSeq krnd; val = bytes_of_string (randSeq vrnd);
          (ok, err, c1, w1) = Store_world http post key val c w in
      if err = None \<and> ok then (let (resp, httpErr, c2) = Get http (get w1) key c1 in (resp, c2, w1))
      else (None, c1, w1))"

end
