(* ===== verification/Rest_Router.thy ===== *)
theory Rest_Router
  imports Service
begin

text \<open>
  The table of routes that \<open>NewRestfulServer\<close> registers (\<open>pkg/server/rest_server.go\<close>) and the way of a request
  through it to a handler. Which entry of the table matches a path is the business of the router and an
  argument; the table, the variables a handler reads and what it does with them are the code's.
\<close>

section \<open>The table\<close>

definition ApiShutdownNode :: string where "ApiShutdownNode = ''/shutdownNode/{node}''"

definition ApiLog :: string where "ApiLog = ''/log''"

definition ApiCommitted :: string where "ApiCommitted = ''/committed''"

definition ApiFlows :: string where "ApiFlows = ''/flows/{size}/{id:[0-9]+}''"

definition ApiIndex :: string where "ApiIndex = ''/''"

definition ApiFlowIndex :: string where "ApiFlowIndex = ''/flow''"

datatype route =
    RouteIndex | RouteSubmit | RouteCommitted | RouteGet | RouteLog | RouteShutdown | RouteLeader | RoutePeerList
  | RouteFlows | RouteSize | RouteFlowIndex | RouteRole | RouteNodeShutdown | RouteTemplate

text \<open>\<open>HandleFunc\<close> registers a template of the path, \<open>PathPrefix\<close> a prefix.\<close>

datatype matcher = Path string | PathPrefix string

definition routes :: "(matcher \<times> route) list" where
  "routes =
     [(Path ApiIndex, RouteIndex),
      (Path ''/submit/{key}/{val}'', RouteSubmit),
      (Path ApiCommitted, RouteCommitted),
      (Path (ApiGet @ ''/{key}''), RouteGet),
      (Path ApiLog, RouteLog),
      (Path ApiShutdown, RouteShutdown),
      (Path ApiLeader, RouteLeader),
      (Path ApiPeerList, RoutePeerList),
      (Path ApiFlows, RouteFlows),
      (Path ''/size'', RouteSize),
      (Path ApiFlowIndex, RouteFlowIndex),
      (Path ApiRole, RouteRole),
      (Path ApiShutdownNode, RouteNodeShutdown),
      (PathPrefix ''/template/'', RouteTemplate)]"

text \<open>
  A request matches with the values of the variables of the template, or with the other spelling of the
  slash at its end, which a router with \<open>StrictSlash\<close> redirects.
\<close>

datatype matched = Redirected | Vars "(string, string) gomap"

type_synonym router = "(matcher \<times> route) list \<Rightarrow> string \<Rightarrow> (matcher \<times> route \<times> matched) option"

text \<open>The names of the variables of a template, and what the router documents of them.\<close>

function pattern_vars :: "string \<Rightarrow> string list" where
  "pattern_vars s =
     (case dropWhile (\<lambda>c. c \<noteq> CHR ''{'') s of
        [] \<Rightarrow> []
      | _ # cs \<Rightarrow> takeWhile (\<lambda>c. c \<noteq> CHR '':'' \<and> c \<noteq> CHR ''}'') cs # pattern_vars (dropWhile (\<lambda>c. c \<noteq> CHR ''}'') cs))"
  by pat_completeness auto
termination
proof (relation "measure length")
  fix s c and cs :: string
  assume "dropWhile (\<lambda>c. c \<noteq> CHR ''{'') s = c # cs"
  then have "length (c # cs) \<le> length s" by (metis length_dropWhile_le)
  moreover have "length (dropWhile (\<lambda>c. c \<noteq> CHR ''}'') cs) \<le> length cs" by (rule length_dropWhile_le)
  ultimately show "(dropWhile (\<lambda>c. c \<noteq> CHR ''}'') cs, s) \<in> measure length" by simp
qed simp

declare pattern_vars.simps [simp del]

fun matcher_vars :: "matcher \<Rightarrow> string list" where
  "matcher_vars (Path t) = pattern_vars t"
| "matcher_vars (PathPrefix t) = []"

definition router_ok :: "router \<Rightarrow> bool" where
  "router_ok mux \<longleftrightarrow> (\<forall>tab path mt rt m. mux tab path = Some (mt, rt, m) \<longrightarrow>
     (mt, rt) \<in> set tab \<and> (\<forall>vs. m = Vars vs \<longrightarrow> map fst vs = matcher_vars mt))"

definition var :: "string \<Rightarrow> (string, string) gomap \<Rightarrow> string" where
  "var n vs = (case map_of vs n of Some v \<Rightarrow> v | None \<Rightarrow> [])"

section \<open>The handlers\<close>

text \<open>What the handlers use of the rest of the world.\<close>

record ('c, 'k, 'h) rest_env =
  muxMatch :: router
  parseSize :: "string \<Rightarrow> int option"
  fmtUpdate :: "time \<Rightarrow> string"
  fmtElection :: "time \<Rightarrow> string"
  statusHttp :: "string \<Rightarrow> Info http_reply"
  shutdownHttp :: "string \<Rightarrow> unit http_reply"
  shutEnv :: shutdown_env
  mapOrder :: "(string, bytes) gomap \<Rightarrow> (string \<times> bytes) list"
  connState :: "'c \<Rightarrow> 'k"
  connReady :: 'k
  gobDecode :: "bytes \<Rightarrow> 'h list option"
  indexTemplate :: template_run
  flowTemplate :: template_run

datatype ('k, 'h) rest_reply =
    NotFoundReply | RedirectReply | FileReply | EmptyReply
  | PageReply "PageData response" | SubmitReplied "SubmitReply option response"
  | CommittedReply "LogRespondEntry list response" | ValueReply "HttpValueRespond response"
  | LogReply "LogRespond response" | LeaderReply "LeaderRespond response"
  | PeersReply "(u64, 'k PeerStatus) gomap response" | FlowsReply "'h FlowRespond response"
  | SizeReply "int response" | RoleReply "Info response" | NodeReply "unit response"

fun rest_handle :: "('c, 'k, 'h) rest_env \<Rightarrow> route \<Rightarrow> (string, string) gomap \<Rightarrow> 'c Server \<Rightarrow> ('c Server \<times> ('k, 'h) rest_reply) go" where
  "rest_handle env RouteIndex vs s =
     bind_go (index_page (indexTemplate env) (fmtUpdate env) (fmtElection env) (statusHttp env) s) (\<lambda>p. Ret (s, PageReply p))"
| "rest_handle env RouteSubmit vs s =
     bind_go (SubmitKeyValue (var ''key'' vs) (var ''val'' vs) s) (\<lambda>(s1, resp). Ret (s1, SubmitReplied resp))"
| "rest_handle env RouteCommitted vs s =
     bind_go (getCommitted (mapOrder env) (parseSize env) (var ''logsize'' vs) s) (\<lambda>resp. Ret (s, CommittedReply resp))"
| "rest_handle env RouteGet vs s = Ret (s, ValueReply (getValue (var ''key'' vs) s))"
| "rest_handle env RouteLog vs s =
     bind_go (getLog_rest (parseSize env) (var ''logsize'' vs) s) (\<lambda>resp. Ret (s, LogReply resp))"
| "rest_handle env RouteShutdown vs s =
     bind_go (shutdownGrpc_route (shutEnv env) s) (\<lambda>(so, _). Ret (case so of Some s1 \<Rightarrow> s1 | None \<Rightarrow> s, EmptyReply))"
| "rest_handle env RouteLeader vs s = bind_go (leader s) (\<lambda>resp. Ret (s, LeaderReply resp))"
| "rest_handle env RoutePeerList vs s =
     bind_go (HandlerPeerList (connState env) (connReady env) s) (\<lambda>resp. Ret (s, PeersReply resp))"
| "rest_handle env RouteFlows vs s =
     bind_go (HandlerFlows (mapOrder env) (parseSize env) (gobDecode env) (var ''size'' vs) s) (\<lambda>resp. Ret (s, FlowsReply resp))"
| "rest_handle env RouteSize vs s = bind_go (HandlerCommitedSize s) (\<lambda>resp. Ret (s, SizeReply resp))"
| "rest_handle env RouteFlowIndex vs s = bind_go (HandleFlowIndex (flowTemplate env) s) (\<lambda>p. Ret (s, PageReply p))"
| "rest_handle env RouteRole vs s =
     bind_go (HandlerRole (fmtUpdate env) (fmtElection env) s) (\<lambda>resp. Ret (s, RoleReply resp))"
| "rest_handle env RouteNodeShutdown vs s =
     bind_go (node_shutdown (shutEnv env) (shutdownHttp env) (var ''node'' vs) s) (\<lambda>(s1, resp). Ret (s1, NodeReply resp))"
| "rest_handle env RouteTemplate vs s = Ret (s, FileReply)"

definition dispatch :: "('c, 'k, 'h) rest_env \<Rightarrow> string \<Rightarrow> 'c Server \<Rightarrow> ('c Server \<times> ('k, 'h) rest_reply) go" where
  "dispatch env path s =
     (case muxMatch env routes path of
        None \<Rightarrow> Ret (s, NotFoundReply)
      | Some (_, _, Redirected) \<Rightarrow> Ret (s, RedirectReply)
      | Some (_, rt, Vars vs) \<Rightarrow> rest_handle env rt vs s)"

section \<open>Every request is answered\<close>

definition answerable :: "('c, 'k, 'h) rest_env \<Rightarrow> raft \<Rightarrow> 'c Server \<Rightarrow> bool" where
  "answerable env r s \<longleftrightarrow> rpc s \<and> raftState s = Some r \<and> (\<forall>e \<in> set (stateLog r). eCommand e \<noteq> None) \<and> peerSpec s \<noteq> [] \<and>
     indexTemplate env \<noteq> ParseFails \<and> flowTemplate env \<noteq> ParseFails"

text \<open>What a request may change: a submission the log, of a running leader, by one entry; a shutdown the state.\<close>

definition request_effect :: "raft \<Rightarrow> 'c Server \<Rightarrow> route \<Rightarrow> 'c Server \<Rightarrow> bool" where
  "request_effect r s rt s' \<longleftrightarrow> s' = s \<or>
     (rt = RouteSubmit \<and> (\<exists>es. s' = s\<lparr>submitRx := submitRx s + 1, raftState := Some (append_log (stateLog r) es r)\<rparr> \<and>
        length es \<le> 1 \<and> (es \<noteq> [] \<longrightarrow> state r = Leader \<and> serverState s = Running))) \<or>
     (rt \<in> {RouteShutdown, RouteNodeShutdown} \<and> s' = s\<lparr>serverState := Shutdown, peerClient := []\<rparr>)"

lemma render_returns: "tmpl \<noteq> ParseFails \<Longrightarrow> \<exists>p. render tmpl d = Ret p"
  by (cases tmpl) auto

text \<open>Such a submission.\<close>

definition submitted_on :: "raft \<Rightarrow> 'c Server \<Rightarrow> LogEntry list \<Rightarrow> 'c Server" where
  "submitted_on r s es = s\<lparr>submitRx := submitRx s + 1, raftState := Some (append_log (stateLog r) es r)\<rparr>"

lemma SubmitCall_answered:
  assumes "raftState s = Some r" "LeaderId s = 0" "peerSpec s \<noteq> []"
  shows "\<exists>es rep err. SubmitCall (Some kv) (Some s) = Ret (submitted_on r s es, rep, err) \<and> length es \<le> 1 \<and>
    (es \<noteq> [] \<longrightarrow> state r = Leader \<and> serverState s = Running)"
proof -
  consider "serverState s \<noteq> Running" | "serverState s = Running" "state r \<noteq> Leader" | "serverState s = Running" "state r = Leader" by blast
  then show ?thesis
  proof cases
    case 1
    have "s\<lparr>submitRx := submitRx s + 1\<rparr> = submitted_on r s []" using assms(1) by (cases s) (simp add: submitted_on_def)
    with handlers_guarded(4) [OF 1] have "\<exists>e. SubmitCall (Some kv) (Some s) = Ret (submitted_on r s [], None, Some e)"
      by simp
    then show ?thesis by force
  next
    case 2
    have "SubmitCall (Some kv) (Some s) = Ret (submitted_on r s [], None, None)"
      using SubmitCall_not_leader [OF 2(1) assms(1) 2(2), of kv] by (simp add: submitted_on_def)
    then show ?thesis by force
  next
    case 3
    have "unat (LeaderId s) < length (peerSpec s)" using assms(2,3) by simp
    then have "\<exists>rep. SubmitCall (Some kv) (Some s) = Ret (submitted_on r s [\<lparr>eTerm = currentTerm r, eCommand = Some kv\<rparr>], rep, None)"
      using SubmitCall_leader [OF 3(1) assms(1) 3(2), of kv] by (simp add: submitted_on_def)
    then show ?thesis using 3 by force
  qed
qed

lemma submitted_on_effect:
  "length es \<le> 1 \<Longrightarrow> (es \<noteq> [] \<longrightarrow> state r = Leader \<and> serverState s = Running) \<Longrightarrow>
     request_effect r s RouteSubmit (submitted_on r s es)"
  by (auto simp: request_effect_def submitted_on_def)

lemma SubmitKeyValue_answered:
  assumes "raftState s = Some r" "LeaderId s = 0" "peerSpec s \<noteq> []"
  shows "\<exists>s' resp. SubmitKeyValue k v s = Ret (s', resp) \<and> request_effect r s RouteSubmit s'"
proof (cases "k = [] \<or> v = [] \<or> DecodeString k = None \<or> DecodeString v = None")
  case True
  then show ?thesis by (auto simp: SubmitKeyValue_def request_effect_def split: option.splits)
next
  case False
  then obtain dk dv where d: "DecodeString k = Some dk" "DecodeString v = Some dv" by auto
  obtain es rep err where
    call: "SubmitCall (Some \<lparr>Key = string_of_bytes dk, Value = dv\<rparr>) (Some s) = Ret (submitted_on r s es, rep, err)"
    and es: "length es \<le> 1" "es \<noteq> [] \<longrightarrow> state r = Leader \<and> serverState s = Running"
    using SubmitCall_answered [OF assms] by blast
  have "\<exists>resp. SubmitKeyValue k v s = Ret (submitted_on r s es, resp)"
    using False d call by (simp add: SubmitKeyValue_def)
  then show ?thesis using submitted_on_effect [OF es] by blast
qed

text \<open>The shutdown routes wait for the lock of the server and for its pending calls.\<close>

definition shutdown_waits :: "('c, 'k, 'h) rest_env \<Rightarrow> route \<Rightarrow> bool" where
  "shutdown_waits env rt \<longleftrightarrow>
     rt \<in> {RouteShutdown, RouteNodeShutdown} \<and> \<not> (serverLock (shutEnv env) \<and> rpcDrains (shutEnv env))"

lemma ShutdownGrpc_answered:
  assumes "rpc s" "rt \<in> {RouteShutdown, RouteNodeShutdown}"
  shows "(ShutdownGrpc e (Some s) = Blocked \<and> \<not> (serverLock e \<and> rpcDrains e)) \<or>
    (\<exists>s' cl. ShutdownGrpc e (Some s) = Ret (Some s', cl) \<and> request_effect r s rt s')"
  using assms by (auto simp: ShutdownGrpc_def Let_def request_effect_def await_def)

lemma node_shutdown_answered:
  assumes "rpc s"
  shows "(node_shutdown e http n s = Blocked \<and> \<not> (serverLock e \<and> rpcDrains e)) \<or>
    (\<exists>s' resp. node_shutdown e http n s = Ret (s', resp) \<and> request_effect r s RouteNodeShutdown s')"
proof (cases "n \<noteq> [] \<and> n = RaftNetworkBind (serverSpec s)")
  case True
  then show ?thesis
    using ShutdownGrpc_answered [OF assms, of RouteNodeShutdown e r] by (auto simp: node_shutdown_def HandlerNodeShutdown_def)
next
  case False
  then have "\<exists>resp. node_shutdown e http n s = Ret (s, resp)"
    by (auto simp: node_shutdown_def HandlerNodeShutdown_def split: option.splits)
  then show ?thesis by (auto simp: request_effect_def)
qed

lemma rest_handle_answers:
  assumes "server_wf s" "answerable env r s"
  shows "(shutdown_waits env rt \<and> rest_handle env rt vs s = Blocked) \<or>
    (\<exists>s' rep. rest_handle env rt vs s = Ret (s', rep) \<and> request_effect r s rt s')"
proof -
  have inv: "volatile_inv (db s)" "LeaderId s = 0" using assms(1) by (simp_all add: server_wf_def server_inv_def)
  note ok = assms(2) [unfolded answerable_def]
  obtain m where copy: "VolatileStorage_GetCopy (db s) = Ret m" using GetCopy_abs [OF inv(1)] by blast
  obtain ps where ps: "Server_PeerStatus (connState env) (connReady env) (Some s) = Ret ps"
    using Server_PeerStatus_returns [OF assms(1), of "connState env" "connReady env"] by auto
  have same: "request_effect r s rt s" by (simp add: request_effect_def)
  have log: "\<exists>resp. getLog_rest (parseSize env) size' s = Ret resp" for size'
    using ok log_loop_Ret [of "stateLog r" "length (stateLog r)" _ "\<lparr>Last_page = 0, Data = []\<rparr>"]
    by (auto simp: getLog_rest_def getLog_def Let_def Max_int_def)
  have index: "\<exists>p. index_page (indexTemplate env) (fmtUpdate env) (fmtElection env) (statusHttp env) s = Ret p"
    using ok by (auto simp: index_page_def HandlerIndex_def Let_def split: prod.splits intro!: render_returns)
  have flow: "\<exists>p. HandleFlowIndex (flowTemplate env) s = Ret p"
    using ok render_returns [of "flowTemplate env"] by (simp add: HandleFlowIndex_def)
  show ?thesis
  proof (cases rt)
    case RouteSubmit
    have "raftState s = Some r" "peerSpec s \<noteq> []" using ok by simp_all
    from SubmitKeyValue_answered [OF this(1) inv(2) this(2)] obtain s' resp where
      "SubmitKeyValue (var ''key'' vs) (var ''val'' vs) s = Ret (s', resp)" "request_effect r s RouteSubmit s'" by blast
    then show ?thesis using RouteSubmit by simp
  next
    case RouteShutdown
    show ?thesis
      using ShutdownGrpc_answered [of s RouteShutdown "shutEnv env" r] ok RouteShutdown
      by (auto simp: shutdownGrpc_route_def shutdown_waits_def)
  next
    case RouteNodeShutdown
    show ?thesis
      using node_shutdown_answered [of s "shutEnv env" "shutdownHttp env" "var ''node'' vs" r] ok RouteNodeShutdown
      by (auto simp: shutdown_waits_def)
  next
    case RouteIndex
    then show ?thesis using index same by auto
  next
    case RouteFlowIndex
    then show ?thesis using flow same by auto
  next
    case RouteLog
    then show ?thesis using log [of "var ''logsize'' vs"] same by auto
  next
    case RouteLeader
    have "\<exists>resp. leader s = Ret resp"
      using ok by (auto simp: leader_def RaftState_def Let_def split: prod.splits option.splits bool.splits)
    then show ?thesis using RouteLeader same by auto
  qed (use ok same copy ps Size_abs [OF inv(1)] in \<open>simp_all add: getCommitted_def HandlerPeerList_def
      HandlerFlows_def HandlerCommitedSize_def HandlerRole_def Let_def\<close>)
qed

lemma log_route_vars:
  assumes "router_ok mux" "mux routes path = Some (mt, RouteLog, Vars vs)"
  shows "vs = []"
proof -
  have "pattern_vars ApiLog = []" by code_simp
  moreover have "(mt, RouteLog) \<in> set routes" "map fst vs = matcher_vars mt"
    using assms unfolding router_ok_def by blast+
  then have "map fst vs = pattern_vars ApiLog" by (auto simp: routes_def)
  ultimately show ?thesis by simp
qed

lemma dispatch_answers:
  assumes "server_wf s" "answerable env r s"
  shows "(\<exists>mt rt vs. muxMatch env routes path = Some (mt, rt, Vars vs) \<and> shutdown_waits env rt \<and> dispatch env path s = Blocked) \<or>
    (\<exists>s' rep. dispatch env path s = Ret (s', rep) \<and>
      (case muxMatch env routes path of None \<Rightarrow> s' = s | Some (mt, rt, m) \<Rightarrow> request_effect r s rt s'))"
proof (cases "muxMatch env routes path")
  case (Some rm)
  then obtain mt rt m where "rm = (mt, rt, m)" by (cases rm)
  then show ?thesis
    using Some rest_handle_answers [OF assms, of rt] by (cases m) (auto simp: dispatch_def request_effect_def)
qed (simp add: dispatch_def)

text \<open>
  The page of the log always has the default size: the handler reads a variable \<open>logsize\<close> that the
  template of its route does not have.
\<close>

lemma dispatch_log_page:
  assumes "answerable env r s" "router_ok (muxMatch env)" "muxMatch env routes path = Some (mt, RouteLog, Vars vs)"
  shows "dispatch env path s = Ret (s, LogReply (Written 200 \<lparr>Last_page = int (min 5 (length (stateLog r))),
    Data = map log_entry_respond (rev (drop (length (stateLog r) - 5) (stateLog r)))\<rparr>))"
proof -
  have "parse_limit (parseSize env) [] = int 5" by (simp add: parse_limit_def DefaultLogSize_def)
  then show ?thesis
    using log_page_is_newest_first [of s r "parseSize env" "[]" 5] assms(1,3) log_route_vars [OF assms(2,3)]
    by (simp add: dispatch_def var_def answerable_def)
qed

end
