(* ===== verification/Pool_Type.thy ===== *)
theory Pool_Type
  imports LoadBalancer
begin

text \<open>
  Sequences of the operations on a server pool. A well-formed pool, whose \<open>poolSize\<close> is the number of its
  members, stays well formed, and no operation panics unless a round-robin selection meets an empty pool.
\<close>

datatype pool_op =
    Adds ServerFarm
  | PicksRoundRobin
  | PicksHash string u32
  | Marks url bool
  | Probes "url \<Rightarrow> bool"

fun pool_do :: "pool_op \<Rightarrow> ServerPool \<Rightarrow> ServerPool go" where
  "pool_do (Adds b) p = Ret (case Add b (Some p) of Some p' \<Rightarrow> p' | None \<Rightarrow> p)"
| "pool_do PicksRoundRobin p =
     bind_go (RoundRobin (Some p)) (\<lambda>(_, so). Ret (case so of Some p' \<Rightarrow> p' | None \<Rightarrow> p))"
| "pool_do (PicksHash addr srcPort) p = bind_go (HashSelection addr srcPort p) (\<lambda>_. Ret p)"
| "pool_do (Marks u alive) p = Ret (UpdateMemberStatus u alive p)"
| "pool_do (Probes probe) p = Ret (HealthCheck probe p)"

fun pool_run :: "pool_op list \<Rightarrow> ServerPool \<Rightarrow> ServerPool go" where
  "pool_run [] p = Ret p"
| "pool_run (a # as) p = bind_go (pool_do a p) (pool_run as)"

fun added :: "pool_op \<Rightarrow> url list" where
  "added (Adds b) = [URL b]"
| "added _ = []"

lemma URL_update_first [simp]: "map URL (update_first u alive ms) = map URL ms"
  by (induction ms) (auto simp: SetAlive_def)

lemma RoundRobin_empty: "pool_wf p \<Longrightarrow> members p = [] \<Longrightarrow> RoundRobin (Some p) = Panic IntegerDivideByZero"
  by (simp add: RoundRobin_def Next_def go_simps pool_wf_def Let_def)

lemma pool_do_type:
  assumes wf: "pool_wf p" and n: "Suc (length (members p)) < 2 ^ 63" and ne: "a = PicksRoundRobin \<Longrightarrow> members p \<noteq> []"
  shows "\<exists>p'. pool_do a p = Ret p' \<and> pool_wf p' \<and> map URL (members p') = map URL (members p) @ added a"
proof (cases a)
  case (Adds b)
  then show ?thesis using n by (simp add: Add_def pool_wf_def Let_def)
next
  case PicksRoundRobin
  then obtain c where "RoundRobin (Some p) = Ret (case rr_pick (members p) (unat (current p + 1) mod length (members p))
      of None \<Rightarrow> Inl ''all server are dead'' | Some i \<Rightarrow> Inr i, Some (p\<lparr>current := c\<rparr>))"
    using RoundRobin_pick [OF wf ne] by blast
  then show ?thesis using wf PicksRoundRobin by simp
next
  case (PicksHash addr srcPort)
  then show ?thesis using wf HashSelection_result [OF wf, of addr srcPort] by (cases "alive_count p = 0") simp_all
next
  case (Marks u alive)
  then show ?thesis using wf by (simp add: UpdateMemberStatus_def pool_wf_def)
next
  case (Probes probe)
  then show ?thesis using wf by (simp add: pool_wf_health) (simp add: HealthCheck_def SetAlive_def comp_def)
qed

text \<open>A selection needs a member that is there from the start or was added before.\<close>

lemma pool_run_type:
  assumes "pool_wf p" "length (members p) + length as < 2 ^ 63"
    and "\<forall>i < length as. as ! i = PicksRoundRobin \<longrightarrow> members p \<noteq> [] \<or> concat (map added (take i as)) \<noteq> []"
  shows "\<exists>p'. pool_run as p = Ret p' \<and> pool_wf p' \<and>
    map URL (members p') = map URL (members p) @ concat (map added as)"
  using assms
proof (induction as arbitrary: p)
  case (Cons a as)
  have "a = PicksRoundRobin \<Longrightarrow> members p \<noteq> []" using Cons.prems(3) by force
  then obtain p1 where p1: "pool_do a p = Ret p1" "pool_wf p1" "map URL (members p1) = map URL (members p) @ added a"
    using pool_do_type [OF Cons.prems(1), of a] Cons.prems(2) by auto
  have len: "length (members p1) + length as < 2 ^ 63"
    using arg_cong [OF p1(3), of length] Cons.prems(2) by (cases a) simp_all
  have some: "members p1 \<noteq> [] \<longleftrightarrow> members p \<noteq> [] \<or> added a \<noteq> []"
    using p1(3) by (metis append_is_Nil_conv map_is_Nil_conv)
  have "\<forall>i < length as. as ! i = PicksRoundRobin \<longrightarrow> members p1 \<noteq> [] \<or> concat (map added (take i as)) \<noteq> []"
  proof (intro allI impI)
    fix i
    assume "i < length as" "as ! i = PicksRoundRobin"
    then show "members p1 \<noteq> [] \<or> concat (map added (take i as)) \<noteq> []"
      using Cons.prems(3) [rule_format, of "Suc i"] some by auto
  qed
  from Cons.IH [OF p1(2) len this] p1 show ?case by auto
qed simp

end
