(* ===== verification/Scenario_Net.thy ===== *)
theory Scenario_Net
  imports Scenario Radix_Tree Log_Alias Write_Path Publishers Rest_Router Pool_Type
begin

text \<open>
  Concrete runs, trees, packets and configurations on which the properties of the cluster, the write path,
  the radix tree, the traffic generator, the sniffer and the bootstrap are exercised.
\<close>

section \<open>A radix tree\<close>

definition sample_leaf :: "string \<Rightarrow> nat \<Rightarrow> nat leafNode option" where
  "sample_leaf k v = Some \<lparr>leafKey = k, leafVal = v\<rparr>"

definition sample_tree :: "nat Tree" where
  "sample_tree = \<lparr>root = Node None [] [(CHR ''r'', Node None ''r''
      [(CHR ''o'', Node (sample_leaf ''rom'' 1) ''om''
         [(CHR ''a'', Node (sample_leaf ''romane'' 2) ''ane'' []), (CHR ''u'', Node (sample_leaf ''romulus'' 3) ''ulus'' [])]),
       (CHR ''u'', Node (sample_leaf ''rub'' 4) ''ub'' [])])],
     tree_size = 4, predicate = Some (\<lambda>_ v. v = 3)\<rparr>"

lemma sample_tree_wf: "tree_wf sample_tree" "node_full (root sample_tree)"
  by code_simp+

lemma sample_tree_facts:
  "predicate sample_tree = Some (\<lambda>_ v. v = 3)" "\<not> missing_edge (root sample_tree) ''roman''"
  "contents sample_tree ''romane'' = Some 2" "Tree_LongestPrefix ''romanesque'' sample_tree = (''romane'', Some 2, True)"
  "length (filter (\<lambda>x. prefix ''rom'' (leafKey x)) (entries (root sample_tree))) = 3"
  by (simp add: sample_tree_def, code_simp+)

section \<open>Packets\<close>

definition sample_packet :: "u64 \<Rightarrow> string \<Rightarrow> packet" where
  "sample_packet h src = \<lparr>TransportLayer = Some \<lparr>FastHash = h, flowSrc = ''5000'', flowDst = ''80'', LayerType = ''TCP''\<rparr>,
     NetworkLayer = Some (src, ''10.0.0.9'')\<rparr>"

definition sample_capture :: "packet list" where
  "sample_capture = [sample_packet 7 ''10.0.0.1'', \<lparr>TransportLayer = None, NetworkLayer = None\<rparr>, sample_packet 7 ''10.0.0.2'',
     sample_packet 7 ''10.0.0.1'', sample_packet 8 ''10.0.0.3'']"

definition sample_table :: flow_table where
  "sample_table = (case capture_loop 100 sample_capture 0 [] of Ret (t, _) \<Rightarrow> t | _ \<Rightarrow> [])"

lemma sample_captured: "capture_loop 100 sample_capture 0 [] = Ret (sample_table, [])"
  by code_simp

text \<open>A toy encoder of header lists that can be decoded: the strings of a header, each with its length.\<close>

definition toy_string :: "string \<Rightarrow> string" where
  "toy_string s = replicate (length s) CHR ''1'' @ ''0'' @ s"

definition untoy_string :: "string \<Rightarrow> string \<times> string" where
  "untoy_string b =
     (let n = length (takeWhile (\<lambda>c. c = CHR ''1'') b); r = drop (Suc n) b in (take n r, drop n r))"

lemma untoy_toy: "untoy_string (toy_string s @ r) = (s, r)"
proof -
  have "takeWhile (\<lambda>c. c = CHR ''1'') (toy_string s @ r) = replicate (length s) CHR ''1''"
    unfolding toy_string_def by (subst append_assoc, subst takeWhile_append2) auto
  then show ?thesis by (simp add: untoy_string_def toy_string_def Let_def)
qed

fun toy_hdrs :: "Hdr list \<Rightarrow> string" where
  "toy_hdrs [] = ''.''"
| "toy_hdrs (h # hs) = ''+'' @ toy_string (SrcPort h) @ toy_string (DstPort h) @ toy_string (SrcIp h) @
     toy_string (DstIp h) @ toy_string (HdrProto h) @ toy_hdrs hs"

fun untoy_hdrs :: "nat \<Rightarrow> string \<Rightarrow> Hdr list" where
  "untoy_hdrs 0 b = []"
| "untoy_hdrs (Suc fuel) b =
     (if take 1 b = ''+'' then
        (case untoy_string (drop 1 b) of (a, b1) \<Rightarrow>
         case untoy_string b1 of (c, b2) \<Rightarrow>
         case untoy_string b2 of (d, b3) \<Rightarrow>
         case untoy_string b3 of (e, b4) \<Rightarrow>
         case untoy_string b4 of (f, b5) \<Rightarrow>
           \<lparr>SrcPort = a, DstPort = c, SrcIp = d, DstIp = e, HdrProto = f\<rparr> # untoy_hdrs fuel b5)
      else [])"

lemma untoy_hdrs: "length hs \<le> fuel \<Longrightarrow> untoy_hdrs fuel (toy_hdrs hs) = hs"
proof (induction hs arbitrary: fuel)
  case Nil
  then show ?case by (cases fuel) simp_all
next
  case (Cons h hs)
  then obtain f where "fuel = Suc f" by (cases fuel) auto
  then show ?case using Cons by (simp add: untoy_toy)
qed

lemma length_toy_hdrs: "length hs \<le> length (toy_hdrs hs)"
  by (induction hs) auto

definition toy_gob :: "Hdr list \<Rightarrow> bytes" where
  "toy_gob hs = bytes_of_string (toy_hdrs hs)"

definition untoy_gob :: "bytes \<Rightarrow> Hdr list option" where
  "untoy_gob b = Some (untoy_hdrs (length b) (string_of_bytes b))"

lemma length_bytes: "length (bytes_of_string s) = length s"
  by (simp add: bytes_of_string_def)

lemma toy_gob_ok: "untoy_gob (toy_gob hs) = Some hs" "toy_gob hs \<noteq> []"
proof -
  show "untoy_gob (toy_gob hs) = Some hs"
    using untoy_hdrs [OF length_toy_hdrs] by (simp add: untoy_gob_def toy_gob_def length_bytes)
  show "toy_gob hs \<noteq> []" by (cases hs) (simp_all add: toy_gob_def bytes_of_string_def)
qed

lemma served_follows: "state (raft_at 0) \<noteq> Leader"
  by code_simp

lemma leading_store: "db leading = Some NewVolatileStorage"
  by code_simp

section \<open>A configuration\<close>

definition sample_controllers :: "Controller list" where
  "sample_controllers = map (\<lambda>a. \<lparr>cAddress = a, cPort = ''35001'', cRest = ''8001'', cMetric = ''2112'', cWWWRoot = []\<rparr>) [''n1'', ''n2'', ''n3'']"

definition sample_artifact :: Artifact where
  "sample_artifact = \<lparr>Formation = \<lparr>cName = ''demo'', Controllers = sample_controllers\<rparr>, BaseDir = []\<rparr>"

definition sample_os :: os_env where
  "sample_os = \<lparr>os_stat = (\<lambda>f. if f = ''/etc/rocinante'' then Directory else Regular), Getwd = Some ''/root'', ReadFile = (\<lambda>_. Some [])\<rparr>"

definition sample_args :: "string list" where "sample_args = [''/etc/rocinante/config.yaml'']"

text \<open>The ports of one host are free.\<close>

definition free_on :: "string \<Rightarrow> string \<Rightarrow> bool" where
  "free_on host b \<longleftrightarrow> take (length host) b = host"

definition sample_read :: Artifact where
  "sample_read = sample_artifact\<lparr>BaseDir := ''/etc/rocinante''\<rparr>"

lemma sample_read_ok:
  "Read sample_os (\<lambda>_. Some sample_artifact) (config_file sample_args) = Ret (Inr sample_read)"
  "Controllers (Formation sample_read) = sample_controllers" "sample_controllers \<noteq> []"
  "distinct (map raft_bind sample_controllers)"
  by code_simp+

lemma sample_hashes: "inj_on server_hash (raft_bind ` set sample_controllers)"
  unfolding inj_on_def by code_simp

lemma sample_started:
  assumes "first_free free sample_controllers = Some i"
  shows "\<exists>s r. node_main sample_os (\<lambda>_. Some sample_artifact) free sample_args = Ret (s :: unit Server) \<and> raftState s = Some r"
proof -
  have i: "i < length sample_controllers" using first_free_Some [OF assms] by blast
  have base: "BaseDir sample_read = ''/etc/rocinante''" "dir_stat sample_os ''/etc/rocinante'' = Some True" by code_simp+
  have "length sample_controllers = 3" by code_simp
  then have len: "length (peer_specs sample_controllers i) \<noteq> 0" using length_peer_specs [OF i] by simp
  have h: "fold (\<lambda>p m. map_set (RaftNetworkBind p) (server_hash (RaftNetworkBind p)) m) (peer_specs sample_controllers i) [] \<noteq> []"
    using set_fst_fold_map_set [of RaftNetworkBind "\<lambda>p. server_hash (RaftNetworkBind p)" "peer_specs sample_controllers i" "[]"] len
    by auto
  obtain s :: "unit Server" where new: "NewServer (dir_stat sample_os) (my_spec (BaseDir sample_read) (sample_controllers ! i))
      (peer_specs sample_controllers i) (cPort (sample_controllers ! i)) True = Ret (Inr s)"
    using len h base
    by (auto simp: NewServer_def NewRaftProtocol_def NewRestfulServer_def IsDir_def Let_def my_spec_def)
  moreover obtain r where "raftState s = Some r" using NewServer_Ret [OF new] by blast
  ultimately show ?thesis unfolding node_main_outcome [OF sample_read_ok(1-3)] assms by auto
qed

section \<open>A leader that overtakes\<close>

text \<open>
  Node 1 wins term 1, commits a command on nodes 1 and 2 and applies it. Node 3, which has seen none of it,
  wins term 2 with the vote of node 2 and replaces the committed entry.
\<close>

definition overtake :: "event list" where
  "overtake = [event.Timeout 200 first_timer 1, Arrive 201 0, Lose 0, Arrive 202 0, ClientSubmit 1 kvA, Heartbeat 1 2,
     Arrive 203 0, Arrive 204 0, Apply 1,
     event.Timeout 400 first_timer 3, Lose 0, Lose 0,
     event.Timeout 700 \<lparr>timeoutDuration = 150, termStarted = 1, oldState = Candidate\<rparr> 3,
     Lose 0, Arrive 701 0, Arrive 702 0, ClientSubmit 3 kvB, Heartbeat 3 2, Arrive 703 0, Arrive 704 0, Apply 3]"

definition overtake_end :: cluster where
  "overtake_end = the_ret cluster3 (cluster_run overtake cluster3)"

lemma overtake_evaluated:
  "cluster_run overtake cluster3 = Ret overtake_end" "terms_won overtake cluster3 = [1, 2]"
  "applied overtake_end = [(1, [\<lparr>ceCommand = kvA, ceIndex = 0, ceTerm = 1\<rparr>]), (3, [\<lparr>ceCommand = kvB, ceIndex = 0, ceTerm = 2\<rparr>])]"
  "length (submitted overtake_end) = 2"
  by code_simp+

lemma overtake_logs:
  "map_option stateLog (map_of (nodes overtake_end) 2) = Some [\<lparr>eTerm = 2, eCommand = Some kvB\<rparr>]"
  "map_option stateLog (map_of (nodes overtake_end) 3) = Some [\<lparr>eTerm = 2, eCommand = Some kvB\<rparr>]"
  by code_simp+

section \<open>An array that is reused\<close>

text \<open>
  Node 1 wins term 1, replicates one of its two entries to node 2 and has the request with the other in the
  making when it receives the two entries of node 3, which has won term 2.
\<close>

definition reuse_before :: "event list" where
  "reuse_before = [event.Timeout 200 first_timer 1, Arrive 201 0, Lose 0, Arrive 202 0, ClientSubmit 1 kvA, Heartbeat 1 2,
     Arrive 203 0, Arrive 204 0, ClientSubmit 1 kvB]"

definition reuse_after :: "event list" where
  "reuse_after = [event.Timeout 400 first_timer 3, Lose 0, Lose 0,
     event.Timeout 700 \<lparr>timeoutDuration = 150, termStarted = 1, oldState = Candidate\<rparr> 3,
     Lose 0, Arrive 701 0, Arrive 702 0, ClientSubmit 3 kvB, ClientSubmit 3 kvA, Heartbeat 3 1, Arrive 703 0]"

definition reuse_start :: cluster where
  "reuse_start = the_ret cluster3 (cluster_run reuse_before cluster3)"

definition reuse_end :: cluster where
  "reuse_end = the_ret cluster3 (cluster_run (reuse_before @ reuse_after) cluster3)"

definition node_of :: "u64 \<Rightarrow> cluster \<Rightarrow> raft" where
  "node_of i c = the (map_of (nodes c) i)"

definition reuse_mem :: log_mem where
  "reuse_mem = Submit_mem [] \<lparr>eTerm = 1, eCommand = Some kvB\<rparr> (Submit_mem [] \<lparr>eTerm = 1, eCommand = Some kvA\<rparr>
     \<lparr>arrays = [[]], stateLog_slice = \<lparr>sArr = 0, sOff = 0, sLen = 0, sCap = 0\<rparr>\<rparr>)"

definition reuse_received :: AppendEntriesMsg where
  "reuse_received = \<lparr>aeTerm = 2, aeLeaderId = 3, aePrevLogIndex = MaxUint64, aePrevLogTerm = MaxUint64,
     aeEntries = [\<lparr>eTerm = 2, eCommand = Some kvB\<rparr>, \<lparr>eTerm = 2, eCommand = Some kvA\<rparr>], aeLeaderCommit = MaxUint64\<rparr>"

definition reuse_late :: log_mem where
  "reuse_late = the_ret reuse_mem (ae_insert_mem [] reuse_received reuse_mem)"

definition reuse_slice :: slice where
  "reuse_slice = the_ret (stateLog_slice reuse_mem) (request_slice 1 reuse_mem)"

definition reuse_request :: AppendEntriesMsg where
  "reuse_request = fst (the_ret (reuse_received, 0) (broadcastMsg_send 2 1 (node_of 1 reuse_start)))"

definition after_request :: "AppendEntriesMsg \<Rightarrow> LogEntry list" where
  "after_request req = stateLog (fst (the_ret (node_of 2 reuse_end, Inl []) (AppendEntries_run 800 req (node_of 2 reuse_end))))"

lemma reuse_run:
  "cluster_run reuse_before cluster3 = Ret reuse_start" "cluster_run (reuse_before @ reuse_after) cluster3 = Ret reuse_end"
  "distinct (terms_won (reuse_before @ reuse_after) cluster3)"
  by code_simp+

lemma reuse_holds:
  "holds reuse_mem (stateLog (node_of 1 reuse_start))" "holds reuse_late (stateLog (node_of 1 reuse_end))"
  "ae_insert_mem [] reuse_received reuse_mem = Ret reuse_late" "request_slice 1 reuse_mem = Ret reuse_slice"
  "broadcastMsg_send 2 1 (node_of 1 reuse_start) = Ret (reuse_request, 1)"
  by code_simp+

lemma reuse_holds_raft: "holds_raft reuse_mem (node_of 1 reuse_start)"
  by code_simp

lemma reuse_logs:
  "logs_match (after_request reuse_request) (stateLog (node_of 3 reuse_end))"
  "\<not> logs_match (after_request (encoded reuse_slice reuse_late reuse_request)) (stateLog (node_of 3 reuse_end))"
  "encoded reuse_slice reuse_mem reuse_request = reuse_request"
  by code_simp+

section \<open>Logs that have been cut\<close>

definition kvC :: KeyValuePair where "kvC = \<lparr>Key = ''z'', Value = [3]\<rparr>"

text \<open>Node 1 wins term 1 and replicates two entries to node 2.\<close>

definition lead_first :: "event list" where
  "lead_first = [event.Timeout 200 first_timer 1, Arrive 201 0, Lose 0, Arrive 202 0, ClientSubmit 1 kvA, ClientSubmit 1 kvB,
     Heartbeat 1 2, Arrive 203 0, Arrive 204 0]"

text \<open>Node 3, which has seen none of it, wins term 2 with the vote of node 2 and replicates one entry to node 1.\<close>

definition lead_second :: "event list" where
  "lead_second = [event.Timeout 400 first_timer 3, Lose 0, Lose 0,
     event.Timeout 700 \<lparr>timeoutDuration = 150, termStarted = 1, oldState = Candidate\<rparr> 3,
     Lose 0, Arrive 701 0, Arrive 702 0, ClientSubmit 3 kvC, Heartbeat 3 1, Arrive 703 0]"

text \<open>Node 1 is elected again with the vote of node 2.\<close>

definition lead_again :: "event list" where
  "lead_again = [Lose 0, event.Timeout 900 \<lparr>timeoutDuration = 150, termStarted = 2, oldState = Follower\<rparr> 1,
     Arrive 901 0, Lose 0, Arrive 902 0]"

definition first_led :: cluster where
  "first_led = the_ret cluster3 (cluster_run lead_first cluster3)"

definition led_again :: cluster where
  "led_again = the_ret cluster3 (cluster_run (lead_second @ lead_again) first_led)"

lemma cut_evaluated:
  "cluster_run lead_first cluster3 = Ret first_led" "cluster_run (lead_second @ lead_again) first_led = Ret led_again"
  "terms_won (lead_first @ lead_second @ lead_again) cluster3 = [1, 2, 3]"
  "map_of (nodes first_led) 1 = Some (node_of 1 first_led)" "map_of (nodes led_again) 1 = Some (node_of 1 led_again)"
  "cluster_event (Heartbeat 1 2) led_again = Panic SliceOutOfRange"
  by code_simp+

lemma cut_nodes:
  "state (node_of 1 first_led) = Leader" "length (stateLog (node_of 1 first_led)) = 2" "map_get0 (nextIndex (node_of 1 first_led)) 2 = 2"
  "state (node_of 1 led_again) = Leader" "length (stateLog (node_of 1 led_again)) = 1" "map_get0 (nextIndex (node_of 1 led_again)) 2 = 2"
  by code_simp+

text \<open>
  Instead, node 2 learns the commit index of node 1 before node 3 is elected, and afterwards receives the entry of
  node 3, before its own commit loop has run.
\<close>

definition stale_run :: "event list" where
  "stale_run = lead_first @ [Heartbeat 1 2, Arrive 205 0, Lose 0] @ lead_second @
     [Arrive 704 0, Heartbeat 3 2, Arrive 705 0, Apply 2]"

definition stale_end :: cluster where
  "stale_end = the_ret cluster3 (cluster_run stale_run cluster3)"

lemma stale_evaluated:
  "cluster_run stale_run cluster3 = Ret stale_end" "terms_won stale_run cluster3 = [1, 2]" "requests_intact stale_run cluster3"
  "applied stale_end = [(2, [\<lparr>ceCommand = kvC, ceIndex = 0, ceTerm = 2\<rparr>, \<lparr>ceCommand = kvB, ceIndex = 1, ceTerm = 2\<rparr>])]"
  "map (stateLog \<circ> snd) (nodes stale_end) = replicate 3 [\<lparr>eTerm = 2, eCommand = Some kvC\<rparr>]"
  by code_simp+

section \<open>A write\<close>

definition peer_one :: u64 where "peer_one = raft_id (raft_at 1)"

definition leader_zero :: raft where "leader_zero = makeLeader (raft_at 0)"

definition follower_one :: raft where "follower_one = raft_at 1"

lemma zero_facts:
  "state leader_zero = Leader" "currentTerm leader_zero = 0" "stateLog leader_zero = []" "map_get0 (nextIndex leader_zero) peer_one = 0"
  "can_send leader_zero" "last_applied leader_zero = MaxUint64" "commit_index leader_zero = MaxUint64"
  "peer_one \<in> snd ` set (peers leader_zero)" "numberPeers leader_zero \<le> 2"
  "state follower_one \<noteq> Dead" "currentTerm follower_one = 0" "stateLog follower_one = []" "can_send follower_one"
  by code_simp+

lemma write_ready: "replicating peer_one (appended key val leader_zero) follower_one" "indices_ok leader_zero"
proof -
  have "can_send (appended key val leader_zero)" using zero_facts(5) by (simp add: can_send_def appended_def)
  moreover have "(0 :: u64) \<noteq> MaxUint64" by simp
  ultimately show "replicating peer_one (appended key val leader_zero) follower_one"
    by (simp add: replicating_def appended_def zero_facts log_fits_def logs_match_def)
  show "indices_ok leader_zero" by (simp add: indices_ok_def zero_facts)
qed

text \<open>The last segment of a path.\<close>

definition last_one :: "string \<Rightarrow> string option" where
  "last_one url = Some (rev (takeWhile (\<lambda>c. c \<noteq> CHR ''/'') (rev url)))"

lemma last_one_ok: "mux_get_ok lead last_one"
  unfolding mux_get_ok_def
proof (intro allI impI)
  fix k :: string
  assume "url_segment k"
  then have k: "CHR ''/'' \<notin> set (rev k)" by (simp add: url_segment_slash)
  have "rev (''http://'' @ lead @ ApiGet @ ''/'' @ k) = rev k @ CHR ''/'' # rev (''http://'' @ lead @ ApiGet)" by simp
  then show "last_one (''http://'' @ lead @ ApiGet @ ''/'' @ k) = Some k"
    unfolding last_one_def by (simp only: takeWhile_segment [OF k] rev_rev_ident)
qed

section \<open>Two publishers\<close>

definition sample_client :: RestClient where
  "sample_client = \<lparr>endpoint = [], client_leader = ''n1:8001'', verbose = False\<rparr>"

definition sample_sniffer :: Sniffer where
  "sample_sniffer = \<lparr>DeviceName = ''eth0'', lastReadLen = 1600, numPktBuffer = 100, sniffer_verbose = False, apiRestEndpoints = [''http://n1:8001'']\<rparr>"

definition fresh_crew :: "unit crew" where
  "fresh_crew = start_crew sample_sniffer [sample_client, sample_client] sample_capture ()"

definition sample_crew :: "unit crew" where
  "sample_crew = fresh_crew\<lparr>source := [], tables := [sample_table], workers := [(sample_client, Holding sample_table), (sample_client, Selecting)]\<rparr>"

lemma sample_crew_runs:
  "crew_run sample_sniffer http post gob (start_crew sample_sniffer [sample_client, sample_client] sample_capture ()) sample_crew"
proof -
  let ?full = "(make_chan 32)\<lparr>chBuf := [sample_table]\<rparr> :: flow_table gochan"
  let ?k1 = "fresh_crew\<lparr>source := [], buffer := ?full, capturer := Choosing, tables := [sample_table]\<rparr>"
  let ?k2 = "?k1\<lparr>buffer := make_chan 32, capturer := Sending sample_table\<rparr>"
  let ?k3 = "?k2\<lparr>captureReady := (make_chan 100)\<lparr>chBuf := [sample_table]\<rparr>, capturer := Capturing\<rparr>"
  have start: "source fresh_crew = sample_capture" "buffer fresh_crew = make_chan 32" "capturer fresh_crew = Capturing" "tables fresh_crew = []"
    "captureReady fresh_crew = make_chan 100" "workers fresh_crew = [(sample_client, Selecting), (sample_client, Selecting)]"
    by (simp_all add: fresh_crew_def start_crew_def sample_sniffer_def)
  have "capture sample_sniffer (source fresh_crew) (buffer fresh_crew) = Ret (?full, [])"
    by (simp add: start capture_def sample_sniffer_def sample_captured chan_send_def make_chan_def)
  from crew_step.captures [OF start(3) this] have 1: "crew_step sample_sniffer http post gob fresh_crew ?k1" by (simp add: start)
  have "capturer ?k1 = Choosing" "chan_recv (buffer ?k1) = Ret (Some sample_table, make_chan 32)"
    by (simp_all add: chan_recv_def make_chan_def)
  from crew_step.chooses [OF this] have 2: "crew_step sample_sniffer http post gob ?k1 ?k2" .
  have "capturer ?k2 = Sending sample_table" "chan_send sample_table (captureReady ?k2) = Ret ((make_chan 100)\<lparr>chBuf := [sample_table]\<rparr>)"
    by (simp_all add: start chan_send_def make_chan_def)
  from crew_step.sends [OF this] have 3: "crew_step sample_sniffer http post gob ?k2 ?k3" .
  have "0 < length (workers ?k3)" "workers ?k3 ! 0 = (sample_client, Selecting)"
    "publish_take (captureReady ?k3) = Ret (sample_table, make_chan 100)"
    by (simp_all add: start publish_take_def chan_recv_def make_chan_def)
  from crew_step.takes [OF this] have 4: "crew_step sample_sniffer http post gob ?k3 sample_crew"
    by (simp add: sample_crew_def fresh_crew_def start_crew_def sample_sniffer_def)
  show ?thesis
    using crew_run.step [OF crew_run.step [OF crew_run.step [OF crew_run.step [OF crew_run.init 1] 2] 3] 4] unfolding fresh_crew_def .
qed

lemma sample_crew_facts: "quits sample_crew = 0" "snd (workers sample_crew ! 0) \<noteq> Selecting"
  by (simp_all add: sample_crew_def fresh_crew_def start_crew_def)

section \<open>A request to the router\<close>

text \<open>A router that takes the first entry that matches and knows the templates without variables.\<close>

fun first_match :: router where
  "first_match [] path = None"
| "first_match ((Path t, rt) # tab) path =
     (if t = path \<and> pattern_vars t = [] then Some (Path t, rt, Vars []) else first_match tab path)"
| "first_match ((PathPrefix t, rt) # tab) path =
     (if take (length t) path = t then Some (PathPrefix t, rt, Vars []) else first_match tab path)"

lemma first_match_ok: "router_ok first_match"
proof -
  have "(mt, rt) \<in> set tab \<and> (\<forall>vs. m = Vars vs \<longrightarrow> map fst vs = matcher_vars mt)"
    if "first_match tab path = Some (mt, rt, m)" for tab path mt rt m
    using that by (induction tab path rule: first_match.induct) (auto split: if_splits)
  then show ?thesis unfolding router_ok_def by blast
qed

definition plain_env :: "(unit, unit, unit) rest_env" where
  "plain_env = \<lparr>muxMatch = first_match, parseSize = \<lambda>_. None,
     fmtUpdate = \<lambda>_. [], fmtElection = \<lambda>_. [], statusHttp = \<lambda>_. Timeout, shutdownHttp = \<lambda>_. Timeout,
     shutEnv = \<lparr>portFree = \<lambda>_. True, serverLock = True, raftLock = True, rpcDrains = True\<rparr>, mapOrder = id,
     connState = id, connReady = (), gobDecode = \<lambda>_. None, indexTemplate = Executes, flowTemplate = ExecuteFails\<rparr>"

lemma plain_env_facts:
  "router_ok (muxMatch plain_env)" "answerable plain_env (makeLeader (raft_at 0)) leading"
  "muxMatch plain_env routes ''/log'' = Some (Path ''/log'', RouteLog, Vars [])"
proof -
  show "router_ok (muxMatch plain_env)" by (simp add: first_match_ok plain_env_def)
  have "stateLog (makeLeader (raft_at 0)) = []" by code_simp
  then show "answerable plain_env (makeLeader (raft_at 0)) leading"
    using leading_facts by (simp add: answerable_def plain_env_def)
  show "muxMatch plain_env routes ''/log'' = Some (Path ''/log'', RouteLog, Vars [])" by code_simp
qed

end
