(* ===== verification/Apply.thy ===== *)
theory Apply
  imports Raft_Steps Server
begin

text \<open>
  From the log to the client: the entries that \<open>commitChannel\<close> sends (\<open>consensus.go\<close>) are stored by
  \<open>ReadCommits\<close> and read back by \<open>GetValue\<close> (\<open>main_server.go\<close>).
\<close>

lemma stable_run_stream: "stable_run n \<Longrightarrow> stream_ok n"
  by (induction rule: stable_run.induct) (auto intro: section_step_stream NewRaftProtocol_stream)

text \<open>The entry delivered at position \<open>i\<close> is the command of log position \<open>i\<close>, numbered \<open>i\<close>.\<close>

lemma delivered_nth:
  assumes "stable_run n" and i: "i < count_of (last_applied (nraft n))"
  shows "i < length (delivered n) \<and> ceIndex (delivered n ! i) = of_nat i \<and>
    eCommand (stateLog (nraft n) ! i) = Some (ceCommand (delivered n ! i))"
proof -
  let ?N = "count_of (last_applied (nraft n))"
  have stream: "map ceIndex (delivered n) = map of_nat [0..<?N]"
    using stable_run_stream [OF assms(1)] by (simp add: stream_ok_def)
  have content: "map (\<lambda>c. Some (ceCommand c)) (delivered n) = map eCommand (take ?N (stateLog (nraft n)))"
    using stable_run_content [OF assms(1)] by (simp add: content_ok_def)
  have len: "length (delivered n) = ?N" using arg_cong [OF stream, of length] by simp
  have "?N \<le> length (stateLog (nraft n))" using arg_cong [OF content, of length] len by simp
  then have "Some (ceCommand (delivered n ! i)) = eCommand (stateLog (nraft n) ! i)"
    using arg_cong [OF content, of "\<lambda>xs. xs ! i"] i len by simp
  moreover have "ceIndex (delivered n ! i) = of_nat i"
    using arg_cong [OF stream, of "\<lambda>xs. xs ! i"] i len by simp
  ultimately show ?thesis using i len by simp
qed

lemma delivered_length: "stable_run n \<Longrightarrow> length (delivered n) = count_of (last_applied (nraft n))"
  using arg_cong [OF stable_run_stream [unfolded stream_ok_def], of n length] by simp

text \<open>\<open>last_write log N k i\<close>: entry \<open>i\<close> is the last of the first \<open>N\<close> entries that writes the key \<open>k\<close>.\<close>

definition last_write :: "LogEntry list \<Rightarrow> nat \<Rightarrow> KeyValuePair \<Rightarrow> nat \<Rightarrow> bool" where
  "last_write log N c i \<longleftrightarrow> i < N \<and> eCommand (log ! i) = Some c \<and>
     (\<forall>j < N. i < j \<longrightarrow> map_option Key (eCommand (log ! j)) \<noteq> Some (Key c))"

lemma GetValue_applied:
  assumes run: "stable_run n" and s0: "server_inv s0" "serverState s0 = Running"
    and read: "ReadCommits_all (delivered n) s0 = Ret s"
    and last: "last_write (stateLog (nraft n)) (count_of (last_applied (nraft n))) c i"
  shows "GetValue False False (Key c) (Some s) =
    Ret (Some \<lparr>gvVal = Value c, gvIndex = of_nat i, gvSuccess = True\<rparr>, None)"
proof -
  let ?d = "delivered n"
  from last have i: "i < count_of (last_applied (nraft n))" by (simp add: last_write_def)
  note here = delivered_nth [OF run i]
  have split: "?d = take i ?d @ ?d ! i # drop (Suc i) ?d" using here by (simp add: id_take_nth_drop)
  have "Key (ceCommand d) \<noteq> Key c" if "d \<in> set (drop (Suc i) ?d)" for d
  proof -
    from that obtain j where j: "j < length ?d" "i < j" "d = ?d ! j"
      by (auto simp: in_set_conv_nth) (metis add_Suc_right less_add_Suc1 less_diff_conv add.commute)
    then show ?thesis
      using last delivered_nth [OF run, of j] delivered_length [OF run] by (auto simp: last_write_def)
  qed
  moreover have "ceCommand (?d ! i) = c" using here last by (simp add: last_write_def)
  ultimately show ?thesis
    using GetValue_last_commit [OF s0, of "drop (Suc i) ?d" "?d ! i" "take i ?d" s] read split here by simp
qed

end
