(* ===== verification/Pipeline.thy ===== *)
theory Pipeline
  imports Apply
begin

text \<open>
  The way of a committed entry through the goroutines of a server. A critical section that advances the
  commit index sends a signal on \<open>commitReadyChan\<close> while it holds the lock of the Raft module; the goroutine of
  \<open>commitChannel\<close> receives the signal, takes the lock to collect the entries, releases it and sends them one
  by one on the commit channel (\<open>consensus.go\<close>); the goroutine of \<open>ReadCommits\<close> stores them
  (\<open>main_server.go\<close>). Both channels have 32 places. The lock is explicit here: a section whose signal does
  not fit keeps it.
\<close>

section \<open>The goroutines\<close>

datatype pump = Ranging | Locking | Pushing "CommitEntry list" | Finished

text \<open>
  \<open>held\<close> is the signal of the section that has the lock and waits for a place; \<open>sent\<close> and \<open>kept\<close> are the
  history of what was collected from the log and what was stored.
\<close>

record 'c pipe =
  praft :: raft
  held :: "CommitReady option"
  pump :: pump
  pserver :: "'c Server"
  sent :: "CommitEntry list"
  kept :: "CommitEntry list"

definition unsignalled :: "raft \<Rightarrow> raft" where
  "unsignalled r = r\<lparr>commitReadyChan := (commitReadyChan r)\<lparr>chBuf := []\<rparr>\<rparr>"

text \<open>A section is run on an empty channel, which tells the signal it wants to send.\<close>

definition after_section :: "raft \<Rightarrow> raft \<Rightarrow> raft" where
  "after_section r r' = r'\<lparr>commitReadyChan := (commitReadyChan r')\<lparr>chBuf := chBuf (commitReadyChan r)\<rparr>\<rparr>"

definition signal_of :: "raft \<Rightarrow> CommitReady option" where
  "signal_of r' = (case chBuf (commitReadyChan r') of [] \<Rightarrow> None | x # _ \<Rightarrow> Some x)"

text \<open>The steps that bring entries forward, and the others: new sections and the end of the loop.\<close>

inductive pipe_work :: "'c pipe \<Rightarrow> 'c pipe \<Rightarrow> bool" where
  release: "held p = Some x \<Longrightarrow> chan_send x (commitReadyChan (praft p)) = Ret ch \<Longrightarrow>
     pipe_work p (p\<lparr>held := None, praft := (praft p)\<lparr>commitReadyChan := ch\<rparr>\<rparr>)"
| receive: "pump p = Ranging \<Longrightarrow> chan_recv (commitReadyChan (praft p)) = Ret (Some x, ch) \<Longrightarrow>
     pipe_work p (p\<lparr>pump := Locking, praft := (praft p)\<lparr>commitReadyChan := ch\<rparr>\<rparr>)"
| collect: "pump p = Locking \<Longrightarrow> held p = None \<Longrightarrow> commitChannel_round (praft p) = Ret (cs, r') \<Longrightarrow>
     pipe_work p (p\<lparr>pump := Pushing cs, praft := r', sent := sent p @ cs\<rparr>)"
| push: "pump p = Pushing (c # cs) \<Longrightarrow> chan_send c (commitProducer (pserver p)) = Ret ch \<Longrightarrow>
     pipe_work p (p\<lparr>pump := Pushing cs, pserver := (pserver p)\<lparr>commitProducer := ch\<rparr>\<rparr>)"
| again: "pump p = Pushing [] \<Longrightarrow> pipe_work p (p\<lparr>pump := Ranging\<rparr>)"
| store: "chBuf (commitProducer (pserver p)) = c # cs \<Longrightarrow> ReadCommits_iter (pserver p) = Ret s \<Longrightarrow>
     pipe_work p (p\<lparr>pserver := s, kept := kept p @ [c]\<rparr>)"

inductive pipe_step :: "'c pipe \<Rightarrow> 'c pipe \<Rightarrow> bool" where
  work: "pipe_work p p' \<Longrightarrow> pipe_step p p'"
| enter: "held p = None \<Longrightarrow>
     section_step \<lparr>nraft = unsignalled (praft p), delivered = []\<rparr> \<lparr>nraft = r', delivered = []\<rparr> \<Longrightarrow>
     pipe_step p (p\<lparr>praft := after_section (praft p) r', held := signal_of r'\<rparr>)"
| finish: "pump p = Ranging \<Longrightarrow> chan_recv (commitReadyChan (praft p)) = Ret (None, ch) \<Longrightarrow>
     pipe_step p (p\<lparr>pump := Finished\<rparr>)"

definition pipe_init :: "raft \<Rightarrow> 'c Server \<Rightarrow> 'c pipe" where
  "pipe_init r s = \<lparr>praft = r, held = None, pump = Ranging, pserver = s, sent = [], kept = []\<rparr>"

inductive pipe_run :: "'c Server \<Rightarrow> 'c pipe \<Rightarrow> bool" for s0 where
  init: "NewRaftProtocol i ps k = Inr r \<Longrightarrow> pipe_run s0 (pipe_init r s0)"
| step: "pipe_run s0 p \<Longrightarrow> pipe_step p p' \<Longrightarrow> pipe_run s0 p'"

inductive_cases pipe_workE: "pipe_work p p'"

section \<open>What a section does to the channel of signals\<close>

lemma ae_insert_chan: "ae_insert req r = Ret r' \<Longrightarrow> commitReadyChan r' = commitReadyChan r \<and> volatileState r' = volatileState r"
  by (auto simp: ae_insert_def bind_go_Ret_iff split: if_splits prod.splits)

lemma commit_loop_chan: "commitReadyChan (commit_loop i r) = commitReadyChan r"
  by (induction i r rule: commit_loop.induct) (subst commit_loop.simps, simp)

definition chan_ok :: "raft \<Rightarrow> raft \<Rightarrow> bool" where
  "chan_ok r r' \<longleftrightarrow> chCap (commitReadyChan r') = chCap (commitReadyChan r) \<and> last_applied r' = last_applied r \<and>
     (chBuf (commitReadyChan r') \<noteq> chBuf (commitReadyChan r) \<longrightarrow> \<not> chClosed (commitReadyChan r')) \<and>
     (commit_index r' \<noteq> commit_index r \<longrightarrow> chBuf (commitReadyChan r') \<noteq> chBuf (commitReadyChan r))"

lemma ae_commit_chan: "ae_commit t req r = Ret r' \<Longrightarrow> chan_ok r r'"
  by (auto simp: ae_commit_def chan_ok_def go_simps Let_def split: if_splits)

lemma AppendEntries_locked_chan:
  assumes "AppendEntries_locked now t req r = Ret (r', ok)"
  shows "chan_ok r r'"
proof (cases "prev_matches req (r\<lparr>electionResetEvent := now\<rparr>)")
  case True
  then obtain r1 where r1: "ae_insert req (r\<lparr>electionResetEvent := now\<rparr>) = Ret r1" "ae_commit t req r1 = Ret r'"
    using assms by (auto simp: AppendEntries_locked_def Let_def bind_go_Ret_iff)
  then show ?thesis using ae_insert_chan [OF r1(1)] ae_commit_chan [OF r1(2)] by (simp add: chan_ok_def)
next
  case False
  then show ?thesis using assms by (auto simp: AppendEntries_locked_def Let_def chan_ok_def)
qed

lemma broadcastMsg_locked_chan: "broadcastMsg_locked p nx k t reply r = Ret r' \<Longrightarrow> chan_ok r r'"
  by (auto simp: broadcastMsg_locked_def broadcastMsg_success_def go_simps Let_def bind_go_Ret_iff chan_ok_def
      commit_loop_chan commit_loop_applied split: if_splits)

lemma section_chan:
  assumes "section_step n n'" "chBuf (commitReadyChan (nraft n)) = []"
  shows "chan_ok (nraft n) (nraft n') \<and> delivered n' = delivered n"
  using assms
proof (cases rule: section_step.cases)
  case (deliver cs r')
  then show ?thesis using assms(2) by (auto simp: commitChannel_iter_def go_simps split: if_splits)
next
  case (append now t req r' ok)
  then show ?thesis using AppendEntries_locked_chan by auto
next
  case (acknowledge p nx k t reply r')
  then show ?thesis using broadcastMsg_locked_chan by auto
qed (auto simp: chan_ok_def makeFollower_def spawn_def RequestVote_decide_def startElection_begin_def makeLeader_def
    Submit_def Raft_Shutdown_def go_simps bind_go_Ret_iff split: if_splits option.splits)

section \<open>A round of \<open>commitChannel\<close>\<close>

text \<open>
  A round returns unless the commit index is past the end of the log, which other flaws of the module can
  cause; after it the commit index has been reached.
\<close>

definition round_ok :: "raft \<Rightarrow> bool" where
  "round_ok r \<longleftrightarrow> (case commitChannel_round r of Ret _ \<Rightarrow> True | _ \<Rightarrow> False)"

lemma round_ok_Ret: "round_ok r \<longleftrightarrow> (\<exists>cs r'. commitChannel_round r = Ret (cs, r'))"
  by (auto simp: round_ok_def split: go.splits)

lemma round_ok_chan [simp]: "round_ok (r\<lparr>commitReadyChan := c\<rparr>) = round_ok r"
  by (auto simp: round_ok_Ret commitChannel_round_def commitChannel_section_def bind_go_Ret_iff split: if_splits)

lemma round_again:
  assumes "commitChannel_round r = Ret (cs, r')"
  shows "round_ok r'" "commit_index r' = commit_index r" "count_of (commit_index r) \<le> count_of (last_applied r')"
proof -
  have "r' = (if commit_index r > last_applied r \<or> last_applied r = MaxUint64 then set_applied (commit_index r) r else r)"
    using assms by (auto simp: commitChannel_round_def commitChannel_section_def bind_go_Ret_iff split: if_splits)
  moreover have "count_of (commit_index r) \<le> count_of (last_applied r)"
    if "\<not> (commit_index r > last_applied r \<or> last_applied r = MaxUint64)"
    using that by (cases "commit_index r = MaxUint64") (simp_all add: count_of_Suc not_less word_le_nat_alt)
  ultimately show "round_ok r'" "commit_index r' = commit_index r" "count_of (commit_index r) \<le> count_of (last_applied r')"
    using assms by (auto simp: round_ok_Ret commitChannel_round_def commitChannel_section_def go_simps)
qed

section \<open>Nothing is lost, repeated or reordered\<close>

definition in_pump :: "'c pipe \<Rightarrow> CommitEntry list" where
  "in_pump p = (case pump p of Pushing cs \<Rightarrow> cs | _ \<Rightarrow> [])"

definition flow_inv :: "'c pipe \<Rightarrow> bool" where
  "flow_inv p \<longleftrightarrow> stream_ok \<lparr>nraft = praft p, delivered = sent p\<rparr> \<and>
     sent p = kept p @ chBuf (commitProducer (pserver p)) @ in_pump p"

definition chan_inv :: "'c pipe \<Rightarrow> bool" where
  "chan_inv p \<longleftrightarrow> \<not> chClosed (commitProducer (pserver p)) \<and> chCap (commitProducer (pserver p)) = 32 \<and>
     chCap (commitReadyChan (praft p)) = 32 \<and> length (chBuf (commitReadyChan (praft p))) \<le> 32 \<and>
     (held p \<noteq> None \<longrightarrow> \<not> chClosed (commitReadyChan (praft p)))"

definition store_inv :: "'c Server \<Rightarrow> 'c pipe \<Rightarrow> bool" where
  "store_inv s0 p \<longleftrightarrow> (\<exists>s. ReadCommits_all (kept p) s0 = Ret s \<and> server_inv s \<and>
     db (pserver p) = db s \<and> committedLog (pserver p) = committedLog s)"

lemma ReadCommits_all_snoc: "ReadCommits_all (cs @ [c]) s = bind_go (ReadCommits_all cs s) (ReadCommits_store c)"
proof (induction cs arbitrary: s)
  case Nil
  have "ReadCommits_all [] = (Ret :: 'a Server \<Rightarrow> 'a Server go)" by (rule ext) simp
  then show ?case by (simp add: bind_go_Ret_right)
next
  case (Cons a cs)
  have "ReadCommits_all (cs @ [c]) = (\<lambda>x :: 'a Server. bind_go (ReadCommits_all cs x) (ReadCommits_store c))"
    by (rule ext) (rule Cons)
  then show ?case by (simp add: bind_go_assoc)
qed

lemma ReadCommits_iter_Ret:
  assumes "chBuf (commitProducer s) = c # cs" "server_inv s"
  shows "ReadCommits_iter s = ReadCommits_store c (s\<lparr>commitProducer := (commitProducer s)\<lparr>chBuf := cs\<rparr>\<rparr>)"
  using assms by (simp add: ReadCommits_iter_def go_simps)

lemma ReadCommits_store_frame:
  assumes "server_inv s" "ReadCommits_store c s = Ret s'"
  shows "server_inv s'" "commitProducer s' = commitProducer s"
    "db t = db s \<Longrightarrow> committedLog t = committedLog s \<Longrightarrow>
       \<exists>t'. ReadCommits_store c t = Ret t' \<and> db t' = db s' \<and> committedLog t' = committedLog s' \<and> server_inv t'"
proof -
  have s': "s' = s\<lparr>db := VolatileStorage_Set (Key (ceCommand c)) (Value (ceCommand c)) (db s),
    committedLog := VolatileStorage_Set (Key (ceCommand c)) (PutUint64 (ceIndex c)) (committedLog s)\<rparr>"
    using ReadCommits_store_Ret [OF assms(1)] assms(2) by simp
  then show inv: "server_inv s'" "commitProducer s' = commitProducer s"
    using assms(1) by (simp_all add: server_inv_def vol.set_inv)
  assume t: "db t = db s" "committedLog t = committedLog s"
  then have "server_inv t" using assms(1) by (simp add: server_inv_def)
  from ReadCommits_store_Ret [OF this, of c] t s' inv
  show "\<exists>t'. ReadCommits_store c t = Ret t' \<and> db t' = db s' \<and> committedLog t' = committedLog s' \<and> server_inv t'"
    by (auto simp: server_inv_def)
qed

lemma pipe_work_flow:
  assumes "pipe_work p p'" "flow_inv p" "server_inv (pserver p)"
  shows "flow_inv p'"
  using assms(1)
proof (cases rule: pipe_work.cases)
  case (collect cs r')
  have "map ceIndex (sent p) = map of_nat [0..<count_of (last_applied (praft p))]"
    using assms(2) unfolding flow_inv_def stream_ok_def node.simps by (elim conjE)
  then have "map ceIndex (sent p @ cs) = map of_nat [0..<count_of (last_applied r')]"
    using commitChannel_round_Ret [OF collect(4)] by (simp add: map_upt_append)
  then show ?thesis using assms(2) collect(1,2) by (simp add: flow_inv_def stream_ok_def in_pump_def)
next
  case (push c cs ch)
  then show ?thesis using assms(2) by (auto simp: flow_inv_def stream_ok_def in_pump_def go_simps split: if_splits)
next
  case (store c cs s)
  then have "commitProducer s = (commitProducer (pserver p))\<lparr>chBuf := cs\<rparr>"
    using ReadCommits_store_frame(2) [of "(pserver p)\<lparr>commitProducer := (commitProducer (pserver p))\<lparr>chBuf := cs\<rparr>\<rparr>" c s]
      ReadCommits_iter_Ret [OF store(2) assms(3)] assms(3) by (simp add: server_inv_def)
  then show ?thesis using assms(2) store by (auto simp: flow_inv_def stream_ok_def in_pump_def)
qed (use assms(2) in \<open>auto simp: flow_inv_def stream_ok_def in_pump_def\<close>)

lemma pipe_work_store:
  assumes "pipe_work p p'" "store_inv s0 p" "server_inv (pserver p)"
  shows "store_inv s0 p' \<and> server_inv (pserver p')"
  using assms(1)
proof (cases rule: pipe_work.cases)
  case (store c cs s)
  let ?s = "(pserver p)\<lparr>commitProducer := (commitProducer (pserver p))\<lparr>chBuf := cs\<rparr>\<rparr>"
  have ret: "ReadCommits_store c ?s = Ret s" "server_inv ?s"
    using ReadCommits_iter_Ret [OF store(2) assms(3)] store(3) assms(3) by (simp_all add: server_inv_def)
  obtain s1 where s1: "ReadCommits_all (kept p) s0 = Ret s1" "db ?s = db s1" "committedLog ?s = committedLog s1"
    using assms(2) by (auto simp: store_inv_def)
  from ReadCommits_store_frame(3) [OF ret(2,1) s1(2,3) [symmetric]] s1(1) show ?thesis
    using store(1) ReadCommits_store_frame(1) [OF ret(2,1)] by (fastforce simp: store_inv_def ReadCommits_all_snoc)
qed (use assms(2,3) in \<open>auto simp: store_inv_def server_inv_def\<close>)

lemma pipe_work_chan:
  assumes "pipe_work p p'" "chan_inv p" "server_inv (pserver p)"
  shows "chan_inv p'"
  using assms(1)
proof (cases rule: pipe_work.cases)
  case (collect cs r')
  then have "commitReadyChan r' = commitReadyChan (praft p)"
    by (auto simp: commitChannel_round_def commitChannel_section_def bind_go_Ret_iff split: if_splits)
  then show ?thesis using assms(2) collect by (simp add: chan_inv_def)
next
  case (store c cs s)
  then have "commitProducer s = (commitProducer (pserver p))\<lparr>chBuf := cs\<rparr>"
    using ReadCommits_store_frame(2) [of "(pserver p)\<lparr>commitProducer := (commitProducer (pserver p))\<lparr>chBuf := cs\<rparr>\<rparr>" c s]
      ReadCommits_iter_Ret [OF store(2) assms(3)] assms(3) by (simp add: server_inv_def)
  then show ?thesis using assms(2) store by (simp add: chan_inv_def)
qed (use assms(2) in \<open>auto simp: chan_inv_def go_simps split: if_splits list.splits\<close>)

text \<open>As long as a committed entry has not been collected, a signal for it is on its way.\<close>

definition signal_inv :: "'c pipe \<Rightarrow> bool" where
  "signal_inv p \<longleftrightarrow> held p \<noteq> None \<or> pump p = Locking \<or> chBuf (commitReadyChan (praft p)) \<noteq> [] \<or>
     count_of (commit_index (praft p)) \<le> length (sent p)"

lemma sent_length: "flow_inv p \<Longrightarrow> length (sent p) = count_of (last_applied (praft p))"
  using arg_cong [of "map ceIndex (sent p)" _ length] by (fastforce simp: flow_inv_def stream_ok_def)

lemma pipe_work_signal:
  assumes "pipe_work p p'" "signal_inv p" "flow_inv p'"
  shows "signal_inv p' \<and> commit_index (praft p') = commit_index (praft p)"
  using assms(1)
proof (cases rule: pipe_work.cases)
  case (collect cs r')
  then show ?thesis
    using round_again(2,3) [OF collect(4)] sent_length [OF assms(3)] by (auto simp: signal_inv_def)
qed (use assms(2) in \<open>auto simp: signal_inv_def go_simps split: if_splits list.splits\<close>)

definition pipe_inv :: "'c Server \<Rightarrow> 'c pipe \<Rightarrow> bool" where
  "pipe_inv s0 p \<longleftrightarrow> flow_inv p \<and> chan_inv p \<and> signal_inv p \<and> store_inv s0 p \<and> server_inv (pserver p)"

lemma pipe_work_inv: "pipe_work p p' \<Longrightarrow> pipe_inv s0 p \<Longrightarrow> pipe_inv s0 p'"
  unfolding pipe_inv_def by (meson pipe_work_flow pipe_work_store pipe_work_chan pipe_work_signal)

lemma pipe_step_inv:
  assumes "pipe_step p p'" "pipe_inv s0 p"
  shows "pipe_inv s0 p'"
  using assms(1)
proof (cases rule: pipe_step.cases)
  case work
  then show ?thesis using pipe_work_inv assms(2) by blast
next
  case (enter r')
  then have "chan_ok (unsignalled (praft p)) r'" using section_chan [OF enter(3)] by (simp add: unsignalled_def)
  then show ?thesis
    using assms(2) enter(1,2)
    by (auto simp: pipe_inv_def flow_inv_def stream_ok_def in_pump_def chan_inv_def store_inv_def chan_ok_def unsignalled_def
        signal_inv_def after_section_def signal_of_def split: list.splits)
next
  case (finish ch)
  then show ?thesis using assms(2) by (auto simp: pipe_inv_def flow_inv_def in_pump_def chan_inv_def store_inv_def signal_inv_def)
qed

lemma pipe_run_inv:
  assumes "pipe_run s0 p" "server_inv s0" "commitProducer s0 = make_chan 32"
  shows "pipe_inv s0 p"
  using assms(1)
proof (induction rule: pipe_run.induct)
  case (init i ps k r)
  then show ?case
    using assms(2,3) NewRaftProtocol_stream [OF init]
    by (auto simp: pipe_inv_def flow_inv_def in_pump_def chan_inv_def store_inv_def signal_inv_def pipe_init_def NewRaftProtocol_def go_simps
        split: if_splits)
qed (rule pipe_step_inv)

section \<open>The pipeline drains\<close>

text \<open>
  The pipeline is stuck when a section keeps the lock to wait for a place in the
  channel of signals and the only receiver waits for the lock.
\<close>

definition stuck :: "'c pipe \<Rightarrow> bool" where
  "stuck p \<longleftrightarrow> held p \<noteq> None \<and> pump p = Locking \<and>
     \<not> length (chBuf (commitReadyChan (praft p))) < chCap (commitReadyChan (praft p))"

definition drained :: "'c pipe \<Rightarrow> bool" where
  "drained p \<longleftrightarrow> held p = None \<and> pump p = Ranging \<and> chBuf (commitReadyChan (praft p)) = [] \<and>
     chBuf (commitProducer (pserver p)) = []"

lemma pipe_progress:
  assumes "pipe_inv s0 p" "round_ok (praft p)" "\<not> stuck p" "pump p \<noteq> Finished" "\<not> drained p"
  shows "\<exists>p'. pipe_work p p'"
proof (cases "chBuf (commitProducer (pserver p))")
  case (Cons c cs)
  have "server_inv (pserver p)" using assms(1) by (simp add: pipe_inv_def)
  then have "\<exists>s. ReadCommits_iter (pserver p) = Ret s"
    using ReadCommits_iter_Ret [OF Cons]
      ReadCommits_store_Ret [of "(pserver p)\<lparr>commitProducer := (commitProducer (pserver p))\<lparr>chBuf := cs\<rparr>\<rparr>" c]
    by (simp add: server_inv_def)
  then show ?thesis using Cons pipe_work.store by blast
next
  case Nil
  have inv: "chan_inv p" using assms(1) by (simp add: pipe_inv_def)
  have release: "\<exists>p'. pipe_work p p'" if "held p = Some x" "length (chBuf (commitReadyChan (praft p))) < 32" for x
    using that inv by (auto simp: chan_inv_def go_simps intro!: exI pipe_work.release)
  show ?thesis
  proof (cases "pump p")
    case Ranging
    then show ?thesis
    proof (cases "chBuf (commitReadyChan (praft p))")
      case (Cons x xs)
      then show ?thesis using Ranging by (auto simp: go_simps intro!: exI pipe_work.receive)
    next
      case empty: Nil
      then show ?thesis using Ranging Nil assms(5) release by (cases "held p") (auto simp: drained_def)
    qed
  next
    case Locking
    then show ?thesis
      using assms(2,3) release inv pipe_work.collect [of p] by (cases "held p") (auto simp: round_ok_Ret stuck_def chan_inv_def)
  next
    case (Pushing cs)
    then show ?thesis
      using Nil inv pipe_work.again [of p]
      by (cases cs) (auto simp: chan_inv_def go_simps intro!: exI pipe_work.push)
  qed (use assms(4) in simp)
qed

text \<open>What a step of the pipeline keeps, and the measure that it decreases.\<close>

definition flows :: "'c pipe \<Rightarrow> bool" where
  "flows p \<longleftrightarrow> round_ok (praft p) \<and> \<not> stuck p \<and> pump p \<noteq> Finished"

lemma pipe_work_flows:
  assumes "pipe_work p p'" "flows p" "chan_inv p"
  shows "flows p'"
  using assms(1)
proof (cases rule: pipe_work.cases)
  case (collect cs r')
  then show ?thesis using assms(2) round_again(1) by (auto simp: flows_def stuck_def)
qed (use assms(2,3) in \<open>auto simp: flows_def stuck_def chan_inv_def go_simps split: if_splits list.splits\<close>)

definition tokens :: "'c pipe \<Rightarrow> nat" where
  "tokens p = 2 * length (chBuf (commitReadyChan (praft p))) + (if pump p = Locking then 1 else 0) + (if held p = None then 0 else 3)"

definition pushes :: "'c pipe \<Rightarrow> nat" where
  "pushes p = (case pump p of Pushing cs \<Rightarrow> Suc (length cs) | _ \<Rightarrow> 0)"

lemma pipe_work_decreases:
  assumes "pipe_work p p'" "server_inv (pserver p)"
  shows "(p', p) \<in> measures [tokens, pushes, \<lambda>p. length (chBuf (commitProducer (pserver p)))]"
  using assms(1)
proof (cases rule: pipe_work.cases)
  case (store c cs s)
  then have "commitProducer s = (commitProducer (pserver p))\<lparr>chBuf := cs\<rparr>"
    using ReadCommits_store_frame(2) [of "(pserver p)\<lparr>commitProducer := (commitProducer (pserver p))\<lparr>chBuf := cs\<rparr>\<rparr>" c s]
      ReadCommits_iter_Ret [OF store(2) assms(2)] assms(2) by (simp add: server_inv_def)
  then show ?thesis using store by (simp add: tokens_def pushes_def)
next
  case (collect cs r')
  then have "commitReadyChan r' = commitReadyChan (praft p)"
    by (auto simp: commitChannel_round_def commitChannel_section_def bind_go_Ret_iff split: if_splits)
  then show ?thesis using collect by (simp add: tokens_def)
qed (auto simp: tokens_def pushes_def go_simps split: if_splits list.splits)

lemma pipe_drains:
  "pipe_inv s0 p \<Longrightarrow> flows p \<Longrightarrow>
     \<exists>p'. pipe_work\<^sup>*\<^sup>* p p' \<and> drained p' \<and> pipe_inv s0 p' \<and> commit_index (praft p') = commit_index (praft p)"
proof (induction p rule: wf_induct_rule [OF wf_measures [of "[tokens, pushes, \<lambda>p. length (chBuf (commitProducer (pserver p)))]"]])
  case (1 p)
  show ?case
  proof (cases "drained p")
    case False
    then obtain p1 where work: "pipe_work p p1" using pipe_progress 1(2,3) unfolding flows_def by blast
    have inv: "pipe_inv s0 p1" using pipe_work_inv [OF work 1(2)] .
    have "flows p1" "commit_index (praft p1) = commit_index (praft p)"
      using pipe_work_flows [OF work 1(3)] pipe_work_signal [OF work] inv 1(2) by (simp_all add: pipe_inv_def)
    moreover have "(p1, p) \<in> measures [tokens, pushes, \<lambda>p. length (chBuf (commitProducer (pserver p)))]"
      using pipe_work_decreases [OF work] 1(2) by (simp add: pipe_inv_def)
    ultimately show ?thesis using 1(1) [OF _ inv] work by (metis converse_rtranclp_into_rtranclp)
  qed (use 1 in blast)
qed

lemma drained_kept:
  assumes "pipe_inv s0 p" "drained p"
  shows "kept p = sent p" "map ceIndex (kept p) = map of_nat [0..<count_of (last_applied (praft p))]"
    "count_of (commit_index (praft p)) \<le> length (kept p)"
proof -
  show "kept p = sent p" using assms by (auto simp: pipe_inv_def flow_inv_def drained_def in_pump_def)
  then show "map ceIndex (kept p) = map of_nat [0..<count_of (last_applied (praft p))]"
    "count_of (commit_index (praft p)) \<le> length (kept p)"
    using assms by (auto simp: pipe_inv_def flow_inv_def stream_ok_def signal_inv_def drained_def)
qed

lemma pipe_work_ends: "pipe_inv s0 (f 0) \<Longrightarrow> \<exists>i. \<not> pipe_work (f i) (f (Suc i))"
proof (rule ccontr)
  assume inv: "pipe_inv s0 (f 0)" and "\<nexists>i. \<not> pipe_work (f i) (f (Suc i))"
  then have all: "pipe_work (f i) (f (Suc i))" for i by blast
  have "pipe_inv s0 (f i)" for i by (induction i) (use inv pipe_work_inv [OF all] in auto)
  then have "(f (Suc i), f i) \<in> measures [tokens, pushes, \<lambda>p. length (chBuf (commitProducer (pserver p)))]" for i
    using pipe_work_decreases [OF all] by (simp add: pipe_inv_def)
  then show False using wf_measures wf_iff_no_infinite_down_chain by blast
qed

section \<open>The pipeline can get stuck\<close>

lemma stuck_step: "pipe_step p p' \<Longrightarrow> stuck p \<Longrightarrow> stuck p' \<and> praft p' = praft p"
  by (auto simp: stuck_def go_simps elim!: pipe_step.cases pipe_work.cases split: if_splits)

lemma stuck_forever: "pipe_step\<^sup>*\<^sup>* p p' \<Longrightarrow> stuck p \<Longrightarrow> stuck p' \<and> praft p' = praft p"
  by (induction rule: rtranclp_induct) (auto dest: stuck_step)

text \<open>
  A new leader that has not committed anything yet sends its commit index \<open>MaxUint64\<close>, which exceeds the one of
  a follower that has committed: such a follower signals at every heartbeat. If its goroutine has taken a
  signal and 33 more sections get the lock first, the last of them keeps it.
\<close>

definition first_msg :: "KeyValuePair \<Rightarrow> AppendEntriesMsg" where
  "first_msg kv = \<lparr>aeTerm = 1, aeLeaderId = 2, aePrevLogIndex = MaxUint64, aePrevLogTerm = MaxUint64,
     aeEntries = [\<lparr>eTerm = 1, eCommand = Some kv\<rparr>], aeLeaderCommit = 0\<rparr>"

definition beat :: AppendEntriesMsg where
  "beat = \<lparr>aeTerm = 2, aeLeaderId = 3, aePrevLogIndex = 0, aePrevLogTerm = 1, aeEntries = [], aeLeaderCommit = MaxUint64\<rparr>"

definition waiting :: "raft \<Rightarrow> u64 \<Rightarrow> nat \<Rightarrow> raft" where
  "waiting r t k = r\<lparr>commitReadyChan := \<lparr>chBuf = replicate k \<lparr>crTerm = t\<rparr>, chCap = 32, chClosed = False\<rparr>\<rparr>"

definition primed :: "KeyValuePair \<Rightarrow> raft \<Rightarrow> bool" where
  "primed kv r \<longleftrightarrow> stateLog r = [\<lparr>eTerm = 1, eCommand = Some kv\<rparr>] \<and> commit_index r = 0 \<and> electionResetEvent r = 0"

lemma pipe_raft_id: "praft p = r \<Longrightarrow> p\<lparr>praft := r\<rparr> = p"
  by (cases p) simp

lemma beat_section:
  assumes "primed kv r"
  shows "section_step \<lparr>nraft = unsignalled (waiting r 2 k), delivered = []\<rparr> \<lparr>nraft = waiting r 2 1, delivered = []\<rparr>"
proof -
  have match: "ae_match log [] 1 0 = (1, 0)" for log by (subst ae_match.simps) simp
  have less: "(0 :: u64) < MaxUint64" using of_nat_less_Max [of 0] by simp
  have "AppendEntries_locked 0 2 beat (unsignalled (waiting r 2 k)) = Ret (waiting r 2 1, True)"
    using assms match less
    by (cases r; cases "volatileState r")
      (simp add: Let_def AppendEntries_locked_def prev_matches_def ae_insert_def ae_commit_def beat_def unsignalled_def
        waiting_def primed_def go_simps uint64Min_def set_commit_def setCommitIndex_def)
  from section_step.append [of 0 2 _ "\<lparr>nraft = unsignalled (waiting r 2 k), delivered = []\<rparr>", unfolded node.simps, OF this]
  show ?thesis by simp
qed

lemma beat_step:
  assumes "primed kv r" "held p = None" "praft p = waiting r 2 k"
  shows "pipe_step p (p\<lparr>held := Some \<lparr>crTerm = 2\<rparr>\<rparr>)"
proof -
  have "after_section (praft p) (waiting r 2 1) = praft p" "signal_of (waiting r 2 1) = Some \<lparr>crTerm = 2\<rparr>"
    using assms(3) by (simp_all add: after_section_def signal_of_def waiting_def)
  then show ?thesis
    using pipe_step.enter [OF assms(2), of "waiting r 2 1"] beat_section [OF assms(1), of k] assms(3) pipe_raft_id [of p] by simp
qed

lemma beats_run:
  assumes "primed kv r" "held p = None" "praft p = waiting r 2 0" "k \<le> 32"
  shows "pipe_step\<^sup>*\<^sup>* p (p\<lparr>praft := waiting r 2 k\<rparr>)"
  using assms(4)
proof (induction k)
  case 0
  then show ?case using assms(3) by (simp add: pipe_raft_id)
next
  case (Suc k)
  let ?p = "p\<lparr>praft := waiting r 2 k\<rparr>"
  have "pipe_step ?p (?p\<lparr>held := Some \<lparr>crTerm = 2\<rparr>\<rparr>)" by (rule beat_step [OF assms(1)]) (simp_all add: assms(2))
  moreover have "pipe_work (?p\<lparr>held := Some \<lparr>crTerm = 2\<rparr>\<rparr>) (p\<lparr>praft := waiting r 2 (Suc k)\<rparr>)"
    using pipe_work.release [of "?p\<lparr>held := Some \<lparr>crTerm = 2\<rparr>\<rparr>" "\<lparr>crTerm = 2\<rparr>"] Suc.prems assms(2)
    by (cases p) (simp add: waiting_def go_simps replicate_append_same)
  ultimately show ?case using Suc by (meson Suc_leD pipe_step.work rtranclp.rtrancl_into_rtrancl)
qed

text \<open>The first entry, with the commit index 0, primes the node; then the new leader's term arrives.\<close>

definition fresh_raft :: "(string, u64) gomap \<Rightarrow> raft" where
  "fresh_raft ps = \<lparr>raft_id = 1, peers = ps, currentTerm = 0, votedFor = MaxUint64, stateLog = [], logTail = [],
     state = Follower, electionResetEvent = 0, nextIndex = [], matchIndex = [], Jitter = True, Force = False,
     Drop = False, commitReadyChan = make_chan 32, numberPeers = 3,
     volatileState = \<lparr>commitIndex = MaxUint64, lastApplied = MaxUint64\<rparr>, spawned = [ElectionTimer]\<rparr>"

definition primed_raft :: "(string, u64) gomap \<Rightarrow> KeyValuePair \<Rightarrow> raft" where
  "primed_raft ps kv = (makeFollower 0 1 (fresh_raft ps))\<lparr>stateLog := [\<lparr>eTerm = 1, eCommand = Some kv\<rparr>],
     volatileState := \<lparr>commitIndex = 0, lastApplied = MaxUint64\<rparr>\<rparr>"

lemma first_section:
  "section_step \<lparr>nraft = unsignalled (makeFollower 0 1 (fresh_raft ps)), delivered = []\<rparr>
     \<lparr>nraft = waiting (primed_raft ps kv) 1 1, delivered = []\<rparr>"
proof -
  have match: "ae_match [] [e] 0 0 = (0, 0)" for e by (subst ae_match.simps) simp
  have "AppendEntries_locked 0 1 (first_msg kv) (unsignalled (makeFollower 0 1 (fresh_raft ps))) =
      Ret (waiting (primed_raft ps kv) 1 1, True)"
    using match
    by (simp add: Let_def AppendEntries_locked_def prev_matches_def ae_insert_def ae_commit_def first_msg_def unsignalled_def
        waiting_def primed_raft_def fresh_raft_def makeFollower_def spawn_def go_simps uint64Min_def set_commit_def setCommitIndex_def
        append_log_def)
  from section_step.append [of 0 1 _ "\<lparr>nraft = unsignalled (makeFollower 0 1 (fresh_raft ps)), delivered = []\<rparr>", unfolded node.simps, OF this]
  show ?thesis by simp
qed

lemma follower_step:
  assumes "held p = None"
  shows "pipe_step p (p\<lparr>praft := makeFollower now t (praft p)\<rparr>)"
proof -
  have "after_section r (makeFollower now t (unsignalled r)) = makeFollower now t r"
    "signal_of (makeFollower now t (unsignalled r)) = None" for r
    by (cases r; simp add: after_section_def signal_of_def unsignalled_def makeFollower_def spawn_def)+
  then show ?thesis
    using pipe_step.enter [OF assms, of "makeFollower now t (unsignalled (praft p))"] assms
      section_step.makeFollower [of "\<lparr>nraft = unsignalled (praft p), delivered = []\<rparr>" now t]
    by (cases p) simp
qed

lemma reaches_signalled:
  assumes "(ps :: (string, u64) gomap) \<noteq> []"
  shows "\<exists>p. pipe_run s0 p \<and> p = (pipe_init (fresh_raft ps) s0)\<lparr>praft := waiting (primed_raft ps kv) 1 0, held := Some \<lparr>crTerm = 1\<rparr>\<rparr> \<and>
    commit_index (praft p) = 0 \<and> kept p = [] \<and> flows p"
proof -
  let ?init = "pipe_init (fresh_raft ps) s0"
  let ?p1 = "?init\<lparr>praft := makeFollower 0 1 (fresh_raft ps)\<rparr>"
  let ?p2 = "?init\<lparr>praft := waiting (primed_raft ps kv) 1 0, held := Some \<lparr>crTerm = 1\<rparr>\<rparr>"
  have "NewRaftProtocol 1 ps 3 = Inr (fresh_raft ps)" using assms by (simp add: NewRaftProtocol_def fresh_raft_def)
  then have "pipe_run s0 ?init" by (rule pipe_run.init)
  moreover have "pipe_step ?init ?p1"
    using follower_step [of ?init 0 1] by (simp add: pipe_init_def)
  moreover have "pipe_step ?p1 ?p2"
    using pipe_step.enter [of ?p1, unfolded pipe_init_def, simplified, OF first_section [of ps kv]]
    by (simp add: pipe_init_def after_section_def signal_of_def waiting_def primed_raft_def fresh_raft_def makeFollower_def spawn_def make_chan_def)
  moreover have "round_ok (waiting (primed_raft ps kv) 1 0)"
    by (auto simp: round_ok_Ret commitChannel_round_def commitChannel_section_def go_simps waiting_def primed_raft_def)
  then have "flows ?p2" by (simp add: flows_def stuck_def pipe_init_def)
  ultimately show ?thesis by (auto simp: pipe_init_def waiting_def primed_raft_def intro: pipe_run.step)
qed

lemma reaches_stuck:
  assumes "(ps :: (string, u64) gomap) \<noteq> []"
  shows "\<exists>p. pipe_run s0 p \<and> stuck p"
proof -
  let ?init = "pipe_init (fresh_raft ps) s0"
  let ?r = "makeFollower 0 2 (primed_raft ps kv)"
  let ?p2 = "?init\<lparr>praft := waiting (primed_raft ps kv) 1 0, held := Some \<lparr>crTerm = 1\<rparr>\<rparr>"
  let ?p3 = "?init\<lparr>praft := waiting (primed_raft ps kv) 1 1\<rparr>"
  let ?p4 = "?init\<lparr>praft := waiting (primed_raft ps kv) 1 0, pump := Locking\<rparr>"
  let ?p5 = "?init\<lparr>praft := waiting ?r 2 0, pump := Locking\<rparr>"
  let ?p6 = "?init\<lparr>praft := waiting ?r 2 32, pump := Locking\<rparr>"
  have "pipe_run s0 ?p2" using reaches_signalled [OF assms, of s0 kv] by blast
  moreover have "pipe_step ?p2 ?p3"
    using pipe_step.work [OF pipe_work.release [of ?p2]] by (simp add: pipe_init_def waiting_def go_simps)
  moreover have "pipe_step ?p3 ?p4"
    using pipe_step.work [OF pipe_work.receive [of ?p3]] by (simp add: pipe_init_def waiting_def go_simps)
  moreover have "pipe_step ?p4 ?p5"
    using follower_step [of ?p4 0 2]
    by (simp add: pipe_init_def waiting_def primed_raft_def fresh_raft_def makeFollower_def spawn_def)
  moreover have primed: "primed kv ?r"
    by (simp add: primed_def primed_raft_def makeFollower_def spawn_def)
  then have "pipe_step\<^sup>*\<^sup>* ?p5 ?p6"
    using beats_run [of kv ?r ?p5 32] by (simp add: pipe_init_def)
  moreover have "pipe_step ?p6 (?p6\<lparr>held := Some \<lparr>crTerm = 2\<rparr>\<rparr>)"
    by (rule beat_step [OF primed]) (simp_all add: pipe_init_def)
  moreover have "stuck (?p6\<lparr>held := Some \<lparr>crTerm = 2\<rparr>\<rparr>)"
    by (simp add: stuck_def waiting_def)
  moreover have "pipe_run s0 p'" if "pipe_step\<^sup>*\<^sup>* p p'" "pipe_run s0 p" for p p'
    using that by (induction rule: rtranclp_induct) (auto intro: pipe_run.step)
  ultimately show ?thesis by (meson pipe_run.step)
qed

end
