(* ===== verification/Spec2Isabelle.thy ===== *)
theory Spec2Isabelle
  imports Scenario_Net Rest_Net Pipeline
begin

text \<open>
  A verification library for \<^emph>\<open>rocinante\<close>, a replicated key-value store written in Go: a Raft consensus
  module, the server around it, its REST interface and client, a load balancer and a traffic sniffer that
  use the cluster, and a radix tree.

  \<^bold>\<open>The program.\<close> A server (\<open>src/pkg/server/main_server.go\<close>) owns a Raft module (\<open>consensus.go\<close>), two
  stores (\<open>storage.go\<close>) and a REST service (\<open>rest_server.go\<close>). Peers call the gRPC handlers of the server,
  which pass the messages to the Raft module; the module calls the peers through \<open>RemoteCall\<close>. When
  entries are committed the module signals itself over \<open>commitReadyChan\<close>, sends the entries to the
  server's commit channel, and the server's \<open>ReadCommits\<close> loop stores value and index. A node is started
  from an artifact that lists the controllers (\<open>src/pkg/main\<close>): it takes the first one whose ports are
  free. Clients (\<open>src/pkg/client\<close>) look for the leader among the REST endpoints, then submit and read
  over REST, with keys and values in URL-safe base64. The load balancer (\<open>src/pkg/loadbalancer\<close>) picks a
  member of its pool for each request and retries on failure; with source hashing it asks the cluster
  for an earlier choice. The sniffer (\<open>src/pkg/sniffer\<close>) captures packets into a table of flows and
  stores the table in the cluster, where the page of flows shows it; the generator (\<open>src/pkg/simulator\<close>)
  sends UDP packets with checksums of its own (\<open>src/pkg/flow\<close>). The radix tree (\<open>src/pkg/radix\<close>) stands
  alone.

  \<^bold>\<open>Theories\<close>, in the order of their imports.

  \<^item> \<open>Go_Prelude\<close>: 64-bit words with the sentinel \<open>MaxUint64\<close>, outcomes of a Go call (\<open>Ret\<close>, \<open>Panic\<close>,
    \<open>Blocked\<close>) with their bind, slices with their bounds checks, maps as association lists, buffered
    channels, byte strings; the locale \<open>codec\<close> of an encoding that can be undone.
  \<^item> \<open>Storage\<close>, \<open>Codec\<close>, \<open>Base64\<close>: the stores (\<open>storage.go\<close>) with the contract \<open>kv_storage\<close> as a locale
    interpreted on both; little-endian integers, FNV-1a and identifiers (\<open>pkg/io\<close>, \<open>pkg/hash\<close>); the
    base64 of the REST routes with its round trip.
  \<^item> \<open>Raft\<close>: the record \<open>raft\<close> for \<open>RaftProtocol\<close> and one function per method of \<open>consensus.go\<close>. A method
    with several critical sections is the composition of one function for each section. The log is a list with
    the entries left behind it in its array (\<open>logTail\<close>), which a slice past the end of the log can reach.
  \<^item> \<open>Raft_Log\<close>, \<open>Raft_Handlers\<close>, \<open>Raft_Replication\<close>, \<open>Raft_CatchUp\<close>: the reference merge \<open>merge_log\<close> and
    the proof that the loop of \<open>AppendEntries\<close> computes it; the two RPC handlers branch by branch; the
    leader's commit loop as a choice of the last eligible index; rounds of request and reply between a
    leader and a follower.
  \<^item> \<open>Raft_Steps\<close>: \<open>section_step\<close>, the critical sections of a node in any order and with any local values, more
    than the program does, for invariants, with the stream of delivered entries; \<open>handler_step\<close>, whole
    methods.
  \<^item> \<open>Raft_Election\<close>: strict majorities as the locale \<open>majority_quorum\<close>, interpreted with the test of the
    code; the reads and writes of the vote counter by the goroutines of one election.
  \<^item> \<open>Cluster\<close>: several nodes and the messages between them; events are timeouts, arrivals, losses,
    heartbeats, submissions, deliveries, shutdowns, and changes of a request that shares the array of the log.
  \<^item> \<open>Log_Matching\<close>: the terms won in a run, the invariant that every entry stands in the log of the winner
    of its term, and from it the Log Matching property of \<open>Cluster\<close> runs with one winner for each term and every request
    sent as it was built.
  \<^item> \<open>Log_Alias\<close>: the log as Go has it, a slice of an array that requests in the making and entries on their
    way to the commit channel share with it.
  \<^item> \<open>Server\<close>, \<open>Server_Life\<close>, \<open>Apply\<close>: the record \<open>Server\<close>, the gRPC handlers and the storage of committed
    entries; construction, serving, disconnection, remote calls and shutdown with the relation
    \<open>server_step\<close> and its invariant; the path from the log to \<open>GetValue\<close>.
  \<^item> \<open>Pipeline\<close>: the goroutines from a commit to the store, with the lock of the Raft module and both channels,
    as the step relations \<open>pipe_work\<close> and \<open>pipe_step\<close>.
  \<^item> \<open>Rest\<close>, \<open>Client\<close>, \<open>Rest_Net\<close>: the REST handlers; the client with what a request to a URL yields as an
    argument; the handlers that call other servers or end the service, and a new client of a cluster.
  \<^item> \<open>Write_Path\<close>: a submitted value from the log of the leader through replication, commit and delivery to
    the store.
  \<^item> \<open>LoadBalancer\<close>: the pool, its two selection methods as instances of the locale \<open>server_selector\<close>, health
    checks, and the handling of a request. \<open>Pool_Type\<close>: sequences of operations of the pool.
  \<^item> \<open>Flow\<close>: the headers as bytes, the checksum and the packets of the generator.
  \<^item> \<open>Bootstrap\<close>: the artifacts of node and balancer, the choice of the controller, the specifications
    handed to \<open>NewServer\<close> and \<open>NewLoadBalance\<close>, and the cluster of \<open>testing_tools.go\<close>. \<open>Service\<close>: what runs
    around a server: the REST service, the end of \<open>Serve\<close>, the exporter of the metrics, the watch of
    connections, signals, the end of the test cluster, the choices the balancer stores, and the example
    client. \<open>Rest_Router\<close>: the table of routes and the way of a request to its handler.
  \<^item> \<open>Sniffer\<close>: capture and publication; the decimal keys of the flows are one more \<open>codec\<close>. \<open>Publishers\<close>:
    the goroutines of \<open>start\<close>, capture and publishers, with their channels, as a step relation.
  \<^item> \<open>Radix\<close>, \<open>Radix_Read\<close>, \<open>Radix_Write\<close>, \<open>Radix_Tree\<close>: the tree and its operations; their meaning on the
    list of leaves; insertion and removal; the contract \<open>string_index\<close> of an ordered index over strings
    as a locale, interpreted on the tree, and the trees that the constructors can build.
  \<^item> \<open>Scenario\<close>, \<open>Scenario_Net\<close>: concrete states and runs on which the properties are exercised.

  \<^bold>\<open>What is shown.\<close> C1 to C4 follow the committed entries: they leave a node once, in order and without gaps
  under every interleaving, a client reads back the last applied value, and the goroutines bring every
  committed entry to the store as long as they are not stuck; C5 is a run in which they are, because
  the signal is sent with the lock that its receiver needs. C6 to C11 are about replication: the log
  handling of \<open>AppendEntries\<close> refines the reference merge and tolerates redelivery, a follower catches
  up, the commit rule, a leader's log grows, and logs match while every term has one winner and the requests
  are sent as they were built. C12 shows that the log in shared memory behaves like the value of the other
  theorems unless it is cut while a request is in the making, and C13 that it does not in that case. C14 to
  C16: a winner has a majority although the counter is racy, two winners share a voter, only submitted commands
  are applied. C17 to C21 prove where the module departs from Raft, most of all that a voter reads neither
  \<open>votedFor\<close> nor the logs when the terms agree, so that one term can have two leaders and a committed
  entry can be replaced; that the slice of the committed entries can reach past the end of the log; and that
  \<open>nextIndex\<close> survives an election. C22 tells when the shutdown of a server returns, C23 to C26 about the REST interface and its
  client, with the whole way of a write from the client to the store and back and the answer to any
  request; C27 to C29 are about the load balancer, C30 to C34 about the radix tree, C35 and C36 about
  checksums and generated packets, C37 to C39 about the sniffer up to the page of flows and its
  goroutines, C40 about nodes started from one configuration. The lemmas between them are further
  consequences, most of them behaviours of the code that contradict its comments.

  \<^bold>\<open>Choices.\<close> The clock, random numbers, the network, the operating system, the packet library, gob, YAML
  and gRPC are arguments of the functions that use them. Logs are assumed shorter than \<open>2 ^ 63\<close> entries
  (\<open>log_fits\<close>), which Go guarantees for slices. No fuel is used in the model: the loops over logs, pools,
  trees and retries are functions with termination proofs, and the probing loop of \<open>Shutdown\<close>, which may
  run for ever, is a partial function whose value \<open>None\<close> is non-termination. Logs and messages are values
  except in \<open>Log_Alias\<close>, where they are slices; the event \<open>Reread\<close> of \<open>Cluster\<close> is what the sharing of arrays can do
  to a request. Channels are buffers with a capacity; a send that does not fit is \<open>Blocked\<close> except in \<open>Pipeline\<close> and
  \<open>Publishers\<close>, where it waits. A wait for a mutex or for pending gRPC calls is an argument of the shutdown
  functions (\<open>shutdown_env\<close>). A range over a Go map follows an order that is an argument where the order shows
  outside (publication, the pages of flows and of committed entries), and elsewhere that of the association
  list. The radix package does not compile as it stands, because
  \<open>node.go\<close> reads a field \<open>label\<close> where \<open>edge\<close> has \<open>bits\<close>; the model takes the two for the same field.

  \<^bold>\<open>Not modelled.\<close> The wire format and generated code, JSON text, HTML templates, logging and terminal
  colours are text that no decision of the program reads. Sockets, the HTTP and gRPC servers, command-line
  flags and the digests of the libraries are outside of the sources; what the code asks of them is an
  argument. \<open>GenericHash\<close> and \<open>CheckSocket\<close> are single calls of such a library, \<open>startStatCollector\<close> is a
  ticker whose body is commented out, and the program of \<open>pkg/server/metric\<close> counts its own ticks.
\<close>

section \<open>The stream of committed entries\<close>

text \<open>
  C1. Whatever the interleaving of the critical sections of a node, the indices it has sent to its
  commit channel are 0, 1, 2, \<open>\<dots>\<close> up to \<open>lastApplied\<close>: no gap, no repetition, no reordering.
\<close>

theorem commit_stream_in_order:
  assumes "reachable_node n"
  shows "map ceIndex (delivered n) = map of_nat [0..<count_of (last_applied (nraft n))]"
  using reachable_stream [OF assms] by (simp add: stream_ok_def)

theorem commit_stream_in_order_witness: "reachable_node demo_node \<and> map ceIndex (delivered demo_node) = [0, 1]"
proof -
  have "map of_nat [0..<count_of (last_applied (nraft demo_node))] = [0, 1 :: u64]" by code_simp
  then show ?thesis using demo_reachable commit_stream_in_order [OF demo_reachable] by simp
qed

text \<open>
  C2. In a run in which no step rewrites the applied part of the log or leaves the log shorter than the commit
  index says, the commands sent to the commit channel are the commands of the first \<open>lastApplied + 1\<close> log
  entries, in order. Property C17 is a run in which only the second condition fails.
\<close>

theorem applied_commands_are_log_prefix:
  assumes "stable_run n"
  shows "map (\<lambda>c. Some (ceCommand c)) (delivered n) =
    map eCommand (take (count_of (last_applied (nraft n))) (stateLog (nraft n)))"
  using stable_run_content [OF assms] by (simp add: content_ok_def)

theorem applied_commands_are_log_prefix_witness:
  "stable_run demo_node \<and> map eCommand (take 2 (stateLog (nraft demo_node))) = [Some kvA, Some kvB]"
proof -
  have "count_of (last_applied (nraft demo_node)) = 2" by code_simp
  then show ?thesis
    using applied_commands_are_log_prefix [OF demo_stable] demo_stable by (simp add: demo_delivered)
qed

text \<open>
  C3. End to end: in such a run, once a running server has stored what its Raft module delivered, \<open>GetValue\<close> of a
  key returns the value of the last applied log entry that writes the key, and the index of that entry.
\<close>

theorem get_returns_last_applied:
  assumes "stable_run n" "server_inv s0" "serverState s0 = Running"
    and "ReadCommits_all (delivered n) s0 = Ret s"
    and "last_write (stateLog (nraft n)) (count_of (last_applied (nraft n))) c i"
  shows "GetValue False False (Key c) (Some s) =
    Ret (Some \<lparr>gvVal = Value c, gvIndex = of_nat i, gvSuccess = True\<rparr>, None)"
  using assms by (rule GetValue_applied)

theorem get_returns_last_applied_witness:
  "\<exists>s. ReadCommits_all (delivered demo_node) demo_server = Ret s \<and>
     GetValue False False ''a'' (Some s) = Ret (Some \<lparr>gvVal = [2], gvIndex = 1, gvSuccess = True\<rparr>, None)"
proof -
  have inv: "server_inv demo_server" "serverState demo_server = Running" by code_simp+
  then obtain s where s: "ReadCommits_all (delivered demo_node) demo_server = Ret s"
    by (simp add: ReadCommits_all_Ret)
  have "last_write (stateLog (nraft demo_node)) (count_of (last_applied (nraft demo_node))) kvB 1"
    by code_simp
  from get_returns_last_applied [OF demo_stable inv s this] s show ?thesis
    by (auto simp: kvB_def)
qed

text \<open>
  C4. The commit pipeline delivers: whatever the goroutines of a server have done, if no section waits with the lock
  for a full channel, the loop of \<open>commitChannel\<close> still ranges and its next round does not panic, then the
  steps of the goroutines lead to a state in which every committed entry is stored, once, in order and
  without gaps, and nothing is in a channel; and no schedule of these steps goes on for ever.
\<close>

theorem pipeline_drains:
  assumes "pipe_run s0 p" "server_inv s0" "commitProducer s0 = make_chan 32" "flows p"
  shows "(\<exists>p'. pipe_work\<^sup>*\<^sup>* p p' \<and> drained p' \<and> kept p' = sent p' \<and>
      map ceIndex (kept p') = map of_nat [0..<count_of (last_applied (praft p'))] \<and>
      count_of (commit_index (praft p)) \<le> length (kept p') \<and> store_inv s0 p') \<and>
    \<not> (\<exists>f. f 0 = p \<and> (\<forall>i. pipe_work (f i) (f (Suc i))))"
proof -
  have inv: "pipe_inv s0 p" by (rule pipe_run_inv [OF assms(1-3)])
  from pipe_drains [OF inv assms(4)] obtain p' where
    p': "pipe_work\<^sup>*\<^sup>* p p'" "drained p'" "pipe_inv s0 p'" "commit_index (praft p') = commit_index (praft p)" by blast
  moreover have "store_inv s0 p'" using p'(3) by (simp add: pipe_inv_def)
  ultimately have "\<exists>p'. pipe_work\<^sup>*\<^sup>* p p' \<and> drained p' \<and> kept p' = sent p' \<and>
      map ceIndex (kept p') = map of_nat [0..<count_of (last_applied (praft p'))] \<and>
      count_of (commit_index (praft p)) \<le> length (kept p') \<and> store_inv s0 p'"
    using drained_kept [OF p'(3,2)] by metis
  moreover have "\<not> (\<exists>f. f 0 = p \<and> (\<forall>i. pipe_work (f i) (f (Suc i))))"
    using pipe_work_ends [of s0] inv by blast
  ultimately show ?thesis by blast
qed

theorem pipeline_drains_witness:
  "\<exists>p p'. pipe_run demo_server p \<and> commit_index (praft p) = 0 \<and> kept p = [] \<and> pipe_work\<^sup>*\<^sup>* p p' \<and> drained p' \<and>
     1 \<le> length (kept p') \<and> store_inv demo_server p'"
proof -
  obtain p where p: "pipe_run demo_server p" "commit_index (praft p) = 0" "kept p = []" "flows p"
    using reaches_signalled [of "[(''n2'', 2)]" demo_server kvA] by auto
  have "server_inv demo_server" "commitProducer demo_server = make_chan 32" by code_simp+
  from pipeline_drains [OF p(1) this p(4)] p show ?thesis by (auto simp: count_of_Suc)
qed

text \<open>
  C5. The commit pipeline can deadlock: there is a run in which a section waits with the lock for a place in
  the full channel of signals while the only receiver of the signals waits for the lock; from there on no
  step of any goroutine changes the Raft module again.
\<close>

theorem pipeline_can_deadlock:
  "\<exists>p. pipe_run s0 p \<and> stuck p \<and> {p'. pipe_step\<^sup>*\<^sup>* p p'} \<subseteq> {p'. stuck p' \<and> praft p' = praft p}"
proof -
  obtain p where "pipe_run s0 p" "stuck p" using reaches_stuck [of "[(''n2'', 2)]" s0] by auto
  then show ?thesis using stuck_forever by blast
qed

section \<open>Log replication\<close>

text \<open>
  C6. \<open>AppendEntries\<close> refines the reference merge: on a live node, with a message of the current or a
  newer term and room in the commit channel, the call returns, the node is a follower in that term, the
  reply tells whether the previous entry matched, and in that case the log is the merge of the old log
  with the entries of the message, and the commit index follows the leader's.
\<close>

theorem AppendEntries_refines_merge:
  assumes "state r \<noteq> Dead" "log_fits r" "can_send r"
    and "term_outdated (aeTerm req) (currentTerm r) \<or> aeTerm req = currentTerm r"
  shows "\<exists>r'. AppendEntries_run now req r =
      Ret (r', Inr \<lparr>aerTerm = aeTerm req, aerSuccess = prev_matches req r\<rparr>) \<and>
    state r' = Follower \<and> currentTerm r' = aeTerm req \<and> last_applied r' = last_applied r \<and>
    stateLog r' = (if prev_matches req r
      then merge_log (stateLog r) (count_of (aePrevLogIndex req)) (aeEntries req) else stateLog r) \<and>
    commit_index r' = (if prev_matches req r
      then commit_value (aeLeaderCommit req) (commit_index r) (length (stateLog r')) else commit_index r)"
proof -
  from AppendEntries_run_returns [OF assms(2,3)] obtain r' res where
    ret: "AppendEntries_run now req r = Ret (r', res)" by blast
  have "\<exists>ok. res = Inr \<lparr>aerTerm = aeTerm req, aerSuccess = ok\<rparr>"
    using ret by (auto simp: AppendEntries_run_current [OF assms(1,4)] bind_go_Ret_iff)
  then show ?thesis
    using AppendEntries_run_accepted [OF assms(1,4,2) ret] ret by auto
qed

theorem AppendEntries_refines_merge_witness:
  "\<exists>r'. AppendEntries_run 300 demo_req demo_f = Ret (r', Inr \<lparr>aerTerm = 1, aerSuccess = True\<rparr>) \<and>
     stateLog r' = stateLog demo3"
proof -
  have "prev_matches demo_req demo_f" "merge_log (stateLog demo_f) (count_of (aePrevLogIndex demo_req)) (aeEntries demo_req) = stateLog demo3"
    by code_simp+
  then show ?thesis
    using AppendEntries_refines_merge [of demo_f demo_req 300] demo_l_facts demo_fits
    by (auto simp: demo_req_def)
qed

text \<open>
  C7. Redelivery is harmless: after a successful call, an older message with the same predecessor and
  a prefix of the same entries succeeds and changes neither the log nor the commit index.
\<close>

theorem AppendEntries_redelivery:
  assumes "log_fits r" "AppendEntries_run now req r = Ret (r1, Inr \<lparr>aerTerm = aeTerm req, aerSuccess = True\<rparr>)"
    and "log_fits r1" "can_send r1"
  shows "\<exists>r2. AppendEntries_run now' (req\<lparr>aeEntries := take j (aeEntries req)\<rparr>) r1 =
      Ret (r2, Inr \<lparr>aerTerm = aeTerm req, aerSuccess = True\<rparr>) \<and>
    stateLog r2 = stateLog r1 \<and> commit_index r2 = commit_index r1"
  using assms by (rule AppendEntries_run_again)

theorem AppendEntries_redelivery_witness:
  "\<exists>r1 r2. AppendEntries_run 300 demo_req demo_f = Ret (r1, Inr demo_ack) \<and>
     AppendEntries_run 400 (demo_req\<lparr>aeEntries := take 1 (aeEntries demo_req)\<rparr>) r1 = Ret (r2, Inr demo_ack) \<and>
     stateLog r2 = stateLog r1 \<and> length (stateLog r2) = 2"
proof -
  define r1 where "r1 = fst (the_ret (demo_f, Inr demo_ack) (AppendEntries_run 300 demo_req demo_f))"
  have run: "AppendEntries_run 300 demo_req demo_f = Ret (r1, Inr \<lparr>aerTerm = aeTerm demo_req, aerSuccess = True\<rparr>)"
    and len: "length (stateLog r1) = 2" and send: "can_send r1" and t: "aeTerm demo_req = 1"
    unfolding r1_def by code_simp+
  have "log_fits r1" by (simp add: log_fits_def len)
  from AppendEntries_redelivery [OF demo_fits(2) run this send, of 400 1] run len t show ?thesis
    by (auto simp: demo_ack_def)
qed

text \<open>
  C8. Catching up: a leader that keeps sending to a live follower, whose log satisfies the Log Matching
  property with its own, finds after at most \<open>nextIndex + 1\<close> rounds of request and reply that the
  follower holds the whole log of the leader; no round panics or blocks, and the leader's own log and
  leadership are unchanged.
\<close>

theorem follower_catches_up:
  assumes "replicating p l f"
  shows "\<exists>k \<le> Suc (unat (map_get0 (nextIndex l) p)). \<exists>l' f'.
    replicate_rounds k now p l f = Ret (l', f') \<and>
    take (length (stateLog l)) (stateLog f') = stateLog l \<and> stateLog l' = stateLog l \<and>
    state l' = Leader \<and> currentTerm f' = currentTerm l \<and> map_get0 (nextIndex l') p = log_len l"
  using catch_up [OF assms, of now] unfolding caught_up_def by blast

theorem follower_catches_up_witness:
  "\<exists>k \<le> 3. \<exists>l' f'. replicate_rounds k 300 2 demo_l demo_f = Ret (l', f') \<and>
     take 2 (stateLog f') = stateLog demo3 \<and> map_get0 (nextIndex l') 2 = 2"
proof -
  have "Suc (unat (map_get0 (nextIndex demo_l) 2)) = 3" "length (stateLog demo_l) = 2" "log_len demo_l = 2"
    by (simp_all add: demo_l_facts demo_logs)
  then show ?thesis
    using follower_catches_up [OF demo_replicating, of 300] by (metis demo_l_facts(9))
qed

text \<open>
  C9. The commit rule: when the leader handles a success reply and its commit channel has room, the
  commit index moves to the greatest log index above it that holds an entry of the current term and is
  counted on a strict majority, and stays where it is when there is none.
\<close>

theorem leader_commit_rule:
  assumes "log_fits r" "can_send r"
  shows "\<exists>r'. broadcastMsg_success p nx k t r = Ret r' \<and>
    ((commit_index r' = commit_index r \<and>
      (\<forall>j. count_of (commit_index r) \<le> j \<and> j < length (stateLog r') \<longrightarrow> \<not> eligible r' j)) \<or>
     (\<exists>j. commit_index r' = of_nat j \<and> count_of (commit_index r) \<le> j \<and> j < length (stateLog r') \<and>
       eligible r' j \<and> (\<forall>i. j < i \<and> i < length (stateLog r') \<longrightarrow> \<not> eligible r' i)))"
  using assms by (rule broadcastMsg_success_commit)

theorem leader_commit_rule_witness:
  "\<exists>r'. broadcastMsg_success 2 0 2 1 demo3 = Ret r' \<and>
    ((commit_index r' = commit_index demo3 \<and>
      (\<forall>j. count_of (commit_index demo3) \<le> j \<and> j < length (stateLog r') \<longrightarrow> \<not> eligible r' j)) \<or>
     (\<exists>j. commit_index r' = of_nat j \<and> count_of (commit_index demo3) \<le> j \<and> j < length (stateLog r') \<and>
       eligible r' j \<and> (\<forall>i. j < i \<and> i < length (stateLog r') \<longrightarrow> \<not> eligible r' i)))"
proof -
  have "can_send demo3" by code_simp
  then show ?thesis by (rule leader_commit_rule [OF demo_fits(3)])
qed

text \<open>
  C10. A leader only appends: a method that starts and ends with the node a leader extends its log.
\<close>

theorem leader_log_append_only:
  assumes "handler_step n n'" "state (nraft n) = Leader" "state (nraft n') = Leader" "log_fits (nraft n)"
  shows "\<exists>es. stateLog (nraft n') = stateLog (nraft n) @ es"
  using assms by (rule leader_append_only)

theorem leader_log_append_only_witness:
  "handler_step \<lparr>nraft = demo2, delivered = []\<rparr> \<lparr>nraft = demo3, delivered = []\<rparr> \<and>
     (\<exists>es. stateLog demo3 = stateLog demo2 @ es)"
proof -
  have step: "handler_step \<lparr>nraft = demo2, delivered = []\<rparr> \<lparr>nraft = demo3, delivered = []\<rparr>"
    using handler_step.submit [of "Some kvB" "\<lparr>nraft = demo2, delivered = []\<rparr>" True demo3]
    by (simp add: demo_evaluated)
  have "state demo2 = Leader" "state demo3 = Leader" "length (stateLog demo2) = 1" by code_simp+
  then show ?thesis using leader_log_append_only [OF step] step by (simp add: log_fits_def)
qed



text \<open>In such a run a leader that can talk to a follower brings it up to date, whatever happened before.\<close>

lemma cluster_catches_up:
  assumes run: "fresh c" "cluster_run es c = Ret c'" "distinct (terms_won es c)" "length (submitted c') < 2 ^ 63"
    and nodes: "map_of (nodes c') i = Some l" "map_of (nodes c') p = Some f"
    and l: "state l = Leader" "currentTerm l \<noteq> MaxUint64" "can_send l" "unat (map_get0 (nextIndex l) p) \<le> length (stateLog l)"
    and f: "state f \<noteq> Dead" "can_send f" "term_outdated (currentTerm l) (currentTerm f) \<or> currentTerm l = currentTerm f"
    and intact: "requests_intact es c"
  shows "\<exists>k \<le> Suc (unat (map_get0 (nextIndex l) p)). \<exists>l' f'.
    replicate_rounds k now p l f = Ret (l', f') \<and> caught_up p l l' f'"
  using log_matching [OF run nodes(2) nodes(1) intact] log_matching(2) [OF run nodes(1) nodes(2) intact] l f
  by (intro catch_up) (simp add: replicating_def)

text \<open>
  C12. The log in memory: when the log is a slice whose array is shared and also holds the entries left behind
  the log, inserting received entries and submitting a command give the slice the contents that the log has as
  a value, with the same entries left behind it; a request whose entries are
  read after further operations on the log is the one that was built, if none of them cut the log below
  its old end; and the entries to deliver stay what they are, if none cut it below the commit index.
\<close>

theorem log_memory_refines_value:
  assumes "holds_raft m r"
  shows "(ae_insert a r = Ret r1 \<longrightarrow> (\<exists>m1. ae_insert_mem spare a m = Ret m1 \<and> holds_raft m1 r1 \<and> holds m1 (stateLog r1))) \<and>
    (Submit (Some kv) r = Ret (True, r2) \<longrightarrow>
       holds_raft (Submit_mem spare \<lparr>eTerm = currentTerm r, eCommand = Some kv\<rparr> m) r2 \<and>
       holds (Submit_mem spare \<lparr>eTerm = currentTerm r, eCommand = Some kv\<rparr> m) (stateLog r2)) \<and>
    (broadcastMsg_send p t r = Ret (req, nx) \<and> mem_run ops m = Ret m' \<and> uncut (length (stateLog r)) ops m \<longrightarrow>
       (\<exists>s. request_slice nx m = Ret s \<and> encoded s m' req = req)) \<and>
    (commitChannel_section r = Ret (es, r3) \<and> es \<noteq> [] \<and> mem_run ops m = Ret m' \<and> uncut (unat (commit_index r + 1)) ops m \<longrightarrow>
       (\<exists>s. committed_slice (last_applied r) (commit_index r) m = Ret s \<and> sl_read (arrays m') s = es))"
  using ae_insert_mem_refines [OF assms] Submit_mem_refines [OF assms] committed_survive [OF assms]
    request_survives [OF holds_raft_log [OF assms]] holds_raft_log by blast

theorem log_memory_refines_value_witness:
  "(\<exists>s. request_slice 1 reuse_mem = Ret s \<and> encoded s (Submit_mem [] \<lparr>eTerm = 1, eCommand = None\<rparr> reuse_mem) reuse_request = reuse_request) \<and>
   (\<exists>m1. ae_insert_mem [] reuse_received reuse_mem = Ret m1 \<and> stateLog_slice m1 = stateLog_slice reuse_mem)"
proof -
  let ?ops = "[([], Appends \<lparr>eTerm = 1, eCommand = None\<rparr>)]"
  have "mem_run ?ops reuse_mem = Ret (Submit_mem [] \<lparr>eTerm = 1, eCommand = None\<rparr> reuse_mem)"
    "uncut (length (stateLog (node_of 1 reuse_start))) ?ops reuse_mem" by code_simp+
  moreover have "stateLog_slice reuse_late = stateLog_slice reuse_mem" by code_simp
  ultimately show ?thesis
    using log_memory_refines_value [OF reuse_holds_raft, where ops = ?ops] reuse_holds(3,5) by blast
qed

text \<open>
  C13. Shared arrays break Log Matching: a leader of term 1 has a request for node 2 in the making when it
  receives the entries of the leader of term 2, which overwrite its log in place. The request that leaves
  carries an entry of term 2 behind a predecessor of term 1; node 2 accepts it, and its log no longer matches
  that of the leader of term 2, although every term has one winner. With the entries that were in the log
  when the request was built, the logs match.
\<close>

theorem reused_array_breaks_log_matching:
  "fresh cluster3 \<and> cluster_run (reuse_before @ reuse_after) cluster3 = Ret reuse_end \<and>
   distinct (terms_won (reuse_before @ reuse_after) cluster3) \<and> cluster_run reuse_before cluster3 = Ret reuse_start \<and>
   holds reuse_mem (stateLog (node_of 1 reuse_start)) \<and>
   broadcastMsg_send 2 1 (node_of 1 reuse_start) = Ret (reuse_request, 1) \<and> request_slice 1 reuse_mem = Ret reuse_slice \<and>
   ae_insert_mem [] reuse_received reuse_mem = Ret reuse_late \<and> holds reuse_late (stateLog (node_of 1 reuse_end)) \<and>
   logs_match (after_request reuse_request) (stateLog (node_of 3 reuse_end)) \<and>
   \<not> logs_match (after_request (encoded reuse_slice reuse_late reuse_request)) (stateLog (node_of 3 reuse_end))"
  using fresh_cluster3 reuse_run reuse_holds reuse_logs by blast

section \<open>Elections\<close>

text \<open>
  C14. However the goroutines of an election interleave their unsynchronised reads and writes of the vote
  counter, a node that becomes leader holds granting replies from peers that together with itself are
  a strict majority of the cluster.
\<close>

theorem election_winner_has_majority:
  assumes "ballot_run now r b" "config_ok r" "length (peers r) < 2 ^ 62" "state (bRaft b) = Leader"
  shows "insert (raft_id r) (set (granted b)) \<subseteq> cluster_ids r \<and>
    majority (int (card (insert (raft_id r) (set (granted b))))) r"
  using ballot_winner [OF assms] by blast

theorem election_winner_has_majority_witness:
  "ballot_run 200 (raft_at 0) (ballot_of 0 1) \<and>
     majority (int (card (insert (raft_id (raft_at 0)) (set (granted (ballot_of 0 1)))))) (raft_at 0)"
proof -
  have "config_ok (raft_at 0)" "length (peers (raft_at 0)) = 2" by code_simp+
  then show ?thesis
    using election_winner_has_majority [OF ballot_of_runs(1) _ _ ballot_of_won(1)] ballot_of_runs(1) by simp
qed

text \<open>
  C15. Two servers that \<open>NewServer\<close> builds from one list of distinct addresses with distinct hashes
  agree on the members of the cluster for ever, and if both win an election some member granted its
  vote in both.
\<close>

theorem winners_share_a_voter:
  assumes "distinct (binds specs)" "inj_on server_hash (set (binds specs))" "length specs \<le> 2 ^ 62"
    and "a < length specs" "NewServer stat1 (specs ! a) (others a specs) port1 on1 = Ret (Inr s1)"
    and "raftState s1 = Some r1" "rtranclp section_step \<lparr>nraft = r1, delivered = []\<rparr> n1"
    and "ballot_run now1 (nraft n1) b1" "state (bRaft b1) = Leader"
    and "b < length specs" "NewServer stat2 (specs ! b) (others b specs) port2 on2 = Ret (Inr s2)"
    and "raftState s2 = Some r2" "rtranclp section_step \<lparr>nraft = r2, delivered = []\<rparr> n2"
    and "ballot_run now2 (nraft n2) b2" "state (bRaft b2) = Leader"
  shows "cluster_ids (nraft n1) = cluster_ids (nraft n2) \<and>
    (\<exists>v. v \<in> insert (raft_id (nraft n1)) (set (granted b1)) \<and> v \<in> insert (raft_id (nraft n2)) (set (granted b2)))"
proof -
  have c1: "config_ok (nraft n1)" "cluster_ids (nraft n1) = server_hash ` set (binds specs)"
    using NewServer_node_config [OF assms(1,2,4-7)] by simp_all
  have c2: "config_ok (nraft n2)" "cluster_ids (nraft n2) = server_hash ` set (binds specs)"
    using NewServer_node_config [OF assms(1,2,10-13)] by simp_all
  have "card (cluster_ids (nraft n1)) \<le> 2 ^ 62"
    unfolding c1(2) using card_image_le [of "set (binds specs)" server_hash] card_length [of "binds specs"] assms(3)
    by (simp add: binds_def)
  then show ?thesis
    using common_voter [OF c1(1) c2(1) _ _ assms(8,9,14,15)] c1(2) c2(2) by simp
qed

theorem winners_share_a_voter_witness:
  "\<exists>v. v \<in> insert (raft_id (raft_at 0)) (set (granted (ballot_of 0 1))) \<and>
     v \<in> insert (raft_id (raft_at 1)) (set (granted (ballot_of 1 0)))"
proof -
  obtain s1 s2 where
    s: "NewServer (\<lambda>_. Some True) (specs3 ! 0) (others 0 specs3) ''35001'' True = Ret (Inr (s1 :: unit Server))"
      "raftState s1 = Some (raft_at 0)"
      "NewServer (\<lambda>_. Some True) (specs3 ! 1) (others 1 specs3) ''35001'' True = Ret (Inr (s2 :: unit Server))"
      "raftState s2 = Some (raft_at 1)"
    using server_at_new [of 0] server_at_new [of 1] by (auto simp: server_at_def)
  show ?thesis
    using winners_share_a_voter [OF specs3_ok(1,2) _ _ s(1,2) rtranclp.rtrancl_refl _ ballot_of_won(1) _ s(3,4)
        rtranclp.rtrancl_refl _ ballot_of_won(2)] ballot_of_runs specs3_ok(3) by simp
qed

text \<open>
  C16. Validity: in every run of a cluster, with messages lost, delayed and reordered at will, each
  command a node sends to its commit channel is one a client submitted.
\<close>

theorem only_submitted_commands_applied:
  assumes "fresh c" "cluster_run es c = Ret c'" "(i, cs) \<in> set (applied c')" "ce \<in> set cs"
  shows "ceCommand ce \<in> set (submitted c')"
  using cluster_run_valid [OF assms(2) fresh_valid [OF assms(1)]] assms(3,4) by (auto simp: cluster_valid_def)

theorem only_submitted_commands_applied_witness:
  "cluster_run clash cluster3 = Ret clash_end \<and> kvA \<in> set (submitted clash_end)"
  using only_submitted_commands_applied [OF fresh_cluster3 clash_evaluated(1),
      of 1 "[\<lparr>ceCommand = kvA, ceIndex = 0, ceTerm = 1\<rparr>]" "\<lparr>ceCommand = kvA, ceIndex = 0, ceTerm = 1\<rparr>"]
  by (simp add: clash_evaluated)

text \<open>
  The critical sections over-approximate the methods: what holds in every sequence of sections holds after a
  method that runs without interference.
\<close>

lemma methods_refine_sections:
  assumes "handler_step n n'"
  shows "rtranclp section_step n n' \<and> (reachable_node n \<longrightarrow> reachable_node n')"
  using handler_step_sections [OF assms] reachable_sections by blast

text \<open>
  The answer of a live node to a vote request, in terms of its state before the call: it moves to
  the term of the request if that is newer, and grants the vote if it then is in that term or if the
  log of the candidate looks up to date. Its log and its indices do not change.
\<close>

lemma RequestVote_answer:
  assumes "state r \<noteq> Dead" "RequestVote_run now vote r = (r', res)"
  shows "res = Inr \<lparr>rvrTerm = term_after (rvTerm vote) r,
      rvrVoteGranted = (term_after (rvTerm vote) r = rvTerm vote \<or> log_up_to_date vote r)\<rparr> \<and>
    currentTerm r' = term_after (rvTerm vote) r \<and> stateLog r' = stateLog r \<and> volatileState r' = volatileState r"
  using RequestVote_run_reply [OF assms(1), of now vote] RequestVote_run_term [OF assms(1), of now vote]
    RequestVote_run_frame [OF assms(2)] assms(2) by simp

text \<open>
  A dead node answers neither call and keeps its state, and a message of an older term is refused
  with the term of the node and changes nothing.
\<close>

lemma refused_calls_change_nothing:
  "(state r = Dead \<longrightarrow>
      AppendEntries_run now req r = Ret (r, Inl ''cm state is dead'') \<and>
      RequestVote_run now vote r = (r, Inl ''servever state is shutdownGrpc'')) \<and>
   (state r \<noteq> Dead \<and> aeTerm req < currentTerm r \<and> currentTerm r \<noteq> MaxUint64 \<longrightarrow>
      AppendEntries_run now req r = Ret (r, Inr \<lparr>aerTerm = currentTerm r, aerSuccess = False\<rparr>))"
  by (auto simp: AppendEntries_run_dead RequestVote_run_dead term_outdated_def intro!: AppendEntries_run_stale)

section \<open>Where the module departs from Raft\<close>

text \<open>
  C17. Entries that are in no log can be delivered: in a run of a fresh cluster of three, with one winner of each term
  and every request as it was built, node 2 has two entries of the leader of term 1 and its commit index when the
  leader of term 2 replaces its log by one entry. Its commit loop then slices the log up to the commit index, past
  the end of the log, and delivers a cell of the array behind it: node 2 applies two commands while the log of
  every node consists of the first.
\<close>

theorem stale_entries_are_delivered:
  "fresh cluster3 \<and> distinct (terms_won stale_run cluster3) \<and> requests_intact stale_run cluster3 \<and>
   (\<exists>c c1 c2. cluster_run stale_run cluster3 = Ret c \<and> (2, [c1, c2]) \<in> set (applied c) \<and> ceIndex c2 = 1 \<and>
     ceCommand c1 \<noteq> ceCommand c2 \<and> map fst (nodes c) = [1, 2, 3] \<and>
     map (\<lambda>(i, r). map eCommand (stateLog r)) (nodes c) = replicate 3 [Some (ceCommand c1)])"
proof -
  have "kvC \<noteq> kvB" "map fst (nodes stale_end) = [1, 2, 3]"
    "map (\<lambda>(i, r). map eCommand (stateLog r)) (nodes stale_end) = replicate 3 [Some kvC]" by code_simp+
  then show ?thesis using fresh_cluster3 stale_evaluated by auto
qed

text \<open>
  C18. Election safety fails: from a fresh cluster of three, two nodes that time out together are both
  leaders of term 1. A voter grants every request of its own term without looking at \<open>votedFor\<close>.
\<close>

theorem two_leaders_in_one_term:
  "fresh cluster3 \<and> (\<exists>c r1 r3. cluster_run split_vote cluster3 = Ret c \<and>
     map_of (nodes c) 1 = Some r1 \<and> map_of (nodes c) 3 = Some r3 \<and>
     state r1 = Leader \<and> state r3 = Leader \<and> currentTerm r1 = currentTerm r3)"
  using fresh_cluster3 split_evaluated by auto

text \<open>
  C19. Committed entries can be lost although every term has one winner: in a run of a fresh cluster of three in
  which terms 1 and 2 are won once each, node 1 applies a command that a majority holds, and node 3, elected
  with an empty log, replaces it and applies another command at the same index. A voter grants every request
  of its own term without comparing logs.
\<close>

theorem committed_entry_is_overtaken:
  "fresh cluster3 \<and> distinct (terms_won overtake cluster3) \<and> (\<exists>c c1 c3. cluster_run overtake cluster3 = Ret c \<and>
     (1, [c1]) \<in> set (applied c) \<and> (3, [c3]) \<in> set (applied c) \<and>
     ceIndex c1 = ceIndex c3 \<and> ceCommand c1 \<noteq> ceCommand c3)"
proof -
  have "kvA \<noteq> kvB" by code_simp
  then show ?thesis using fresh_cluster3 overtake_evaluated by auto
qed

text \<open>
  State machine safety fails with it: the two leaders go on to apply different commands at log
  index 0.
\<close>

lemma conflicting_commands_applied:
  "fresh cluster3 \<and> (\<exists>c c1 c3. cluster_run clash cluster3 = Ret c \<and>
     (1, [c1]) \<in> set (applied c) \<and> (3, [c3]) \<in> set (applied c) \<and>
     ceIndex c1 = ceIndex c3 \<and> ceCommand c1 \<noteq> ceCommand c3)"
proof -
  have "kvA \<noteq> kvB" by code_simp
  then show ?thesis using fresh_cluster3 clash_evaluated by auto
qed

text \<open>
  C20. A leader that is elected again panics: in a run of a fresh cluster of three, node 1 leads term 1 and has
  replicated its two entries to node 2; the leader of term 2 cuts its log to one entry; node 1 wins term 3 with
  \<open>nextIndex\<close> still 2 for node 2, since nothing resets it on election, and the next request it builds for node 2
  starts past the end of its log.
\<close>

theorem reelected_leader_panics:
  "fresh cluster3 \<and> terms_won (lead_first @ lead_second @ lead_again) cluster3 = [1, 2, 3] \<and>
   (\<exists>c1 c2 r1 r2. cluster_run lead_first cluster3 = Ret c1 \<and> map_of (nodes c1) 1 = Some r1 \<and>
     state r1 = Leader \<and> length (stateLog r1) = 2 \<and> map_get0 (nextIndex r1) 2 = 2 \<and>
     cluster_run (lead_second @ lead_again) c1 = Ret c2 \<and> map_of (nodes c2) 1 = Some r2 \<and>
     state r2 = Leader \<and> length (stateLog r2) = 1 \<and> map_get0 (nextIndex r2) 2 = 2 \<and>
     cluster_event (Heartbeat 1 2) c2 = Panic SliceOutOfRange)"
  using fresh_cluster3 cut_evaluated cut_nodes by blast

text \<open>
  A candidate whose log is empty is granted the vote of every live node with a non-empty log,
  however old the term of the request: the empty log is announced with the largest term there is.
\<close>

lemma empty_log_candidate_wins_vote:
  assumes "state r \<noteq> Dead" "stateLog r \<noteq> []" "eTerm (last (stateLog r)) \<noteq> MaxUint64" "stateLog cand = []"
  shows "\<exists>reply. snd (RequestVote_run now (vote_request t cand) r) = Inr reply \<and> rvrVoteGranted reply"
proof -
  have "lastLogIndexAndTerm r = (of_nat (length (stateLog r) - 1), eTerm (last (stateLog r)))"
    using assms(2) by (simp add: lastLogIndexAndTerm_def last_conv_nth Let_def)
  moreover have "rvLastLogTerm (vote_request t cand) = MaxUint64"
    by (simp add: vote_request_def lastLogIndexAndTerm_def assms(4))
  ultimately have "log_up_to_date (vote_request t cand) r"
    using assms(3) by (simp add: log_up_to_date_def word_order.not_eq_extremum)
  then show ?thesis by (simp add: RequestVote_run_reply [OF assms(1)])
qed

text \<open>
  A leader that has committed nothing says so with \<open>MaxUint64\<close>, and a follower that has a commit
  index takes this for a large index: it commits its whole log.
\<close>

lemma blind_leader_commits_whole_log:
  assumes "state r \<noteq> Dead" "term_outdated (aeTerm req) (currentTerm r) \<or> aeTerm req = currentTerm r"
    and "log_fits r" "can_send r" "prev_matches req r"
    and "aeLeaderCommit req = MaxUint64" "commit_index r \<noteq> MaxUint64"
  shows "\<exists>r' res. AppendEntries_run now req r = Ret (r', res) \<and> commit_index r' = log_len r' - 1"
proof -
  from AppendEntries_run_returns [OF assms(3,4)] obtain r' res where
    ret: "AppendEntries_run now req r = Ret (r', res)" by blast
  moreover have "MaxUint64 > commit_index r" using assms(7) by (simp add: word_order.not_eq_extremum)
  ultimately show ?thesis
    using AppendEntries_run_accepted [OF assms(1-3) ret] assms(5,6)
    by (auto simp: commit_value_def uint64Min_def word_order.extremum_strict)
qed

text \<open>
  A reply that arrives after \<open>Shutdown\<close> and carries a newer term brings the node back: it is a
  follower again, its commit channel is closed, and the next \<open>Shutdown\<close> panics.
\<close>

lemma late_reply_revives_dead_node:
  assumes "state r \<noteq> Dead" "Raft_Shutdown r = Ret r1" "t < aerTerm reply"
  shows "state r1 = Dead \<and> (\<exists>r2. broadcastMsg_reply now p nx k t reply r1 = Ret r2 \<and> state r2 = Follower \<and>
    chClosed (commitReadyChan r2) \<and> Raft_Shutdown r2 = Panic CloseOfClosedChannel)"
  using assms by (auto simp: Raft_Shutdown_def broadcastMsg_reply_def bind_go_Ret_iff go_simps split: if_splits)

text \<open>
  C21. The vote counter loses updates: in a cluster of five, two peers grant their votes, a majority with
  the candidate's own, both goroutines have finished, and the node is still a candidate.
\<close>

theorem majority_can_be_lost:
  "\<exists>b. ballot_run 200 node5 b \<and> config_ok node5 \<and> set (granted b) \<subseteq> set (written b) \<and>
     majority (int (card (insert (raft_id node5) (set (granted b))))) node5 \<and> state (bRaft b) = Candidate"
proof -
  have "config_ok node5" "set (granted lost4) \<subseteq> set (written lost4)"
    "majority (int (card (insert (raft_id node5) (set (granted lost4))))) node5" "state (bRaft lost4) = Candidate"
    by code_simp+
  then show ?thesis using lost_run by blast
qed

section \<open>The server\<close>

text \<open>
  A server that is not running refuses every call: the Raft handlers and the reads answer with an
  error and leave it as it was (a submission is only counted), and its own remote calls fail before they
  reach a connection.
\<close>

lemma stopped_server_refuses:
  assumes "serverState s \<noteq> Running"
  shows "(\<exists>e. RequestVoteCall now vote (Some s) = (Some s, Inl e)) \<and>
    (\<exists>e. AppendEntriesCall now req (Some s) = Ret (Some s, Inl e)) \<and>
    (\<exists>e. SubmitCall cmd (Some s) = Ret (s\<lparr>submitRx := submitRx s + 1\<rparr>, None, Some e)) \<and>
    (\<exists>e. GetValue d1 d2 key (Some s) = Ret (None, Some e)) \<and>
    (\<exists>e. Ping (Some s) = Inl e) \<and>
    (\<exists>e. \<forall>vote_call append_call. RemoteCall vote_call append_call p args (Some s) = Inl e)"
proof -
  have "\<exists>e. \<forall>vote_call append_call. RemoteCall vote_call append_call p args (Some s) = Inl e"
    using assms by (cases "serverState s") (auto simp: RemoteCall_def)
  then show ?thesis
    using handlers_guarded [OF assms] GetValue_guarded [OF assms] by blast
qed

text \<open>
  In every state a server can reach, \<open>PeerStatus\<close> returns: each connection belongs to a configured
  peer, and the report has an entry for each connection and for the server itself.
\<close>

lemma peer_status_total:
  assumes "reachable_server s"
  shows "\<exists>m. Server_PeerStatus conn_state rdy (Some s) = Ret m \<and>
    dom (map_of m) = insert (serverId s) (fst ` set (peerClient s))"
  using Server_PeerStatus_returns [OF reachable_server_wf [OF assms]] .

text \<open>The two ways a shutdown can go.\<close>

lemma shutdown_goes:
  assumes "serverState s \<noteq> Shutdown" "rpc s"
    and "raftState s = Some r" "state r \<noteq> Dead" "\<not> chClosed (commitReadyChan r)"
    and "quit s = Some q" "\<not> chClosed q"
    and "serverLock env" "rest s = None \<or> (\<exists>k. portFree env k)" "raftLock env" "rpcDrains env"
  shows "\<exists>s' r' q'. Server_Shutdown env (Some s) = Ret (Some s', map snd (peerClient s)) \<and>
    serverState s' = Shutdown \<and> peerClient s' = [] \<and> raftState s' = Some r' \<and> state r' = Dead \<and>
    quit s' = Some q' \<and> chClosed q' \<and>
    Server_Shutdown env' (Some s') = (if serverLock env' then Ret (Some s', []) else Blocked)"
proof (cases "rest s")
  case None
  then show ?thesis using assms by (simp add: Server_Shutdown_def shutdownRest_def Raft_Shutdown_def await_def go_simps Let_def)
next
  case (Some rs)
  then obtain j where "wait_released (portFree env) 0 = Some j"
    using wait_released_reached [of "portFree env" 0] assms(9) by fastforce
  then show ?thesis using assms Some by (simp add: Server_Shutdown_def Raft_Shutdown_def await_def go_simps Let_def)
qed

lemma shutdown_waits_for:
  assumes "serverState s \<noteq> Shutdown" "rpc s"
    and "raftState s = Some r" "state r \<noteq> Dead" "\<not> chClosed (commitReadyChan r)"
    and "quit s = Some q" "\<not> chClosed q"
    and "\<not> (serverLock env \<and> (rest s = None \<or> (\<exists>k. portFree env k)) \<and> raftLock env \<and> rpcDrains env)"
  shows "Server_Shutdown env (Some s) = Blocked"
  using assms wait_released_never [of "portFree env" 0]
  by (cases "rest s") (auto simp: Server_Shutdown_def shutdownRest_def Raft_Shutdown_def await_def go_simps Let_def split: option.splits)

text \<open>Once the commit pipeline is stuck the mutex of the Raft module is never free again, and \<open>Shutdown\<close> waits with it.\<close>

lemma stuck_pipeline_blocks_shutdown:
  assumes "stuck p" "pipe_step\<^sup>*\<^sup>* p p'" "raftLock env \<longrightarrow> held p' = None"
    and "serverState s \<noteq> Shutdown" "raftState s = Some r" "rpc s"
  shows "Server_Shutdown env (Some s) = Blocked"
proof -
  have "stuck p'" using stuck_forever [OF assms(2,1)] by blast
  then have "\<not> raftLock env" using assms(3) by (auto simp: stuck_def)
  then show ?thesis
    using assms(4-6) by (auto simp: Server_Shutdown_def await_def Let_def split: option.splits)
qed

text \<open>
  C22. \<open>Shutdown\<close> of a live, serving server returns exactly when the mutex of the server and that of its Raft module
  can be taken, its REST port, if it has a REST service, is eventually released, and the pending gRPC calls
  finish: then the server is shut down, its Raft module is dead, every connection has been closed, the quit
  channel is closed, and a second \<open>Shutdown\<close> does nothing; otherwise it waits for ever.
\<close>

theorem shutdown_completes:
  assumes "serverState s \<noteq> Shutdown" "rpc s"
    and "raftState s = Some r" "state r \<noteq> Dead" "\<not> chClosed (commitReadyChan r)"
    and "quit s = Some q" "\<not> chClosed q"
  shows "if serverLock env \<and> (rest s = None \<or> (\<exists>k. portFree env k)) \<and> raftLock env \<and> rpcDrains env
    then (\<exists>s' r' q'. Server_Shutdown env (Some s) = Ret (Some s', map snd (peerClient s)) \<and>
      serverState s' = Shutdown \<and> peerClient s' = [] \<and> raftState s' = Some r' \<and> state r' = Dead \<and>
      quit s' = Some q' \<and> chClosed q' \<and>
      Server_Shutdown env' (Some s') = (if serverLock env' then Ret (Some s', []) else Blocked))
    else Server_Shutdown env (Some s) = Blocked"
  using assms shutdown_goes [OF assms] shutdown_waits_for [OF assms] by auto

theorem shutdown_completes_witness:
  "(\<exists>s'. Server_Shutdown \<lparr>portFree = \<lambda>i. i = 4, serverLock = True, raftLock = True, rpcDrains = True\<rparr> (Some demo_server) =
     Ret (Some s', []) \<and> serverState s' = Shutdown) \<and>
   Server_Shutdown \<lparr>portFree = \<lambda>i. i = 4, serverLock = True, raftLock = False, rpcDrains = True\<rparr> (Some demo_server) = Blocked"
proof -
  have "serverState demo_server \<noteq> Shutdown" "rpc demo_server" "raftState demo_server = Some demo4"
    "state demo4 \<noteq> Dead" "\<not> chClosed (commitReadyChan demo4)" "quit demo_server = Some (make_chan 0)"
    "\<not> chClosed (make_chan 0 :: unit gochan)" "map snd (peerClient demo_server) = []" by code_simp+
  from shutdown_completes [OF this(1-7), of "\<lparr>portFree = \<lambda>i. i = 4, serverLock = True, raftLock = True, rpcDrains = True\<rparr>"]
    shutdown_completes [OF this(1-7), of "\<lparr>portFree = \<lambda>i. i = 4, serverLock = True, raftLock = False, rpcDrains = True\<rparr>"]
    this(8) show ?thesis by auto
qed

text \<open>
  The REST service never receives the shutdown signal: in every state a server can reach the channel
  is nil, so the signal is never in it, and if the REST port is then not released \<open>Shutdown\<close> never returns
  while it holds the server's lock.
\<close>

lemma shutdown_signal_is_lost:
  assumes "reachable_server s" "serverState s \<noteq> Shutdown"
  shows "(\<exists>rs. shutdownRest (rest s) = Some rs \<and> shutdownRequest rs = None) \<and>
    ((\<forall>i. \<not> portFree env i) \<longrightarrow> Server_Shutdown env (Some s) = Blocked)"
proof -
  obtain rs where rs: "rest s = Some rs" "shutdownRequest rs = None"
    using reachable_server_wf [OF assms(1)] by (auto simp: server_wf_def)
  then have "\<exists>rs. shutdownRest (rest s) = Some rs \<and> shutdownRequest rs = None"
    by (auto simp: shutdownRest_def Let_def)
  moreover have "Server_Shutdown env (Some s) = Blocked" if "\<forall>i. \<not> portFree env i"
    using assms(2) rs wait_released_never [OF that] by (simp add: Server_Shutdown_def await_def Let_def)
  ultimately show ?thesis by blast
qed

text \<open>
  \<open>Start\<close> on a configured server that is not running never returns: it ranges over a channel that
  nothing closes.
\<close>

lemma Start_never_returns:
  assumes "serverState s \<noteq> Running" "peersHash s \<noteq> []"
  shows "Start listen dial s = Blocked"
  using assms by (simp add: Start_def NewRaftProtocol_def go_simps Let_def)

text \<open>
  A leader that accepts a submission names the wrong server: in every reachable state the reply says
  leader 0, at the address of the first peer of the configuration.
\<close>

lemma submit_reply_misnames_leader:
  assumes "reachable_server s" "serverState s = Running" "raftState s = Some r" "state r = Leader" "peerSpec s \<noteq> []"
  shows "\<exists>s' rep. SubmitCall (Some kv) (Some s) = Ret (s', Some rep, None) \<and>
    srLeaderId rep = 0 \<and> srAddress rep = RaftNetworkBind (hd (peerSpec s)) \<and> srNodeId rep = serverId s"
proof -
  have "LeaderId s = 0" using reachable_server_wf [OF assms(1)] by (simp add: server_wf_def)
  then show ?thesis
    using SubmitCall_leader [OF assms(2-4), of kv] assms(5) by (simp add: hd_conv_nth)
qed

section \<open>The REST interface\<close>

text \<open>
  C23. The whole way of a write: in a cluster of at most three, a client that knows the leader stores a value;
  after at most \<open>nextIndex + 1\<close> rounds with one live follower whose log matches, the follower holds the entry,
  the next round of \<open>commitChannel\<close> delivers it, \<open>ReadCommits\<close> stores it, and the client reads the value back.
\<close>

theorem stored_value_is_read:
  assumes "mux_ok (client_leader c) mux" "mux_get_ok (client_leader c) mux'" "client_leader c \<noteq> []" "key \<noteq> []" "val \<noteq> []"
    and "leads s r" "server_inv s" "indices_ok r" "p \<in> snd ` set (peers r)" "numberPeers r \<le> 2"
    and "replicating p (appended key val r) f"
  shows "\<exists>s1 k l' f' cs l'' s2. Store_world http (post_server mux) key val c s = (True, None, c, s1) \<and>
    raftState s1 = Some (appended key val r) \<and> k \<le> Suc (unat (map_get0 (nextIndex r) p)) \<and>
    replicate_rounds k now p (appended key val r) f = Ret (l', f') \<and>
    take (Suc (length (stateLog r))) (stateLog f') = stateLog (appended key val r) \<and>
    commitChannel_iter l' = Ret (Some (cs, l'')) \<and> ReadCommits_all cs (s1\<lparr>raftState := Some l''\<rparr>) = Ret s2 \<and>
    Get http (serve_get mux' s2) key c = (Some \<lparr>hvValue = val, hvSuccess = True\<rparr>, None, c)"
proof -
  from Store_world_leader [OF assms(1,3,6,4,5), of http] obtain s1 where
    s1: "Store_world http (post_server mux) key val c s = (True, None, c, s1)" "server_inv s1" "leads s1 (appended key val r)"
    using assms(7) by (auto simp: appended_def)
  have inv: "server_inv (s1\<lparr>raftState := x\<rparr>)" for x using s1(2) by (simp add: server_inv_def)
  from write_reaches_store [OF assms(11,8-10), of now] obtain k l' f' cs l'' where
    path: "k \<le> Suc (unat (map_get0 (nextIndex r) p))" "replicate_rounds k now p (appended key val r) f = Ret (l', f')"
      "take (Suc (length (stateLog r))) (stateLog f') = stateLog (appended key val r)"
      "commitChannel_iter l' = Ret (Some (cs, l''))" and stores: "stores_value cs key val" by blast
  from stores_value_read [OF stores inv] obtain s2 where
    s2: "ReadCommits_all cs (s1\<lparr>raftState := Some l''\<rparr>) = Ret s2" "VolatileStorage_Get (db s2) key = (val, True)" by blast
  have "Get http (serve_get mux' s2) key c = (Some \<lparr>hvValue = val, hvSuccess = True\<rparr>, None, c)"
    using s2(2) by (intro Get_from_server [OF assms(2,3,4)])
  then show ?thesis using s1 path s2(1) unfolding leads_def by blast
qed

theorem stored_value_is_read_witness:
  "\<exists>s1 k l' f' cs l'' s2. Store_world (\<lambda>_. Timeout) (post_server last_two) ''k1'' [7, 8]
      \<lparr>endpoint = [], client_leader = ''n1:8001'', verbose = False\<rparr> leading =
      (True, None, \<lparr>endpoint = [], client_leader = ''n1:8001'', verbose = False\<rparr>, s1) \<and>
    replicate_rounds k 300 peer_one (appended ''k1'' [7, 8] leader_zero) follower_one = Ret (l', f') \<and>
    commitChannel_iter l' = Ret (Some (cs, l'')) \<and> ReadCommits_all cs (s1\<lparr>raftState := Some l''\<rparr>) = Ret s2 \<and>
    Get (\<lambda>_. Timeout) (serve_get last_one s2) ''k1'' \<lparr>endpoint = [], client_leader = ''n1:8001'', verbose = False\<rparr> =
      (Some \<lparr>hvValue = [7, 8], hvSuccess = True\<rparr>, None, \<lparr>endpoint = [], client_leader = ''n1:8001'', verbose = False\<rparr>)"
proof -
  let ?c = "\<lparr>endpoint = [], client_leader = ''n1:8001'', verbose = False\<rparr>"
  have ne: "client_leader ?c \<noteq> []" "''k1'' \<noteq> []" "[7, 8 :: 8 word] \<noteq> []" by simp_all
  have "LeaderId leading = 0" using reachable_server_wf [OF leading_facts(1)] by (simp add: server_wf_def)
  then have "leads leading leader_zero" using leading_facts by (simp add: leads_def leader_zero_def)
  from stored_value_is_read [OF last_two_ok last_one_ok ne this leading_facts(6) write_ready(2) zero_facts(8,9) write_ready(1),
      of "\<lambda>_. Timeout" 300]
  show ?thesis by blast
qed

text \<open>
  Round trip: a non-empty key and value that a client encodes into the path of a submission to a
  leading server are appended, decoded, to the log, and once the entry is stored the value is returned
  under the encoded key.
\<close>

lemma rest_value_roundtrip:
  assumes "key \<noteq> []" "val \<noteq> []" "serverState s = Running" "raftState s = Some r" "state r = Leader"
    and "unat (LeaderId s) < length (peerSpec s)" "server_inv s"
  shows "\<exists>s1 rep r1. SubmitKeyValue (EncodeToString (bytes_of_string key)) (EncodeToString val) s = Ret (s1, Written 201 (Some rep)) \<and>
    raftState s1 = Some r1 \<and>
    stateLog r1 = stateLog r @ [\<lparr>eTerm = currentTerm r, eCommand = Some \<lparr>Key = key, Value = val\<rparr>\<rparr>] \<and>
    (\<forall>i t. \<exists>s2. ReadCommits_store \<lparr>ceCommand = \<lparr>Key = key, Value = val\<rparr>, ceIndex = i, ceTerm = t\<rparr> s1 = Ret s2 \<and>
      getValue (EncodeToString (bytes_of_string key)) s2 = Written 200 \<lparr>hvValue = val, hvSuccess = True\<rparr>)"
proof -
  let ?s1 = "s\<lparr>submitRx := submitRx s + 1, raftState := Some (appended key val r)\<rparr>"
  have inv: "server_inv ?s1" using assms(7) by (simp add: server_inv_def)
  have "\<exists>s2. ReadCommits_store \<lparr>ceCommand = \<lparr>Key = key, Value = val\<rparr>, ceIndex = i, ceTerm = t\<rparr> ?s1 = Ret s2 \<and>
      getValue (EncodeToString (bytes_of_string key)) s2 = Written 200 \<lparr>hvValue = val, hvSuccess = True\<rparr>" for i t
    using assms(1,7) by (subst ReadCommits_store_Ret [OF inv]) (auto simp: server_inv_def vol.get_set intro!: getValue_stored)
  then show ?thesis
    using SubmitKeyValue_submits [OF assms(1,2), of s] SubmitCall_leader [OF assms(3-6)] by (simp add: appended_def)
qed

text \<open>
  C24. Lost write: a client keeps the address of the leader it once found; when the server there runs but
  no longer leads, \<open>Store\<close> of any non-empty key and value reports success, while the server has dropped
  the command and answered 201.
\<close>

theorem stale_leader_store_is_lost:
  assumes "mux_ok (client_leader c) mux" "key \<noteq> []" "val \<noteq> []" "client_leader c \<noteq> []"
    and "serverState s = Running" "raftState s = Some r" "state r \<noteq> Leader"
  shows "\<exists>s' reply. serve_post mux s (store_url (client_leader c) key val) = Ret (s', reply) \<and>
    raftState s' = raftState s \<and>
    (\<forall>post. post (store_url (client_leader c) key val) = reply \<longrightarrow>
       Store http post key val c = (True, None, c))"
  using serve_post_submit [OF assms(1-3), of s] SubmitCall_not_leader [OF assms(5-7)] assms(6)
    Store_cached [OF assms(4)] by simp

theorem stale_leader_store_is_lost_witness:
  "\<exists>s' reply. serve_post last_two served (store_url ''n1:8001'' ''k1'' [7, 8]) = Ret (s', reply) \<and>
     raftState s' = raftState served \<and>
     Store (\<lambda>_. Timeout) (\<lambda>_. reply) ''k1'' [7, 8]
       \<lparr>endpoint = [(''http://n1:8001'', True)], client_leader = ''n1:8001'', verbose = False\<rparr> =
       (True, None, \<lparr>endpoint = [(''http://n1:8001'', True)], client_leader = ''n1:8001'', verbose = False\<rparr>)"
proof -
  let ?c = "\<lparr>endpoint = [(''http://n1:8001'', True)], client_leader = ''n1:8001'', verbose = False\<rparr>"
  have lead: "client_leader ?c = ''n1:8001''" by (rule RestClient.simps)
  have ne: "''k1'' \<noteq> []" "[7, 8 :: 8 word] \<noteq> []" "client_leader ?c \<noteq> []" by simp_all
  have "state (raft_at 0) \<noteq> Leader" by code_simp
  note * = stale_leader_store_is_lost [OF last_two_ok ne served_facts(2,3) this, where http = "\<lambda>_. Timeout", unfolded lead]
  then obtain s' reply where
    "serve_post last_two served (store_url ''n1:8001'' ''k1'' [7, 8]) = Ret (s', reply)" "raftState s' = raftState served"
    and lost: "\<forall>post. post (store_url ''n1:8001'' ''k1'' [7, 8]) = reply \<longrightarrow>
      Store (\<lambda>_. Timeout) post ''k1'' [7, 8] ?c = (True, None, ?c)" by blast
  then show ?thesis using lost [rule_format, of "\<lambda>_. reply", OF refl] by blast
qed

text \<open>
  C25. Discovery: asked over a list of addresses, \<open>NewRestClient\<close> succeeds exactly when the server at one of
  them leads, whatever the other servers answer, and the client then keeps the REST address of such a server.
\<close>

theorem client_finds_leader:
  assumes "distinct (map fst srvs)"
  shows "(\<exists>c. NewRestClient (cluster_http srvs) ps = Inr c) = (\<exists>p s. p \<in> set ps \<and> (p, s) \<in> set srvs \<and> is_leading s) \<and>
    (\<forall>c. NewRestClient (cluster_http srvs) ps = Inr c \<longrightarrow>
       (\<exists>p s. p \<in> set ps \<and> (p, s) \<in> set srvs \<and> is_leading s \<and> client_leader c = RestNetworkBind (serverSpec s)))"
  using NewRestClient_found [of srvs ps] NewRestClient_finds [OF assms, of _ _ ps] by metis

theorem client_finds_leader_witness:
  "\<exists>c. NewRestClient (cluster_http [(''http://n2:8001'', served), (''http://n1:8001'', leading)])
     [''http://n2:8001'', ''http://n3:8001'', ''http://n1:8001''] = Inr c \<and> client_leader c = RestNetworkBind (serverSpec leading)"
proof -
  let ?srvs = "[(''http://n2:8001'', served), (''http://n1:8001'', leading)]"
  let ?ps = "[''http://n2:8001'', ''http://n3:8001'', ''http://n1:8001'']"
  have lead: "is_leading leading" "\<not> is_leading served"
    using leading_facts(3,4) served_facts(3) served_follows by (simp_all add: is_leading_def)
  have "distinct (map fst ?srvs)" by simp
  note found = client_finds_leader [OF this, of ?ps]
  have "\<exists>p s. p \<in> set ?ps \<and> (p, s) \<in> set ?srvs \<and> is_leading s" using lead by auto
  with found lead show ?thesis by auto
qed



text \<open>
  The page of committed entries is not a page: whatever the requested size, \<open>getCommitted\<close> returns
  the whole store, because \<open>Min\<close> computes the maximum.
\<close>

lemma committed_page_is_whole_store:
  assumes "volatile_inv (db s)" "\<forall>m. mset (order m) = mset m"
  shows "\<exists>es. getCommitted order parseInt size' s = Ret (Written 200 es) \<and>
    length es = card (dom (volatile_abs (db s))) \<and> leKey ` set es = dom (volatile_abs (db s))"
proof -
  from GetCopy_abs [OF assms(1)] obtain m where
    m: "VolatileStorage_GetCopy (db s) = Ret m" "map_wf m" "map_of m = volatile_abs (db s)" by blast
  have dom: "dom (volatile_abs (db s)) = fst ` set m" by (simp flip: m(3) add: dom_map_of_conv_image_fst)
  have len: "length m = card (dom (volatile_abs (db s)))" using length_map_wf [OF m(2)] m(3) by simp
  have om: "length (order m) = length m" "set (order m) = set m"
    using assms(2) by (metis size_mset, metis mset_eq_setD)
  have "0 + int (length (order m)) \<le> Min_int (int (length m)) (parse_limit parseInt size')" by (simp add: Min_int_def om)
  from committed_loop_all [OF this, of "[]"] have
    "getCommitted order parseInt size' s = Ret (Written 200 (map (\<lambda>(k, v).
       \<lparr>leKey = k, leValue = string_of_bytes v, leTerm = 0, leSynced = False\<rparr>) (order m)))"
    by (simp add: getCommitted_def m(1) Let_def)
  then show ?thesis unfolding dom by (simp add: len [unfolded dom] om image_image case_prod_beta)
qed

section \<open>The load balancer\<close>

text \<open>
  C27. Pools are well typed: a sequence of operations on a well-formed pool, in which a round-robin selection
  comes only when the pool has a member, never panics, keeps the pool well formed and its members those it
  had followed by those added, in order; on an empty pool the selection divides by zero.
\<close>

theorem pool_stays_well_formed:
  assumes "pool_wf p" "length (members p) + length as < 2 ^ 63"
    and "\<forall>i < length as. as ! i = PicksRoundRobin \<longrightarrow> members p \<noteq> [] \<or> concat (map added (take i as)) \<noteq> []"
  shows "(\<exists>p'. pool_run as p = Ret p' \<and> pool_wf p' \<and> map URL (members p') = map URL (members p) @ concat (map added as)) \<and>
    (members p = [] \<longrightarrow> RoundRobin (Some p) = Panic IntegerDivideByZero)"
  using pool_run_type [OF assms] RoundRobin_empty [OF assms(1)] by blast

theorem pool_stays_well_formed_witness:
  "\<exists>p'. pool_run [Adds (farm ''http://d'' True), PicksRoundRobin, PicksHash ''10.0.0.1'' 4242] (pool_of []) = Ret p' \<and> pool_wf p'"
proof -
  have "pool_wf (pool_of [])" by (rule pool_of_wf) simp
  moreover have "members (pool_of []) = []" by (simp add: pool_of_def)
  ultimately show ?thesis
    using pool_stays_well_formed [of "pool_of []" "[Adds (farm ''http://d'' True), PicksRoundRobin, PicksHash ''10.0.0.1'' 4242]"]
    by (simp add: less_Suc_eq nth_Cons') blast
qed

text \<open>
  C28. Round robin: on a well-formed, non-empty pool the call returns the first live member in cyclic
  order after the last position, and an error only if every member is dead; the members are unchanged. While
  every member is alive, as many consecutive calls as there are members return each member exactly once.
\<close>

theorem round_robin_picks_next_alive:
  assumes "pool_wf p" "members p \<noteq> []"
  shows "(\<exists>res p'. RoundRobin (Some p) = Ret (res, Some p') \<and> members p' = members p \<and> pool_wf p' \<and>
    (case res of
       Inr i \<Rightarrow> rr_pick (members p) (unat (current p + 1) mod length (members p)) = Some i \<and>
         i < length (members p) \<and> Alive (members p ! i)
     | Inl e \<Rightarrow> \<forall>m \<in> set (members p). \<not> Alive m)) \<and>
   ((\<forall>m \<in> set (members p). Alive m) \<and> unat (current p) + length (members p) < 2 ^ 64 \<longrightarrow>
     (\<exists>is p'. rr_calls (length (members p)) p = Ret (is, p') \<and> distinct is \<and> set is = {0..<length (members p)}))"
proof (cases "rr_pick (members p) (unat (current p + 1) mod length (members p))")
  case None
  then show ?thesis using RoundRobin_pick [OF assms] assms(1) rr_pick_None [OF None] rr_calls_cycle [OF assms] by auto
next
  case (Some i)
  then show ?thesis using RoundRobin_pick [OF assms] assms(1) rr_pick_Some [OF Some] rr_calls_cycle [OF assms] by auto
qed

theorem round_robin_picks_next_alive_witness:
  "(\<exists>res p'. RoundRobin (Some demo_pool) = Ret (res, Some p')) \<and>
   (\<exists>is p'. rr_calls 3 demo_pool = Ret (is, p') \<and> distinct is \<and> set is = {0..<3})"
proof -
  have "pool_wf demo_pool" unfolding demo_pool_def by (rule pool_of_wf) simp
  moreover have "length (members demo_pool) = 3" "members demo_pool \<noteq> []" "current demo_pool = 0"
    "\<forall>m \<in> set (members demo_pool). Alive m"
    by (simp_all add: demo_pool_def pool_of_def farm_def)
  ultimately show ?thesis using round_robin_picks_next_alive [of demo_pool] by auto
qed

text \<open>
  Source hashing: the same address and port select the same position as long as the number of live
  members is the same; with every member alive the selected member is alive, and there is an error only
  if none is.
\<close>

lemma hash_selection_result:
  assumes "pool_wf p"
  shows "HashSelection addr port' p =
      (if alive_count p = 0 then Ret (Inl ''all server are dead'')
       else Ret (Inr (unat (HashAddrPort addr port') mod alive_count p))) \<and>
    ((\<forall>m \<in> set (members p). Alive m) \<longrightarrow> members p \<noteq> [] \<longrightarrow>
      Alive (members p ! (unat (HashAddrPort addr port') mod alive_count p)))"
proof -
  have "alive_count p = length (members p)" if "\<forall>m \<in> set (members p). Alive m"
    using that by (simp add: alive_count_def)
  then show ?thesis using HashSelection_result [OF assms] by simp
qed

text \<open>
  Source hashing ignores which members are alive: there is a pool with a live member in which every
  client is sent to a dead one.
\<close>

lemma hash_selection_returns_dead_member:
  "\<exists>p. pool_wf p \<and> alive_count p = 1 \<and>
     (\<forall>addr port'. \<exists>i. HashSelection addr port' p = Ret (Inr i) \<and> \<not> Alive (members p ! i))"
proof -
  let ?p = "pool_of [farm ''http://a'' False, farm ''http://b'' True]"
  have "pool_wf ?p" by (rule pool_of_wf) simp
  moreover from this have "alive_count ?p = 1" by (simp add: alive_count_def pool_of_def farm_def)
  ultimately show ?thesis
    using HashSelection_result [of ?p] by (intro exI [of _ ?p]) (simp add: pool_of_def farm_def)
qed

text \<open>
  C29. A request is answered, with either selection method (source hashing for clients whose address
  parses): the mutually recursive handlers return after at most \<open>maxRetry + 3\<close> tries; a served request
  was served by the last member tried, and every other try failed.
\<close>

theorem request_is_answered:
  assumes "rr_good lb r \<or> hash_good env lb r" "Attempts r = None" "Retry r = None"
  shows "\<exists>out lb' tries. httpHandler env up lb r = Ret (out, lb', tries) \<and>
    length tries \<le> nat (maxRetry lb) + 3 \<and> tries_ok up out tries"
  using assms rr.answered [of lb r env up] sh.answered [of env lb r up] by blast

theorem request_is_answered_witness:
  "\<exists>out lb' tries. httpHandler demo_env (\<lambda>_ _. False) demo_lb demo_request = Ret (out, lb', tries) \<and> length tries \<le> 6"
proof -
  have good: "rr_good demo_lb demo_request" "Attempts demo_request = None" "Retry demo_request = None" "maxRetry demo_lb = 3"
    by (simp_all add: demo_lb_def demo_request_def rr_good_def pool_of_wf) (simp add: pool_of_def)
  from request_is_answered [OF disjI1 [OF good(1)] good(2,3), of demo_env "\<lambda>_ _. False"] good(4) show ?thesis by auto
qed

text \<open>
  The retry counter is not reset for the next member: with three retries configured, the first
  member is tried four times and the second once before both are marked dead.
\<close>

lemma retries_not_reset_for_next_member:
  "\<exists>lb'. httpHandler demo_env (\<lambda>_ _. False) demo_lb demo_request = Ret (ServiceUnavailable, lb', [1, 1, 1, 1, 0]) \<and>
     maxRetry demo_lb = 3 \<and> map Alive (members (serverPool lb')) = [False, False]"
proof -
  have "(case httpHandler demo_env (\<lambda>_ _. False) demo_lb demo_request of
      Ret (out, lb', tries) \<Rightarrow> out = ServiceUnavailable \<and> tries = [1, 1, 1, 1, 0] \<and> maxRetry demo_lb = 3 \<and>
        map Alive (members (serverPool lb')) = [False, False] | _ \<Rightarrow> False)" by code_simp
  then show ?thesis by (auto split: go.splits)
qed

section \<open>Identifiers and timers\<close>

text \<open>
  Node identifiers: addresses that differ in exactly one character have different identifiers.
\<close>

lemma node_ids_of_similar_addresses:
  "server_hash (pre @ c # post) = server_hash (pre @ d # post) \<longleftrightarrow> c = d"
proof -
  have "byte_of_char c = byte_of_char d \<longleftrightarrow> c = d" by (metis char_of_byte_of_char)
  then show ?thesis by (simp add: server_hash_def bytes_of_string_def fnv64a_one_byte)
qed

text \<open>
  The election timer: a tick starts an election exactly when the node is in the state and the term
  the timer was started in, may stand for election, and has heard nothing for the timeout, which with
  the default settings lies between three and six heartbeat intervals.
\<close>

lemma election_timer_fires:
  "(runElectionTimer_tick now t r = Elect \<longleftrightarrow>
      oldState t = state r \<and> (state r = Candidate \<or> state r = Follower) \<and> termStarted t = currentTerm r \<and>
      timeoutDuration t \<le> now - electionResetEvent r) \<and>
   (0 \<le> rnd \<and> rnd < 3 * HEARBEAT_INTERVAL \<and> Jitter r \<and> \<not> Drop r \<longrightarrow>
      3 * HEARBEAT_INTERVAL \<le> timeoutDuration (runElectionTimer_start rnd r) \<and>
      timeoutDuration (runElectionTimer_start rnd r) < 6 * HEARBEAT_INTERVAL)"
  by (auto simp: runElectionTimer_tick_def isExpired_def isElectionReset_def runElectionTimer_start_def
      electionTimeout_def HEARBEAT_INTERVAL_def)

section \<open>The radix tree\<close>

text \<open>
  C30. Lookup: on a well-formed tree \<open>lookup\<close> returns what the association list of its leaves holds under
  the key.
\<close>

theorem radix_lookup_is_map:
  assumes "tree_wf t"
  shows "Tree_lookup s t = map_of (map (\<lambda>x. (leafKey x, leafVal x)) (entries (root t))) s"
  using lookup_contents [OF assms] by (simp add: contents_def)

theorem radix_lookup_is_map_witness: "Tree_lookup ''romane'' sample_tree = Some 2"
  using radix_lookup_is_map [OF sample_tree_wf(1), of "''romane''"] sample_tree_facts(3)
  by (simp only: contents_def)

text \<open>
  C31. Longest prefix: on a well-formed tree \<open>LongestPrefix\<close> returns the longest stored key that is a prefix
  of its argument, with its value, and reports nothing only if no stored key is a prefix.
\<close>

theorem radix_longest_prefix:
  assumes "tree_wf t" "Tree_LongestPrefix s t = (k, v, found)"
  shows "if found then prefix k s \<and> v \<noteq> None \<and> Tree_lookup k t = v \<and>
      (\<forall>k'. prefix k' s \<and> Tree_lookup k' t \<noteq> None \<longrightarrow> length k' \<le> length k)
    else \<forall>k'. prefix k' s \<longrightarrow> Tree_lookup k' t = None"
  using LongestPrefix_spec [OF assms(1), of s] assms(2) lookup_contents [OF assms(1)] by simp

theorem radix_longest_prefix_witness:
  "prefix ''romane'' ''romanesque'' \<and> Tree_lookup ''romane'' sample_tree = Some 2 \<and>
   Tree_lookup ''romanes'' sample_tree = None"
proof -
  note found = radix_longest_prefix [OF sample_tree_wf(1) sample_tree_facts(4), unfolded if_True]
  then have longest: "length k' \<le> length ''romane''" if "prefix k' ''romanesque''" "Tree_lookup k' sample_tree \<noteq> None" for k'
    using that by (elim conjE) simp
  have "Tree_lookup ''romanes'' sample_tree = None"
    using longest [of "''romanes''"] by (cases "Tree_lookup ''romanes'' sample_tree") simp_all
  with found show ?thesis by simp
qed

text \<open>
  C32. Order: the leaves of a well-formed tree are strictly sorted by key; \<open>Walk\<close> visits them in that order
  until the callback stops it, \<open>WalkPrefix\<close> those whose key has the prefix, \<open>PreorderWalk\<close> those whose key is
  a prefix of the path; and if every branch ends in a leaf, \<open>Min\<close> and \<open>Max\<close> are the first and the last.
\<close>

theorem radix_walks_in_order:
  assumes "tree_wf t" "predicate t = Some f"
  defines "es \<equiv> entries (root t)"
  shows "sorted_wrt (<) (map leafKey es) \<and> Tree_Walk t = Ret (visited f es) \<and>
    Tree_WalkPrefix s t = Ret (visited f (filter (\<lambda>x. prefix s (leafKey x)) es)) \<and>
    Tree_PreorderWalk s t = Ret (visited f (filter (\<lambda>x. prefix (leafKey x) s) es)) \<and>
    (node_full (root t) \<and> es \<noteq> [] \<longrightarrow> Tree_Min t = leaf_result (Some (hd es)) \<and> Tree_Max t = leaf_result (Some (last es)))"
proof -
  have wf: "node_wf [] (root t)" using assms(1) by (simp add: tree_wf_def)
  have "leaf (root t) \<noteq> None \<or> edges (root t) \<noteq> []" if "es \<noteq> []" using that by (cases "root t") (auto simp: es_def split: option.splits)
  then show ?thesis
    using entries_sorted [OF wf] preorderWalk_visits(1) [of f "root t"] walk_prefix_visits [OF wf, of f s]
      path_loop_visits [OF wf, of f s] min_loop_first [of "root t"] max_loop_last [of "root t"]
    by (simp add: es_def assms(2) Tree_Walk_def Tree_WalkPrefix_def Tree_PreorderWalk_def along_def Tree_Min_def Tree_Max_def)
qed

theorem radix_walks_in_order_witness:
  "\<exists>vs. Tree_Walk sample_tree = Ret vs \<and> map leafKey vs = [''rom'', ''romane'', ''romulus'']"
proof -
  have "map leafKey (visited (\<lambda>_ v. v = 3) (entries (root sample_tree))) = [''rom'', ''romane'', ''romulus'']" by code_simp
  then show ?thesis
    using radix_walks_in_order [OF sample_tree_wf(1) sample_tree_facts(1), THEN conjunct2, THEN conjunct1] by (intro exI conjI)
qed

text \<open>
  C33. Insertion: on a well-formed tree \<open>Insert\<close> panics exactly when the key leads to a node without an edge
  for its next character; otherwise it returns the old value, the tree stays well formed, and lookups see
  the new value under the key and the old ones elsewhere.
\<close>

theorem radix_insert_updates:
  assumes "tree_wf t"
  shows "if missing_edge (root t) s then Tree_Insert s v t = Panic NilDereference
    else \<exists>t'. Tree_Insert s v t = Ret (t', Tree_lookup s t, Tree_lookup s t \<noteq> None) \<and> tree_wf t' \<and>
      (\<forall>k. Tree_lookup k t' = (if k = s then Some v else Tree_lookup k t))"
proof (cases "missing_edge (root t) s")
  case True
  then have "s \<noteq> []" by auto
  then show ?thesis using Insert_outcome [of s t v] True by simp
next
  case False
  then obtain t' old found where ins: "Tree_Insert s v t = Ret (t', old, found)"
    using Insert_outcome [of s t v] by (metis prod_cases3)
  show ?thesis
    using ins radix.ins_wf [OF assms ins] radix.ins_old [OF assms ins] radix.ins_look [OF assms ins] False by auto
qed

theorem radix_insert_updates_witness:
  "\<exists>t'. Tree_Insert ''roman'' 9 sample_tree = Ret (t', None, False) \<and> tree_wf t' \<and> Tree_lookup ''roman'' t' = Some 9 \<and>
     Tree_lookup ''romane'' t' = Some 2"
proof -
  have "Tree_lookup ''roman'' sample_tree = None" "Tree_lookup ''romane'' sample_tree = Some 2" by code_simp+
  then show ?thesis using radix_insert_updates [OF sample_tree_wf(1), of "''roman''" 9] sample_tree_facts(2) by auto
qed

text \<open>
  C34. Removal of a prefix: on a well-formed tree \<open>RemovePrefix\<close> returns the number of keys with the prefix,
  removes exactly those, and keeps the size equal to the number of keys.
\<close>

theorem radix_remove_prefix:
  assumes "tree_wf t"
  shows "\<exists>t'. Tree_RemovePrefix s t = Ret (t', int (length (filter (\<lambda>x. prefix s (leafKey x)) (entries (root t))))) \<and>
    tree_wf t' \<and> (\<forall>k. Tree_lookup k t' = (if prefix s k then None else Tree_lookup k t))"
proof -
  from RemovePrefix_spec [OF assms, of s] obtain t' where
    t': "Tree_RemovePrefix s t = Ret (t', int (length (filter (\<lambda>x. prefix s (leafKey x)) (entries (root t)))))"
      "tree_wf t'" "contents t' = (\<lambda>k. if prefix s k then None else contents t k)" by blast
  then show ?thesis using lookup_contents [OF assms] lookup_contents [OF t'(2)] by simp
qed

theorem radix_remove_prefix_witness:
  "\<exists>t'. Tree_RemovePrefix ''rom'' sample_tree = Ret (t', 3) \<and> Tree_lookup ''romane'' t' = None"
  using radix_remove_prefix [OF sample_tree_wf(1), of "''rom''"] sample_tree_facts(5) by fastforce

text \<open>
  The trees the package can build itself: the root never gets an edge, so that \<open>Insert\<close> of any non-empty
  key panics, and \<open>remove\<close> of a stored non-empty key panics on every tree.
\<close>

lemma built_trees_reject_keys:
  assumes "built t" "s \<noteq> []"
  shows "Tree_Insert s v t = Panic NilDereference"
proof -
  obtain c q where "s = c # q" using assms(2) by (cases s) auto
  then have "missing_edge (root t) s" using built_no_edges [OF assms(1)] by (simp add: no_edges_getEdge)
  then show ?thesis using Insert_outcome [of s t v] assms(2) by simp
qed

lemma remove_stored_key_panics:
  assumes "tree_wf t" "s \<noteq> []" "Tree_lookup s t \<noteq> None"
  shows "Tree_remove s t = Panic IndexOutOfRange"
  using remove_loop_nonempty [of "length s" "[]" "root t" True s] assms
  by (auto simp: tree_wf_def Tree_lookup_def Tree_remove_def)

text \<open>\<open>RemovePrefix\<close> leaves an empty node behind, and \<open>Min\<close> stops there although keys are left.\<close>

lemma min_after_remove_prefix:
  "\<exists>t'. Tree_RemovePrefix ''rom'' sample_tree = Ret (t', 3) \<and> Tree_lookup ''rub'' t' = Some 4 \<and> Tree_Min t' = ([], None, False)"
proof -
  have "(case Tree_RemovePrefix ''rom'' sample_tree of
      Ret (t', n) \<Rightarrow> n = 3 \<and> Tree_lookup ''rub'' t' = Some 4 \<and> Tree_Min t' = ([], None, False) | _ \<Rightarrow> False)" by code_simp
  then show ?thesis by (auto split: go.splits)
qed

section \<open>Flows\<close>

text \<open>
  C35. Checksum: for a buffer of at most 131072 bytes the two loops and the complement compute the
  one's complement of the one's complement sum of its 16-bit words, in the representation that is
  never zero.
\<close>

theorem checksum_is_ones_complement:
  assumes "length buf \<le> 131072"
  shows "unat (checksum buf) = 65535 - word_sum buf mod 65535 \<and> checksum buf \<noteq> 0"
proof -
  have "word_sum buf mod 65535 < 65535" by simp
  then show ?thesis using checksum_value [OF assms] by (auto simp: unat_eq_zero [symmetric])
qed

theorem checksum_is_ones_complement_witness: "unat (checksum [0x45, 0, 0, 0x1d, 0xff]) = 65535 - (0x4500 + 0x1d + 0xff00) mod 65535"
  using checksum_is_ones_complement [of "[0x45, 0, 0, 0x1d, 0xff]"] by simp

text \<open>
  C36. Generated packets: for addresses that parse, the generator sends one packet for every line read that fits, in
  order; a receiver finds the payload, both length fields right, and both checksums correct, on Darwin once
  the kernel has swapped the bytes of the length field back. When every read of the input returns one line, the lines
  read are those of the input; of several lines in one read only the first is read, since every round reads
  through a new buffer.
\<close>

theorem generated_packets_verify:
  assumes "parse4 src = Some src4" "parse4 dst = Some dst4"
  shows "(\<exists>sent. gen_main parse4 True True True darwin src dst sport dport chunks = Ret sent \<and>
      list_all2 (\<lambda>line pkt. packet_ok line (if darwin then swap23 pkt else pkt)) (filter line_fits (read_lines chunks)) sent) \<and>
    ((\<forall>c \<in> set chunks. is_line c) \<longrightarrow> read_lines chunks = chunks) \<and>
    (\<forall>line xs. is_line line \<longrightarrow> read_lines ((line @ xs) # chunks) = line # read_lines chunks)"
  using assms gen_loop_packets [of darwin chunks] read_lines_terminal [of chunks] read_lines_first
  by (simp add: gen_main_def Let_def)

theorem generated_packets_verify_witness:
  "\<exists>pkt. gen_main (\<lambda>_. Some [127, 0, 0, 1]) True True True False ''127.0.0.1'' ''127.0.0.1'' 10000 15000 [[104, 105, 10, 120, 10]] = Ret [pkt] \<and>
     packet_ok [104, 105, 10] pkt"
proof -
  let ?chunks = "[[104, 105, 10, 120, 10]] :: bytes list"
  have line: "line_fits [104, 105, 10]" "is_line [104, 105, 10]" by (simp_all add: line_fits_def is_line_def)
  note gen = generated_packets_verify [of "\<lambda>_. Some [127, 0, 0, 1]" "''127.0.0.1''" "[127, 0, 0, 1]" "''127.0.0.1''" "[127, 0, 0, 1]"
      False 10000 15000, OF refl refl]
  have "read_lines (([104, 105, 10] @ [120, 10]) # []) = [104, 105, 10] # read_lines []"
    using gen [of "[]"] line(2) by blast
  moreover have "read_lines [] = []" by (simp add: read_lines.simps)
  ultimately have "filter line_fits (read_lines ?chunks) = [[104, 105, 10]]" using line(1) by simp
  then show ?thesis
    using gen [of ?chunks, THEN conjunct1] by (auto simp: list_all2_Cons1)
qed

text \<open>
  C37. Capture: a capture that ends has read the packets up to a point; every packet read that has both
  layers is recorded under its hash, every header in the table is that of such a packet, no bucket holds
  two headers with the same hosts, and of the packets read at most one more than the buffer size has a
  transport layer, exactly so many if packets are left. Packets without a transport layer are skipped and read
  without a limit.
\<close>

theorem capture_records_flows:
  assumes "capture_loop n ps 0 [] = Ret (t, left)" "0 \<le> n"
  shows "\<exists>taken. ps = taken @ left \<and> flows_ok t \<and> from_packets taken t \<and>
    (\<forall>p \<in> set taken. \<forall>h e. flow_of p = Some (h, e) \<longrightarrow> recorded h e t) \<and>
    transports taken \<le> n + 1 \<and> (left \<noteq> [] \<longrightarrow> transports taken = n + 1)"
proof -
  have "flows_ok []" "from_packets [] []" by (simp_all add: flows_ok_def from_packets_def)
  from capture_loop_table [OF assms(1) this assms(2)] show ?thesis by (auto simp: captured_def)
qed

theorem capture_records_flows_witness:
  "flows_ok sample_table \<and> recorded 7 \<lparr>SrcPort = [], DstPort = [], SrcIp = ''10.0.0.2'', DstIp = ''10.0.0.9'', HdrProto = []\<rparr> sample_table"
proof -
  let ?p = "sample_packet 7 ''10.0.0.2''"
  from capture_records_flows [OF sample_captured] obtain taken where
    "flows_ok sample_table" "sample_capture = taken @ []" "\<forall>p \<in> set taken. \<forall>h e. flow_of p = Some (h, e) \<longrightarrow> recorded h e sample_table"
    by auto
  moreover have "?p \<in> set sample_capture" by (simp add: sample_capture_def)
  moreover have "flow_of ?p = Some (7, hdr_of \<lparr>FastHash = 7, flowSrc = ''5000'', flowDst = ''80'', LayerType = ''TCP''\<rparr> (''10.0.0.2'', ''10.0.0.9''))"
    by (simp add: flow_of_def sample_packet_def)
  ultimately show ?thesis by (auto simp: recorded_def same_hosts_def hdr_of_def)
qed

text \<open>
  C38. From packets to the page of flows: a captured table, published through a client whose cached leader
  leads and runs, is appended to the log of the leader, whatever the order in which the range over the table
  visits its entries, and in that order; once its entries are stored in an empty store, the page of flows shows
  the headers of the table, each bucket once, in the order of another range. The encoder is assumed to be
  undone by the decoder and to produce at least one byte.
\<close>

theorem captured_flows_are_shown:
  assumes "capture_loop n ps 0 [] = Ret (t, left)" "0 \<le> n"
    and "mux_ok (client_leader c) mux" "client_leader c \<noteq> []" "leads s r" "server_inv s" "db s = Some NewVolatileStorage"
    and "\<forall>f. decode (gob f) = Some f" "\<forall>f. gob f \<noteq> []" and "mset ranged = mset t" "\<forall>m. mset (order m) = mset m"
  shows "\<exists>s1 r1. publish_loop http (post_server mux) gob ranged c s = (map fst ranged, c, s1) \<and> raftState s1 = Some r1 \<and>
    stateLog r1 = stateLog r @ flow_entries gob (currentTerm r) ranged \<and>
    (\<forall>cs s2. map (\<lambda>e. Some (ceCommand e)) cs = map eCommand (flow_entries gob (currentTerm r) ranged) \<and> ReadCommits_all cs s1 = Ret s2 \<longrightarrow>
      (\<exists>page. mset page = mset t \<and> HandlerFlows order parseInt decode size' s2 =
        Ret (Written 200 \<lparr>flowLast_page = Min_int (int (length t)) (parse_limit parseInt size'), flowData = concat (map snd page)\<rparr>)))"
proof -
  have "flows_ok []" "from_packets [] []" by (simp_all add: flows_ok_def from_packets_def)
  from capture_loop_table [OF assms(1) this assms(2)] have ok: "flows_ok t" by (auto simp: captured_def)
  from publish_to_leader [OF assms(3,4,9,5), of http ranged] obtain s1 where
    s1: "publish_loop http (post_server mux) gob ranged c s = (map fst ranged, c, s1)" "db s1 = db s" "server_inv s1 = server_inv s"
      "leads s1 (append_log (stateLog r) (flow_entries gob (currentTerm r) ranged) r)" by blast
  have "server_inv s1" "db s1 = Some NewVolatileStorage" using s1 assms(6,7) by simp_all
  note page = HandlerFlows_shows [OF assms(8) ok assms(10,11) this]
  show ?thesis using s1(1,4) page by (auto simp: leads_def)
qed

theorem captured_flows_are_shown_witness:
  "\<exists>s1. publish_loop (\<lambda>_. Timeout) (post_server last_two) toy_gob (rev sample_table)
     \<lparr>endpoint = [], client_leader = ''n1:8001'', verbose = False\<rparr> leading =
       (map fst (rev sample_table), \<lparr>endpoint = [], client_leader = ''n1:8001'', verbose = False\<rparr>, s1)"
proof -
  let ?c = "\<lparr>endpoint = [], client_leader = ''n1:8001'', verbose = False\<rparr>"
  have "LeaderId leading = 0" using reachable_server_wf [OF leading_facts(1)] by (simp add: server_wf_def)
  then have lead: "leads leading (makeLeader (raft_at 0))" using leading_facts by (simp add: leads_def)
  have "client_leader ?c \<noteq> []" "(0::int) \<le> 100" "\<forall>f. untoy_gob (toy_gob f) = Some f" "\<forall>f. toy_gob f \<noteq> []"
    "mset (rev sample_table) = mset sample_table" "\<forall>m :: (string, bytes) gomap. mset (rev m) = mset m"
    by (simp_all add: toy_gob_ok)
  from captured_flows_are_shown [OF sample_captured this(2) last_two_ok this(1) lead leading_facts(6) leading_store this(3-6)]
  show ?thesis by blast
qed

section \<open>Starting a cluster\<close>

text \<open>
  C39. The goroutines of the sniffer: with at most 32 publishers, under every interleaving, each captured table is
  handled once, held by one publisher, in the channel to the publishers, about to be sent there or in the
  channel of the capturing goroutine; there is one table in that channel for each quit signal the capturing
  goroutine has taken, and one more between a capture and the \<open>select\<close>, and after 32 such signals it
  never captures again; while no publisher has taken a quit signal, one that holds a table or waits for a
  token can always go on; and when every publisher has taken one nothing is published any more.
\<close>

theorem publishers_conserve_tables:
  assumes "length cs \<le> 32" "crew_run s http post gob (start_crew s cs ps w) k"
  shows "mset (tables k) = mset (handled k) + in_hand k + mset (chBuf (captureReady k)) + in_transit k + mset (chBuf (buffer k)) \<and>
    length (chBuf (buffer k)) = captureQuits k + (if capturer k = Choosing then 1 else 0) \<and>
    (captureQuits k = 32 \<longrightarrow> (\<forall>k'. crew_run s http post gob k k' \<longrightarrow> tables k' = tables k)) \<and>
    (quits k = 0 \<longrightarrow> (\<forall>i < length cs. snd (workers k ! i) \<noteq> Selecting \<longrightarrow>
       (\<exists>k'. crew_step s http post gob k k' \<and> workers k' ! i \<noteq> workers k ! i))) \<and>
    (quits k = length cs \<longrightarrow> (\<forall>k'. crew_run s http post gob k k' \<longrightarrow> handled k' = handled k))"
proof -
  note inv = crew_run_inv [OF assms(2)]
  have "\<exists>k'. crew_step s http post gob k k' \<and> workers k' ! i \<noteq> workers k ! i"
    if "quits k = 0" "i < length cs" "snd (workers k ! i) \<noteq> Selecting" for i
    using worker_goes_on [OF inv(1) that(1)] inv(2) assms(1) that by simp
  moreover have "handled k' = handled k" if "quits k = length cs" "crew_run s http post gob k k'" for k'
    using crew_run_idle [OF that(2) inv(1)] inv(2) that(1) by simp
  moreover have "tables k' = tables k" if "captureQuits k = 32" "crew_run s http post gob k k'" for k'
    using crew_run_full [OF that(2) inv(1) that(1)] by simp
  ultimately show ?thesis using inv(1) unfolding crew_inv_def by blast
qed

theorem publishers_conserve_tables_witness:
  "\<exists>k'. crew_step sample_sniffer (\<lambda>_. Timeout) (\<lambda>_ u. (u, Timeout)) toy_gob sample_crew k' \<and> workers k' ! 0 \<noteq> workers sample_crew ! 0"
proof -
  have "length [sample_client, sample_client] \<le> 32" by simp
  from publishers_conserve_tables [OF this sample_crew_runs]
  have "quits sample_crew = 0 \<longrightarrow> (\<forall>i < 2. snd (workers sample_crew ! i) \<noteq> Selecting \<longrightarrow>
    (\<exists>k'. crew_step sample_sniffer (\<lambda>_. Timeout) (\<lambda>_ u. (u, Timeout)) toy_gob sample_crew k' \<and> workers k' ! i \<noteq> workers sample_crew ! i))" by simp
  then show ?thesis using sample_crew_facts by simp
qed

text \<open>
  C40. Nodes started from artifacts with the same controllers, whose addresses are distinct and have
  distinct hashes: each takes the first controller whose ports are free, and all agree on the members of
  the cluster, which are the hashes of all the addresses. If no ports are free the process exits.
\<close>

theorem bootstrapped_nodes_agree:
  assumes "Read env1 un1 (config_file args1) = Ret (Inr a1)" "Controllers (Formation a1) = cs"
    and "Read env2 un2 (config_file args2) = Ret (Inr a2)" "Controllers (Formation a2) = cs"
    and "distinct (map raft_bind cs)" "inj_on server_hash (raft_bind ` set cs)"
    and "node_main env1 un1 free1 args1 = Ret (s1 :: 'c Server)" "raftState s1 = Some r1"
    and "node_main env2 un2 free2 args2 = Ret s2" "raftState s2 = Some r2"
  shows "(\<exists>i. first_free free1 cs = Some i \<and> serverId s1 = server_hash (raft_bind (cs ! i))) \<and>
    config_ok r1 \<and> config_ok r2 \<and> cluster_ids r1 = server_hash ` raft_bind ` set cs \<and> cluster_ids r2 = cluster_ids r1 \<and>
    numberPeers r1 = int (length cs) - 1 \<and>
    (first_free free cs = None \<longrightarrow> node_main env1 un1 free args1 = (Panic FatalExit :: 'c Server go))"
proof -
  have "cs \<noteq> []" using assms(1,2,7) by (auto simp: node_main_def)
  then have "first_free free cs = None \<longrightarrow> node_main env1 un1 free args1 = (Panic FatalExit :: 'c Server go)"
    by (simp add: node_main_outcome [OF assms(1,2)])
  then show ?thesis
    using node_main_config [OF assms(7,1,2,5,6,8)] node_main_config [OF assms(9,3,4,5,6,10)] by auto
qed

theorem bootstrapped_nodes_agree_witness:
  "\<exists>s1 s2 r1 r2. node_main sample_os (\<lambda>_. Some sample_artifact) (free_on ''n1'') sample_args = Ret (s1 :: unit Server) \<and>
     node_main sample_os (\<lambda>_. Some sample_artifact) (free_on ''n2'') sample_args = Ret (s2 :: unit Server) \<and>
     raftState s1 = Some r1 \<and> raftState s2 = Some r2 \<and> cluster_ids r1 = cluster_ids r2"
proof -
  have "first_free (free_on ''n1'') sample_controllers = Some 0" "first_free (free_on ''n2'') sample_controllers = Some 1"
    by code_simp+
  from sample_started [OF this(1)] sample_started [OF this(2)] obtain s1 r1 s2 r2 where
    s: "node_main sample_os (\<lambda>_. Some sample_artifact) (free_on ''n1'') sample_args = Ret (s1 :: unit Server)" "raftState s1 = Some r1"
      "node_main sample_os (\<lambda>_. Some sample_artifact) (free_on ''n2'') sample_args = Ret (s2 :: unit Server)" "raftState s2 = Some r2"
    by blast
  then show ?thesis
    using bootstrapped_nodes_agree [OF sample_read_ok(1,2,1,2,4) sample_hashes s] by metis
qed

end
